(* ===== verification/Kernel_Base.thy ===== *)
theory Kernel_Base
  imports Main "HOL-Library.Word" "HOL-Library.Signed_Division"
begin

text \<open>
  The prelude of the development: what the C code of every module uses of the language and of the
  kernel it runs in.

  \<^item> C integers are \<open>int\<close> values with the width written out where it can matter: \<open>s32\<close>, \<open>u32\<close>,
    \<open>s64\<close> and \<open>u64\<close> are the conversions to \<open>int\<close>, \<open>unsigned int\<close>, \<open>long\<close> / \<open>loff_t\<close> and
    \<open>unsigned long\<close> / \<open>size_t\<close>. Signed arithmetic wraps, as the kernel is compiled
    (\<^verbatim>\<open>-fno-strict-overflow\<close>). Division traps on a zero divisor and on an unrepresentable quotient.
  \<^item> A computation of the kernel either returns (\<open>Done\<close>) or hits a fault (\<open>Oops\<close>): a divide error, a
    dereference of an invalid pointer, an access outside of an object, or a \<open>BUG()\<close> of the code. A system
    call that returns an error code is not a fault: its return value is a sum, \<open>Inl\<close> of the \<open>errno\<close>.
  \<^item> The kernel's own services are parameters: the allocator (\<open>kmalloc\<close>), whether a wait for a lock is
    interrupted, and how many bytes of a copy between user and kernel space are left uncopied.
\<close>

section \<open>Collections of facts\<close>

named_theorems width_simps \<open>conversions between integer widths that do nothing in range\<close>
named_theorems exec_simps \<open>inversion of computations that return\<close>

section \<open>Error codes, faults and results\<close>

datatype errno =
    EPERM | ENOENT | EIO | ENXIO | EAGAIN | ENOMEM | EFAULT | EBUSY | EEXIST | EXDEV | ENODEV
  | EINVAL | ENOTTY | ENOSPC | ERESTARTSYS | EIOCBQUEUED | EOTHER nat

datatype fault = DivideError | NullDeref | OutOfBounds | KernelBug

datatype 'a exec = Oops fault | Done 'a

text \<open>What a system call hands back to its caller: an error code or a value.\<close>

type_synonym 'a ret = "errno + 'a"

fun kbind :: "'a exec \<Rightarrow> ('a \<Rightarrow> 'b exec) \<Rightarrow> 'b exec" where
  "kbind (Oops e) f = Oops e"
| "kbind (Done x) f = f x"

primrec is_done :: "'a exec \<Rightarrow> bool" where
  "is_done (Oops e) = False"
| "is_done (Done x) = True"

lemma kbind_eq_Done [exec_simps]: "kbind m f = Done y \<longleftrightarrow> (\<exists>x. m = Done x \<and> f x = Done y)"
  by (cases m) auto

lemma kbind_eq_Oops: "kbind m f = Oops e \<longleftrightarrow> m = Oops e \<or> (\<exists>x. m = Done x \<and> f x = Oops e)"
  by (cases m) auto

lemma kbind_assoc: "kbind (kbind m f) g = kbind m (\<lambda>x. kbind (f x) g)"
  by (cases m) auto

lemma kbind_cong [fundef_cong]:
  "m = m' \<Longrightarrow> (\<And>x. m' = Done x \<Longrightarrow> f x = f' x) \<Longrightarrow> kbind m f = kbind m' f'"
  by (cases m') auto

lemma is_done_iff: "is_done m \<longleftrightarrow> (\<exists>x. m = Done x)"
  by (cases m) auto

lemma is_done_kbind: "is_done (kbind m f) \<longleftrightarrow> (\<exists>x. m = Done x \<and> is_done (f x))"
  by (cases m) auto

section \<open>Machine integers\<close>

definition s32 :: "int \<Rightarrow> int" where
  "s32 x = signed_take_bit 31 x"

definition u32 :: "int \<Rightarrow> int" where
  "u32 x = take_bit 32 x"

definition s64 :: "int \<Rightarrow> int" where
  "s64 x = signed_take_bit 63 x"

definition u64 :: "int \<Rightarrow> int" where
  "u64 x = take_bit 64 x"

lemma s32_id [width_simps]: "- (2 ^ 31) \<le> x \<Longrightarrow> x < 2 ^ 31 \<Longrightarrow> s32 x = x"
  by (simp add: s32_def signed_take_bit_int_eq_self)

lemma s32_nonneg [width_simps]: "0 \<le> x \<Longrightarrow> x < 2 ^ 31 \<Longrightarrow> s32 x = x"
  by (simp add: s32_id)

lemma s64_nonneg [width_simps]: "0 \<le> x \<Longrightarrow> x < 2 ^ 63 \<Longrightarrow> s64 x = x"
  by (simp add: s64_def signed_take_bit_int_eq_self)

lemma u32_id [width_simps]: "0 \<le> x \<Longrightarrow> x < 2 ^ 32 \<Longrightarrow> u32 x = x"
  by (simp add: u32_def take_bit_int_eq_self)

lemma s64_id [width_simps]: "- (2 ^ 63) \<le> x \<Longrightarrow> x < 2 ^ 63 \<Longrightarrow> s64 x = x"
  by (simp add: s64_def signed_take_bit_int_eq_self)

lemma u64_id [width_simps]: "0 \<le> x \<Longrightarrow> x < 2 ^ 64 \<Longrightarrow> u64 x = x"
  by (simp add: u64_def take_bit_int_eq_self)

lemma s64_u64: "- (2 ^ 63) \<le> x \<Longrightarrow> x < 2 ^ 63 \<Longrightarrow> s64 (u64 x) = x"
  by (simp add: s64_def u64_def signed_take_bit_take_bit signed_take_bit_int_eq_self)

lemma s32_range: "- (2 ^ 31) \<le> s32 x \<and> s32 x < 2 ^ 31"
  using signed_take_bit_int_greater_eq_minus_exp [of 31 x] signed_take_bit_int_less_exp [of 31 x]
  by (simp add: s32_def)

lemma u64_range: "0 \<le> u64 x \<and> u64 x < 2 ^ 64"
  using take_bit_int_less_exp [of 64 x] by (simp add: u64_def)

lemma u64_not_neg [simp]: "\<not> u64 x < 0"
  using u64_range [of x] by simp

lemma u32_range: "0 \<le> u32 x \<and> u32 x < 2 ^ 32"
  using take_bit_int_less_exp [of 32 x] by (simp add: u32_def)

text \<open>
  Division and remainder of C truncate towards zero. The instruction raises a divide error on a
  zero divisor and when the quotient does not fit into \<open>w\<close> bits.
\<close>

definition c_div :: "nat \<Rightarrow> int \<Rightarrow> int \<Rightarrow> int exec" where
  "c_div w a b =
     (if b = 0 \<or> a sdiv b < - (2 ^ (w - 1)) \<or> 2 ^ (w - 1) \<le> a sdiv b then Oops DivideError
      else Done (a sdiv b))"

definition c_mod :: "nat \<Rightarrow> int \<Rightarrow> int \<Rightarrow> int exec" where
  "c_mod w a b =
     (if b = 0 \<or> a sdiv b < - (2 ^ (w - 1)) \<or> 2 ^ (w - 1) \<le> a sdiv b then Oops DivideError
      else Done (a smod b))"

lemma sdiv_nonneg: "0 \<le> a \<Longrightarrow> 0 < b \<Longrightarrow> a sdiv b = a div (b::int)"
  by (cases "a = 0") (auto simp: signed_divide_int_def)

lemma smod_nonneg: "0 \<le> a \<Longrightarrow> 0 < b \<Longrightarrow> a smod b = a mod (b::int)"
  by (cases "a = 0") (auto simp: signed_modulo_int_def)

lemma div_in_range: "0 \<le> a \<Longrightarrow> 0 < b \<Longrightarrow> a < c \<Longrightarrow> a div b < (c::int)"
  using int_div_less_self zdiv_mono2 [of a 1 b] by fastforce

lemma c_div_nonneg [width_simps]:
  assumes "0 \<le> a" and "0 < b" and "a < 2 ^ (w - 1)"
  shows "c_div w a b = Done (a div b)"
proof -
  have "0 \<le> a div b" "a div b < 2 ^ (w - 1)"
    using assms by (auto simp: pos_imp_zdiv_nonneg_iff div_in_range)
  moreover have "- (2 ^ (w - 1)) \<le> (0::int)" by simp
  ultimately show ?thesis using assms by (auto simp: c_div_def sdiv_nonneg)
qed

lemma c_mod_nonneg [width_simps]:
  assumes "0 \<le> a" and "0 < b" and "a < 2 ^ (w - 1)"
  shows "c_mod w a b = Done (a mod b)"
proof -
  have "0 \<le> a div b" "a div b < 2 ^ (w - 1)"
    using assms by (auto simp: pos_imp_zdiv_nonneg_iff div_in_range)
  moreover have "- (2 ^ (w - 1)) \<le> (0::int)" by simp
  ultimately show ?thesis using assms by (auto simp: c_mod_def sdiv_nonneg smod_nonneg)
qed

lemma c_div_zero [simp]: "c_div w a 0 = Oops DivideError"
  by (simp add: c_div_def)

section \<open>Memory objects\<close>

type_synonym byte = "8 word"
type_synonym addr = nat

text \<open>
  A pointer that owns what it points to: \<open>None\<close> is \<open>NULL\<close>, otherwise the address of the block and the
  object stored there.
\<close>

type_synonym 'a owned = "(addr \<times> 'a) option"

definition owned_addr :: "'a owned \<Rightarrow> addr list" where
  "owned_addr p = (case p of None \<Rightarrow> [] | Some (a, x) \<Rightarrow> [a])"

lemma owned_addr_simps [simp]: "owned_addr None = []" "owned_addr (Some (a, x)) = [a]"
  by (simp_all add: owned_addr_def)

text \<open>Reads and writes of \<open>n\<close> bytes at an offset of an object; outside of the object they fault.\<close>

definition mem_read :: "byte list \<Rightarrow> int \<Rightarrow> int \<Rightarrow> byte list exec" where
  "mem_read m off n =
     (if 0 \<le> off \<and> 0 \<le> n \<and> off + n \<le> int (length m)
      then Done (take (nat n) (drop (nat off) m)) else Oops OutOfBounds)"

definition mem_write :: "byte list \<Rightarrow> int \<Rightarrow> byte list \<Rightarrow> byte list exec" where
  "mem_write m off bs =
     (if 0 \<le> off \<and> off + int (length bs) \<le> int (length m)
      then Done (take (nat off) m @ bs @ drop (nat off + length bs) m) else Oops OutOfBounds)"

definition arr_get :: "'a list \<Rightarrow> int \<Rightarrow> 'a exec" where
  "arr_get xs i = (if 0 \<le> i \<and> i < int (length xs) then Done (xs ! nat i) else Oops OutOfBounds)"

definition arr_set :: "'a list \<Rightarrow> int \<Rightarrow> 'a \<Rightarrow> 'a list exec" where
  "arr_set xs i v = (if 0 \<le> i \<and> i < int (length xs) then Done (xs[nat i := v]) else Oops OutOfBounds)"

lemma mem_write_Done [exec_simps]:
  "mem_write m off bs = Done m' \<longleftrightarrow>
     0 \<le> off \<and> off + int (length bs) \<le> int (length m) \<and>
     m' = take (nat off) m @ bs @ drop (nat off + length bs) m"
  by (auto simp: mem_write_def)

lemma mem_read_Done [exec_simps]:
  "mem_read m off n = Done bs \<longleftrightarrow>
     0 \<le> off \<and> 0 \<le> n \<and> off + n \<le> int (length m) \<and> bs = take (nat n) (drop (nat off) m)"
  by (auto simp: mem_read_def)

lemma arr_get_Done [exec_simps]:
  "arr_get xs i = Done x \<longleftrightarrow> 0 \<le> i \<and> i < int (length xs) \<and> x = xs ! nat i"
  by (auto simp: arr_get_def)

lemma length_mem_write: "mem_write m off bs = Done m' \<Longrightarrow> length m' = length m"
  by (auto simp: mem_write_Done)

lemma mem_write_nth:
  assumes "mem_write m off bs = Done m'" and "i < length m"
  shows "m' ! i = (if nat off \<le> i \<and> i < nat off + length bs then bs ! (i - nat off) else m ! i)"
  using assms by (auto simp: mem_write_Done nth_append min_def)

lemma mem_read_write:
  "mem_write m off bs = Done m' \<Longrightarrow> n = int (length bs) \<Longrightarrow> mem_read m' off n = Done bs"
  by (auto simp: mem_write_Done mem_read_def)

text \<open>The C string at the start of an object: the bytes up to the first \<open>NUL\<close>, which has to be in the object.\<close>

definition c_str :: "byte list \<Rightarrow> byte list exec" where
  "c_str m = (if 0 \<in> set m then Done (takeWhile (\<lambda>b. b \<noteq> 0) m) else Oops OutOfBounds)"

section \<open>Services of the kernel\<close>

text \<open>The page size of the machine.\<close>

definition PAGE_SIZE :: int where
  "PAGE_SIZE = 4096"

definition PAGE_SHIFT :: nat where
  "PAGE_SHIFT = 12"

text \<open>
  The allocator is a parameter of every operation that allocates: \<open>km k n\<close> is the outcome of the
  \<open>k\<close>-th call, for \<open>n\<close> bytes, that the operation makes: \<open>None\<close> is \<open>NULL\<close>, otherwise the address of the
  block and the (arbitrary) bytes it holds. What the code relies on is that a block has the size
  that was asked for.
\<close>

type_synonym kmalloc = "nat \<Rightarrow> int \<Rightarrow> byte list owned"

definition kmalloc_sized :: "kmalloc \<Rightarrow> bool" where
  "kmalloc_sized km \<longleftrightarrow> (\<forall>k n a m. km k n = Some (a, m) \<longrightarrow> length m = nat n)"

text \<open>
  Copies between the kernel and a user's buffer: the parameter \<open>left\<close> is the number of bytes that
  cannot be copied. \<open>copy_to_user\<close> returns it with the bytes that reached the user;
  \<open>copy_from_user\<close> pads what it could not copy with zeros.
\<close>

definition copy_to_user :: "nat \<Rightarrow> byte list \<Rightarrow> nat \<times> byte list" where
  "copy_to_user left bs = (min left (length bs), take (length bs - left) bs)"

definition copy_from_user :: "nat \<Rightarrow> byte list \<Rightarrow> nat \<times> byte list" where
  "copy_from_user left bs =
     (min left (length bs), take (length bs - left) bs @ replicate (min left (length bs)) 0)"

lemma copy_to_user_0 [simp]: "copy_to_user 0 bs = (0, bs)"
  by (simp add: copy_to_user_def)

lemma copy_from_user_0 [simp]: "copy_from_user 0 bs = (0, bs)"
  by (simp add: copy_from_user_def)

lemma length_copy_from_user [simp]: "length (snd (copy_from_user left bs)) = length bs"
  by (simp add: copy_from_user_def)

section \<open>Runs within limits\<close>

text \<open>
  The components are used by processes whose calls follow each other in any order. A run is the list of
  the labels of its steps; a label says whether the call was made within the limits that the component
  relies on without checking them, and what was observed. The limits are named where the steps are defined,
  and a theorem that needs them says so.
\<close>

abbreviation in_limits :: "(bool \<times> 'e) list \<Rightarrow> bool" where
  "in_limits es \<equiv> list_all fst es"

section \<open>Generic lemmas on lists\<close>

lemma set_update_cases: "x \<in> set (xs[i := v]) \<Longrightarrow> x = v \<or> x \<in> set xs"
  by (meson insert_iff set_update_subset_insert subset_iff)

lemma take_drop_nth_eq:
  "length ys = n \<Longrightarrow> off + n \<le> length xs \<Longrightarrow> (\<And>i. i < n \<Longrightarrow> xs ! (off + i) = ys ! i) \<Longrightarrow>
     take n (drop off xs) = ys"
  by (rule nth_equalityI) auto

end
