(* ===== verification/Byte_Fifo.thy ===== *)
theory Byte_Fifo
  imports Kernel_Base
begin

text \<open>
  The contract of a first-in first-out byte channel of bounded capacity, and what follows for its clients.
  \<open>get d n\<close> takes some bytes out, at most \<open>n\<close> of them; \<open>put d bs\<close> takes in a prefix of the bytes and
  returns its length. \<open>contents\<close> is the abstract queue, \<open>room\<close> the number of bytes that still fit.
\<close>

text \<open>Reading until the channel is empty, and feeding a buffer through the channel; both by fuel.\<close>

fun drain :: "('d \<Rightarrow> nat \<Rightarrow> 'd \<times> byte list) \<Rightarrow> nat \<Rightarrow> nat \<Rightarrow> 'd \<Rightarrow> 'd \<times> byte list" where
  "drain get n 0 d = (d, [])"
| "drain get n (Suc k) d =
     (case get d n of (d', bs) \<Rightarrow> case drain get n k d' of (d'', rest) \<Rightarrow> (d'', bs @ rest))"

fun pump :: "('d \<Rightarrow> nat \<Rightarrow> 'd \<times> byte list) \<Rightarrow> ('d \<Rightarrow> byte list \<Rightarrow> 'd \<times> nat) \<Rightarrow> nat \<Rightarrow> nat \<Rightarrow> 'd \<Rightarrow> byte list \<Rightarrow>
    'd \<times> byte list"
where
  "pump get put n 0 d buf = (d, [])"
| "pump get put n (Suc k) d buf =
     (case put d buf of (d1, m) \<Rightarrow>
      case get d1 n of (d2, bs) \<Rightarrow>
      case pump get put n k d2 (drop m buf) of (d3, rest) \<Rightarrow> (d3, bs @ rest))"

locale byte_fifo =
  fixes get :: "'d \<Rightarrow> nat \<Rightarrow> 'd \<times> byte list"
    and put :: "'d \<Rightarrow> byte list \<Rightarrow> 'd \<times> nat"
    and contents :: "'d \<Rightarrow> byte list"
    and room :: "'d \<Rightarrow> nat"
    and inv :: "'d \<Rightarrow> bool"
  assumes get_front: "inv d \<Longrightarrow> get d n = (d', bs) \<Longrightarrow>
      inv d' \<and> contents d = bs @ contents d' \<and> length bs \<le> n \<and> room d' = room d + length bs \<and>
      (0 < n \<longrightarrow> contents d \<noteq> [] \<longrightarrow> bs \<noteq> [])"
    and put_back: "inv d \<Longrightarrow> put d bs = (d', m) \<Longrightarrow>
      inv d' \<and> m \<le> length bs \<and> contents d' = contents d @ take m bs \<and> room d' + m = room d \<and>
      (bs \<noteq> [] \<longrightarrow> 0 < room d \<longrightarrow> 0 < m)"
begin

text \<open>Repeated reads deliver the whole contents, in order.\<close>

lemma drain_contents:
  assumes "inv d" and "0 < n" and "length (contents d) \<le> k"
  shows "\<exists>d'. drain get n k d = (d', contents d) \<and> inv d' \<and> contents d' = []"
  using assms
proof (induction k arbitrary: d)
  case (Suc k)
  obtain d1 bs where g: "get d n = (d1, bs)" by force
  note f = get_front [OF Suc.prems(1) g]
  have "length (contents d1) \<le> k"
  proof (cases "contents d = []")
    case False
    then have "bs \<noteq> []" using f Suc.prems(2) by blast
    then have "0 < length bs" by simp
    moreover have "length (contents d) = length bs + length (contents d1)" using f by simp
    ultimately show ?thesis using Suc.prems(3) by linarith
  qed (use f in simp)
  with Suc.IH [of d1] f Suc.prems(2) obtain d' where
    "drain get n k d1 = (d', contents d1)" "inv d'" "contents d' = []" by blast
  then show ?case using g f by auto
qed simp

text \<open>Nothing is lost, duplicated or reordered, at any moment.\<close>

lemma pump_order:
  assumes "inv d" and "pump get put n k d buf = (d', out)"
  shows "\<exists>rest. contents d @ buf = out @ contents d' @ rest \<and> inv d'"
  using assms
proof (induction k arbitrary: d buf out)
  case (Suc k)
  obtain d1 m where p: "put d buf = (d1, m)" by force
  obtain d2 bs where g: "get d1 n = (d2, bs)" by force
  obtain out2 where r: "pump get put n k d2 (drop m buf) = (d', out2)" and out: "out = bs @ out2"
    using Suc.prems(2) p g by (auto split: prod.splits)
  note f1 = put_back [OF Suc.prems(1) p]
  then have f2: "inv d2" "contents d1 = bs @ contents d2" using get_front [OF _ g] by auto
  from Suc.IH [OF f2(1) r] obtain rest where
    "contents d2 @ drop m buf = out2 @ contents d' @ rest" "inv d'" by blast
  moreover have "contents d @ buf = bs @ contents d2 @ drop m buf"
    using f1 f2(2) by (metis append.assoc append_take_drop_id)
  ultimately show ?case using out by auto
qed simp

text \<open>A channel with any capacity at all delivers a whole buffer, after what it held before.\<close>

lemma pump_all:
  assumes "inv d" and "0 < n" and "0 < room d + length (contents d)"
    and "length (contents d) + length buf \<le> k"
  shows "\<exists>d'. pump get put n k d buf = (d', contents d @ buf) \<and> inv d' \<and> contents d' = []"
  using assms
proof (induction k arbitrary: d buf)
  case (Suc k)
  obtain d1 m where p: "put d buf = (d1, m)" by force
  obtain d2 bs where g: "get d1 n = (d2, bs)" by force
  note f1 = put_back [OF Suc.prems(1) p]
  then have f2: "inv d2" "contents d1 = bs @ contents d2" "room d2 = room d1 + length bs"
    "contents d1 \<noteq> [] \<Longrightarrow> bs \<noteq> []" using get_front [OF _ g] Suc.prems(2) by auto
  have len: "length (contents d1) = length (contents d) + m" "m \<le> length buf" using f1 by auto
  have len2: "length (contents d1) = length bs + length (contents d2)" using f2(2) by simp
  have "contents d = [] \<Longrightarrow> buf = [] \<or> 0 < m" using f1 Suc.prems(3) by auto
  then have "contents d @ buf = [] \<or> contents d1 \<noteq> []" using f1 by fastforce
  then have "contents d @ buf = [] \<or> 0 < length bs" using f2(4) by auto
  then have "length (contents d) + length buf = 0 \<or> 0 < length bs" by simp
  then have k: "length (contents d2) + length (drop m buf) \<le> k"
    using len len2 Suc.prems(4) unfolding length_drop by linarith
  have "0 < room d2 + length (contents d2)" using f1 f2(3) len len2 Suc.prems(3) by linarith
  from Suc.IH [OF f2(1) Suc.prems(2) this k] obtain d' where
    r: "pump get put n k d2 (drop m buf) = (d', contents d2 @ drop m buf)" "inv d'" "contents d' = []" by blast
  moreover have "contents d @ buf = bs @ contents d2 @ drop m buf"
    using f1 f2(2) by (metis append.assoc append_take_drop_id)
  ultimately show ?case using p g by simp
qed simp

end

end
