(* ===== verification/Scull_Pipe.thy ===== *)
theory Scull_Pipe
  imports Scull_Data Byte_Fifo
begin

unbundle bit_operations_syntax

text \<open>
  The pipe device of scull (\<^verbatim>\<open>ldd/scull/pipe.c\<close>): a circular buffer with blocking reads and writes. The
  buffer is shown to implement a bounded queue of bytes, the blocking loops to hand the mutex over as
  their comment promises, and \<open>poll\<close> to tell the truth about both. Pointers into the buffer are offsets
  from its start.
\<close>

section \<open>Data\<close>

record scull_pipe =
  sp_buffer :: "byte list owned"
  sp_end :: int
  sp_buffersize :: int
  sp_rp :: int
  sp_wp :: int
  sp_nreaders :: int
  sp_nwriters :: int
  sp_async :: "nat list"
  sp_lock :: bool

definition p_unlock :: "scull_pipe \<Rightarrow> scull_pipe" where
  "p_unlock d = d\<lparr>sp_lock := False\<rparr>"

text \<open>What an operation tells the processes that sleep on the device.\<close>

datatype notify = WakeReaders | WakeWriters | SignalAsync

section \<open>Open and release\<close>

text \<open>The mode of a file, \<open>f_mode & FMODE_READ\<close> and \<open>f_mode & FMODE_WRITE\<close>.\<close>

record fmode =
  fm_read :: bool
  fm_write :: bool

definition scull_p_open ::
  "kmalloc \<Rightarrow> scull_params \<Rightarrow> bool \<Rightarrow> fmode \<Rightarrow> scull_pipe \<Rightarrow> scull_pipe \<times> unit ret" where
  "scull_p_open km g intr fm d =
     (if intr then (d, Inl ERESTARTSYS)
      else let d = d\<lparr>sp_lock := True\<rparr>;
               buffer = (case sp_buffer d of Some b \<Rightarrow> Some b | None \<Rightarrow> km 0 (u64 (scull_p_buffer g))) in
      case buffer of
        None \<Rightarrow> (p_unlock d, Inl ENOMEM)
      | Some b \<Rightarrow>
          (p_unlock (d\<lparr>sp_buffer := Some b, sp_buffersize := scull_p_buffer g, sp_end := scull_p_buffer g,
             sp_rp := 0, sp_wp := 0,
             sp_nreaders := sp_nreaders d + (if fm_read fm then 1 else 0),
             sp_nwriters := sp_nwriters d + (if fm_write fm then 1 else 0)\<rparr>),
           Inr ()))"

text \<open>
  \<open>fasync_helper\<close> is the kernel's: given the descriptor, the file, the mode and the queue it returns the
  queue and a value.
\<close>

type_synonym fasync_helper = "int \<Rightarrow> nat \<Rightarrow> int \<Rightarrow> nat list \<Rightarrow> nat list \<times> int ret"

definition scull_p_fasync :: "fasync_helper \<Rightarrow> int \<Rightarrow> nat \<Rightarrow> int \<Rightarrow> scull_pipe \<Rightarrow> scull_pipe \<times> int ret" where
  "scull_p_fasync fah fd filp mode d =
     (case fah fd filp mode (sp_async d) of (q, r) \<Rightarrow> (d\<lparr>sp_async := q\<rparr>, r))"

definition scull_p_release :: "fasync_helper \<Rightarrow> nat \<Rightarrow> fmode \<Rightarrow> scull_pipe \<Rightarrow> scull_pipe \<times> unit ret \<times> addr list" where
  "scull_p_release fah filp fm d =
     (let d = fst (scull_p_fasync fah (-1) filp 0 d);
          d = d\<lparr>sp_lock := True\<rparr>;
          d = d\<lparr>sp_nreaders := sp_nreaders d - (if fm_read fm then 1 else 0),
                sp_nwriters := sp_nwriters d - (if fm_write fm then 1 else 0)\<rparr> in
      if sp_nreaders d + sp_nwriters d = 0
      then (p_unlock (d\<lparr>sp_buffer := None\<rparr>), Inr (), owned_addr (sp_buffer d))
      else (p_unlock d, Inr (), []))"

section \<open>Waiting\<close>

text \<open>
  A process that waits has released the mutex; what happens to it is a script. Each entry is one
  awakening: a signal that ends the sleep, a signal that ends the wait for the mutex, or the device as the
  process finds it once it holds the mutex again. At the end of the script the process is still asleep.
\<close>

datatype wake = SignalAsleep | SignalOnLock | Resumed scull_pipe

datatype waited = Asleep scull_pipe | GaveUp scull_pipe errno | Holding scull_pipe

fun p_read_wait :: "bool \<Rightarrow> wake list \<Rightarrow> scull_pipe \<Rightarrow> waited" where
  "p_read_wait nonblock ws d =
     (if sp_rp d \<noteq> sp_wp d then Holding d
      else if nonblock then GaveUp (p_unlock d) EAGAIN
      else (case ws of
              [] \<Rightarrow> Asleep (p_unlock d)
            | SignalAsleep # _ \<Rightarrow> GaveUp (p_unlock d) ERESTARTSYS
            | SignalOnLock # _ \<Rightarrow> GaveUp (p_unlock d) ERESTARTSYS
            | Resumed d' # ws' \<Rightarrow> p_read_wait nonblock ws' (d'\<lparr>sp_lock := True\<rparr>)))"

definition spacefree :: "scull_pipe \<Rightarrow> int exec" where
  "spacefree d =
     (if sp_rp d = sp_wp d then Done (s32 (sp_buffersize d - 1))
      else kbind (c_mod 64 (sp_rp d + sp_buffersize d - sp_wp d) (sp_buffersize d)) (\<lambda>r. Done (s32 (r - 1))))"

fun scull_getwritespace :: "bool \<Rightarrow> wake list \<Rightarrow> scull_pipe \<Rightarrow> waited exec" where
  "scull_getwritespace nonblock ws d =
     kbind (spacefree d) (\<lambda>free.
       if free \<noteq> 0 then Done (Holding d)
       else if nonblock then Done (GaveUp (p_unlock d) EAGAIN)
       else (case ws of
               [] \<Rightarrow> Done (Asleep (p_unlock d))
             | SignalAsleep # _ \<Rightarrow> Done (GaveUp (p_unlock d) ERESTARTSYS)
             | SignalOnLock # _ \<Rightarrow> Done (GaveUp (p_unlock d) ERESTARTSYS)
             | Resumed d' # ws' \<Rightarrow> scull_getwritespace nonblock ws' (d'\<lparr>sp_lock := True\<rparr>)))"

section \<open>Read, write and poll\<close>

text \<open>The outcome of a call: still blocked, or returned with a value, the bytes delivered, and wake-ups.\<close>

datatype p_result = Blocked scull_pipe | Returned scull_pipe "int ret" "byte list" "notify list"

definition p_read_data :: "nat \<Rightarrow> scull_pipe \<Rightarrow> int \<Rightarrow> p_result exec" where
  "p_read_data left d count =
     (case sp_buffer d of
        None \<Rightarrow> Oops NullDeref
      | Some (a, m) \<Rightarrow>
          let count = (if sp_wp d > sp_rp d then min count (u64 (sp_wp d - sp_rp d))
                       else min count (u64 (sp_end d - sp_rp d))) in
          kbind (mem_read m (sp_rp d) count) (\<lambda>bs.
            case copy_to_user left bs of
              (uncopied, out) \<Rightarrow>
                if uncopied \<noteq> 0 then Done (Returned (p_unlock d) (Inl EFAULT) out [])
                else let rp = sp_rp d + count;
                         rp = (if rp = sp_end d then 0 else rp) in
                Done (Returned (p_unlock (d\<lparr>sp_rp := rp\<rparr>)) (Inr count) out [WakeWriters])))"

definition scull_p_read :: "nat \<Rightarrow> bool \<Rightarrow> bool \<Rightarrow> wake list \<Rightarrow> scull_pipe \<Rightarrow> int \<Rightarrow> p_result exec" where
  "scull_p_read left intr nonblock ws d count =
     (if intr then Done (Returned d (Inl ERESTARTSYS) [] [])
      else case p_read_wait nonblock ws (d\<lparr>sp_lock := True\<rparr>) of
             Asleep d \<Rightarrow> Done (Blocked d)
           | GaveUp d e \<Rightarrow> Done (Returned d (Inl e) [] [])
           | Holding d \<Rightarrow> p_read_data left d count)"

definition p_write_data :: "nat \<Rightarrow> scull_pipe \<Rightarrow> byte list \<Rightarrow> p_result exec" where
  "p_write_data left d buf =
     kbind (spacefree d) (\<lambda>free.
       let count = min (int (length buf)) (u64 free);
           count = (if sp_wp d \<ge> sp_rp d then min count (u64 (sp_end d - sp_wp d))
                    else min count (u64 (sp_rp d - sp_wp d - 1))) in
       case sp_buffer d of
         None \<Rightarrow> Oops NullDeref
       | Some (a, m) \<Rightarrow>
           (case copy_from_user left (take (nat count) buf) of
              (uncopied, bs) \<Rightarrow>
                kbind (mem_write m (sp_wp d) bs) (\<lambda>m.
                  let d = d\<lparr>sp_buffer := Some (a, m)\<rparr> in
                  if uncopied \<noteq> 0 then Done (Returned (p_unlock d) (Inl EFAULT) [] [])
                  else let wp = sp_wp d + count;
                           wp = (if wp = sp_end d then 0 else wp) in
                  Done (Returned (p_unlock (d\<lparr>sp_wp := wp\<rparr>)) (Inr count) []
                    (WakeReaders # (if sp_async d \<noteq> [] then [SignalAsync] else []))))))"

definition scull_p_write :: "nat \<Rightarrow> bool \<Rightarrow> bool \<Rightarrow> wake list \<Rightarrow> scull_pipe \<Rightarrow> byte list \<Rightarrow> p_result exec" where
  "scull_p_write left intr nonblock ws d buf =
     (if intr then Done (Returned d (Inl ERESTARTSYS) [] [])
      else kbind (scull_getwritespace nonblock ws (d\<lparr>sp_lock := True\<rparr>)) (\<lambda>w.
        case w of
          Asleep d \<Rightarrow> Done (Blocked d)
        | GaveUp d e \<Rightarrow> Done (Returned d (Inl e) [] [])
        | Holding d \<Rightarrow> p_write_data left d buf))"

definition POLLIN :: int where "POLLIN = 1"
definition POLLOUT :: int where "POLLOUT = 4"
definition POLLRDNORM :: int where "POLLRDNORM = 64"
definition POLLWRNORM :: int where "POLLWRNORM = 256"

definition scull_p_poll :: "scull_pipe \<Rightarrow> int exec" where
  "scull_p_poll d =
     (let mask = (if sp_rp d \<noteq> sp_wp d then POLLIN OR POLLRDNORM else 0) in
      kbind (spacefree d) (\<lambda>free. Done (if free \<noteq> 0 then mask OR (POLLOUT OR POLLWRNORM) else mask)))"

section \<open>The dump of the pipes\<close>

datatype p_line =
    PDefaultLine int
  | PDevLine int
  | PBufferLine addr int int
  | PPointerLine int int
  | PUsersLine int int

definition p_dev_lines :: "int \<Rightarrow> scull_pipe \<Rightarrow> p_line list" where
  "p_dev_lines i p =
     [PDevLine i, PBufferLine (case sp_buffer p of None \<Rightarrow> 0 | Some (a, m) \<Rightarrow> a) (sp_end p) (sp_buffersize p),
      PPointerLine (sp_rp p) (sp_wp p), PUsersLine (sp_nreaders p) (sp_nwriters p)]"

fun p_mem_devices :: "(p_line \<Rightarrow> int) \<Rightarrow> int \<Rightarrow> (int \<Rightarrow> bool) \<Rightarrow> int \<Rightarrow> scull_pipe list \<Rightarrow> int \<Rightarrow> unit ret \<times> p_line list" where
  "p_mem_devices width limit intr i [] cnt = (Inr (), [])"
| "p_mem_devices width limit intr i (p # ps) cnt =
     (if cnt \<le> limit
      then if intr i then (Inl ERESTARTSYS, [])
           else let ls = p_dev_lines i p in
             (case p_mem_devices width limit intr (i + 1) ps (cnt + sum_list (map width ls)) of
                (r, rest) \<Rightarrow> (r, ls @ rest))
      else (Inr (), []))"

text \<open>The limit is a page less 200 characters.\<close>

definition scull_read_p_mem ::
  "(p_line \<Rightarrow> int) \<Rightarrow> (int \<Rightarrow> bool) \<Rightarrow> scull_params \<Rightarrow> scull_pipe list \<Rightarrow> int \<Rightarrow> unit ret \<times> p_line list" where
  "scull_read_p_mem width intr g ps cnt =
     (let h = PDefaultLine (scull_p_buffer g) in
      case p_mem_devices width (4096 - 200) intr 0 ps (cnt + width h) of (r, ls) \<Rightarrow> (r, h # ls))"

section \<open>The queue behind the buffer\<close>

definition pipe_wf :: "scull_pipe \<Rightarrow> bool" where
  "pipe_wf d \<longleftrightarrow>
     (case sp_buffer d of
        None \<Rightarrow> False
      | Some (a, m) \<Rightarrow>
          0 < sp_buffersize d \<and> sp_buffersize d < 2 ^ 31 \<and> sp_buffersize d \<le> int (length m) \<and>
          sp_end d = sp_buffersize d \<and> 0 \<le> sp_rp d \<and> sp_rp d < sp_end d \<and> 0 \<le> sp_wp d \<and> sp_wp d < sp_end d)"

definition p_bytes :: "scull_pipe \<Rightarrow> byte list" where
  "p_bytes d = (case sp_buffer d of None \<Rightarrow> [] | Some (a, m) \<Rightarrow> m)"

definition pipe_contents :: "scull_pipe \<Rightarrow> byte list" where
  "pipe_contents d =
     (let r = nat (sp_rp d); w = nat (sp_wp d); e = nat (sp_end d); m = p_bytes d in
      if r \<le> w then take (w - r) (drop r m) else take (e - r) (drop r m) @ take w m)"

lemma pipe_wfE:
  assumes "pipe_wf d"
  obtains a m r w e where "sp_buffer d = Some (a, m)" "sp_end d = int e" "sp_buffersize d = int e"
    "sp_rp d = int r" "sp_wp d = int w" "r < e" "w < e" "e \<le> length m" "int e < 2 ^ 31"
    "pipe_contents d = (if r \<le> w then take (w - r) (drop r m) else take (e - r) (drop r m) @ take w m)"
proof -
  from assms obtain a m where "sp_buffer d = Some (a, m)" "0 < sp_end d" "sp_end d = sp_buffersize d"
    "sp_end d \<le> int (length m)" "sp_end d < 2 ^ 31"
    "0 \<le> sp_rp d" "sp_rp d < sp_end d" "0 \<le> sp_wp d" "sp_wp d < sp_end d"
    by (auto simp: pipe_wf_def split: option.splits)
  then show thesis
    by (intro that [of a m "nat (sp_end d)" "nat (sp_rp d)" "nat (sp_wp d)"])
      (auto simp: pipe_contents_def p_bytes_def Let_def)
qed

lemma pipe_wfI:
  assumes "sp_buffer d = Some (a, m)" "sp_end d = int e" "sp_buffersize d = int e"
    "sp_rp d = int r" "sp_wp d = int w" "r < e" "w < e" "e \<le> length m" "int e < 2 ^ 31"
  shows "pipe_wf d" and
    "pipe_contents d = (if r \<le> w then take (w - r) (drop r m) else take (e - r) (drop r m) @ take w m)"
  using assms by (auto simp: pipe_wf_def pipe_contents_def p_bytes_def Let_def)

lemma pipe_lock_simps [simp]:
  "pipe_wf (d\<lparr>sp_lock := b\<rparr>) = pipe_wf d" "pipe_contents (d\<lparr>sp_lock := b\<rparr>) = pipe_contents d"
  "pipe_wf (p_unlock d) = pipe_wf d" "pipe_contents (p_unlock d) = pipe_contents d" "sp_lock (p_unlock d) = False"
  by (simp_all add: pipe_wf_def pipe_contents_def p_bytes_def p_unlock_def cong: option.case_cong)

lemma pipe_contents_empty: "pipe_wf d \<Longrightarrow> pipe_contents d = [] \<longleftrightarrow> sp_rp d = sp_wp d"
  by (elim pipe_wfE) auto

text \<open>The function computes the number of bytes that fit into the queue; one place stays empty.\<close>

definition pipe_room :: "scull_pipe \<Rightarrow> nat" where
  "pipe_room d = nat (sp_buffersize d) - 1 - length (pipe_contents d)"

lemma pipe_room_lock [simp]: "pipe_room (d\<lparr>sp_lock := b\<rparr>) = pipe_room d" "pipe_room (p_unlock d) = pipe_room d"
  by (simp_all add: pipe_room_def) (simp add: p_unlock_def)

lemma spacefree_room:
  assumes "pipe_wf d"
  shows "spacefree d = Done (int (pipe_room d))"
    and "length (pipe_contents d) < nat (sp_buffersize d)"
proof -
  from assms obtain a m r w e where p: "sp_buffersize d = int e"
    "sp_rp d = int r" "sp_wp d = int w" "r < e" "w < e" "e \<le> length m" "int e < 2 ^ 31"
    "pipe_contents d = (if r \<le> w then take (w - r) (drop r m) else take (e - r) (drop r m) @ take w m)"
    by (rule pipe_wfE)
  have len: "length (pipe_contents d) = (if r \<le> w then w - r else e - r + w)" using p by simp
  have "c_mod 64 (int r + int e - int w) (int e) = Done ((int r + int e - int w) mod int e)"
    using p by (intro c_mod_nonneg) auto
  moreover have "(int r + int e - int w) mod int e = (if w \<le> r then int (r - w) else int (r + e - w))"
  proof (cases "w \<le> r")
    case True
    have "(int r + int e - int w) mod int e = (int (r - w) + int e) mod int e"
      using True by (simp add: algebra_simps)
    also have "\<dots> = int (r - w)" using p by simp
    finally show ?thesis using True by simp
  qed (use p in simp)
  ultimately show "spacefree d = Done (int (pipe_room d))"
    using p(1-7) by (auto simp: spacefree_def width_simps pipe_room_def len)
  show "length (pipe_contents d) < nat (sp_buffersize d)" using p len by auto
qed

text \<open>How many bytes a read or a write moves, in one contiguous piece.\<close>

definition p_read_len :: "scull_pipe \<Rightarrow> int \<Rightarrow> nat" where
  "p_read_len d count =
     nat (min count (if sp_wp d > sp_rp d then sp_wp d - sp_rp d else sp_end d - sp_rp d))"

definition p_write_len :: "scull_pipe \<Rightarrow> byte list \<Rightarrow> nat" where
  "p_write_len d buf =
     min (min (length buf) (pipe_room d))
       (nat (if sp_wp d \<ge> sp_rp d then sp_end d - sp_wp d else sp_rp d - sp_wp d - 1))"

lemma pipe_read_step:
  assumes wf: "pipe_wf d" and ne: "sp_rp d \<noteq> sp_wp d" and c: "0 \<le> count"
  defines "n \<equiv> p_read_len d count"
  defines "d' \<equiv> p_unlock (d\<lparr>sp_rp := if sp_rp d + int n = sp_end d then 0 else sp_rp d + int n\<rparr>)"
  shows "pipe_wf d'" "pipe_contents d = take n (pipe_contents d) @ pipe_contents d'"
    "n \<le> length (pipe_contents d)" "int n \<le> count" "0 < count \<Longrightarrow> 0 < n"
    "take n (drop (nat (sp_rp d)) (p_bytes d)) = take n (pipe_contents d)" "sp_rp d + int n \<le> sp_end d"
proof -
  from wf obtain a m r w e where b: "sp_buffer d = Some (a, m)" "sp_end d = int e" "sp_buffersize d = int e"
    "sp_rp d = int r" "sp_wp d = int w" and p: "r < e" "w < e" "e \<le> length m" "int e < 2 ^ 31"
    and cont: "pipe_contents d = (if r \<le> w then take (w - r) (drop r m) else take (e - r) (drop r m) @ take w m)"
    by (rule pipe_wfE)
  have n: "r < w \<Longrightarrow> r + n \<le> w" "r + n \<le> e" using b p c by (auto simp: n_def p_read_len_def)
  show "int n \<le> count" "0 < count \<Longrightarrow> 0 < n" using b p c by (auto simp: n_def p_read_len_def)
  show "sp_rp d + int n \<le> sp_end d" using n b by simp
  let ?r = "if r + n = e then 0 else r + n"
  have d': "sp_buffer d' = Some (a, m)" "sp_end d' = int e" "sp_buffersize d' = int e"
    "sp_rp d' = int ?r" "sp_wp d' = int w" using b by (auto simp: d'_def p_unlock_def)
  note I = pipe_wfI [OF d' _ p(2-4)]
  show "pipe_wf d'" using n p by (intro I(1)) auto
  have rw: "r \<noteq> w" using ne b by simp
  show "n \<le> length (pipe_contents d)" using n p rw by (auto simp: cont)
  have "pipe_contents d' = drop n (pipe_contents d)"
    using n p rw I(2) by (auto simp: cont drop_take add.commute)
  then show "pipe_contents d = take n (pipe_contents d) @ pipe_contents d'" by simp
  show "take n (drop (nat (sp_rp d)) (p_bytes d)) = take n (pipe_contents d)"
    using n p rw by (auto simp: cont b p_bytes_def min_def)
qed

lemma p_read_data_run:
  assumes wf: "pipe_wf d" and ne: "sp_rp d \<noteq> sp_wp d" and c: "0 \<le> count" "count < 2 ^ 63"
  defines "n \<equiv> p_read_len d count"
  shows "p_read_data left d count =
    (if min left n \<noteq> 0 then Done (Returned (p_unlock d) (Inl EFAULT) (take (n - left) (pipe_contents d)) [])
     else Done (Returned (p_unlock (d\<lparr>sp_rp := if sp_rp d + int n = sp_end d then 0 else sp_rp d + int n\<rparr>))
       (Inr (int n)) (take n (pipe_contents d)) [WakeWriters]))"
proof -
  note s = pipe_read_step [OF wf ne c(1), folded n_def]
  from wf obtain a m r w e where b: "sp_buffer d = Some (a, m)" "sp_end d = int e"
    "sp_rp d = int r" "sp_wp d = int w" and p: "r < e" "w < e" "e \<le> length m" "int e < 2 ^ 31"
    by (rule pipe_wfE)
  have len: "(if sp_wp d > sp_rp d then min count (u64 (sp_wp d - sp_rp d))
       else min count (u64 (sp_end d - sp_rp d))) = int n"
    using b p c by (auto simp: n_def p_read_len_def width_simps)
  have "mem_read m (sp_rp d) (int n) = Done (take n (pipe_contents d))"
    using b p s(6,7) by (simp add: mem_read_def p_bytes_def)
  moreover have "length (take n (pipe_contents d)) = n" using s(3) by simp
  ultimately show ?thesis
    unfolding p_read_data_def b(1) option.case prod.case Let_def len
    by (auto simp: copy_to_user_def min_def)
qed

lemma pipe_write_step:
  assumes wf: "pipe_wf d" and buffer: "sp_buffer d = Some (a, m)"
    and m': "mem_write m (sp_wp d) bs = Done m'" and bs: "length bs = p_write_len d buf"
  defines "n \<equiv> p_write_len d buf"
  defines "d1 \<equiv> p_unlock (d\<lparr>sp_buffer := Some (a, m')\<rparr>)"
  defines "d2 \<equiv> d1\<lparr>sp_wp := if sp_wp d + int n = sp_end d then 0 else sp_wp d + int n\<rparr>"
  shows "pipe_wf d1" "pipe_contents d1 = pipe_contents d"
    "pipe_wf d2" "pipe_contents d2 = pipe_contents d @ bs"
proof -
  from wf buffer obtain r w e where b: "sp_buffer d = Some (a, m)" "sp_end d = int e" "sp_buffersize d = int e"
    "sp_rp d = int r" "sp_wp d = int w" and p: "r < e" "w < e" "e \<le> length m" "int e < 2 ^ 31"
    and cont: "pipe_contents d = (if r \<le> w then take (w - r) (drop r m) else take (e - r) (drop r m) @ take w m)"
    by (elim pipe_wfE) auto
  have room: "pipe_room d = e - 1 - (if r \<le> w then w - r else e - r + w)"
    using b p by (simp add: pipe_room_def cont)
  have "n = min (min (length buf) (pipe_room d)) (if r \<le> w then e - w else r - w - 1)"
    using b p(1,2) by (simp add: n_def p_write_len_def nat_diff_distrib')
  then have n: "w < r \<Longrightarrow> w + n < r" "w + n \<le> e" "r = 0 \<Longrightarrow> w + n < e"
    using p(1,2) by (auto simp: room min_def split: if_splits)
  have n4: "length bs = n" using bs by (simp add: n_def)
  have m2: "m' = take w m @ bs @ drop (w + n) m" "length m' = length m"
    using m' b length_mem_write [OF m'] n4 by (auto simp: mem_write_Done)
  have lw: "length (take w m) = w" using p by simp
  have lo: "take w m' = take w m" using lw by (simp add: m2(1))
  have hi: "w < r \<Longrightarrow> drop r m' = drop r m"
  proof -
    assume "w < r"
    then have "r - w - n + (w + n) = r" using n(1) by simp
    then show "drop r m' = drop r m" using n(1) n4 lw \<open>w < r\<close> by (simp add: m2(1) add.commute)
  qed
  have mid: "drop r m' = take (w - r) (drop r m) @ bs @ drop (w + n) m" if "r \<le> w"
    using that lw by (simp add: m2(1) drop_take)
  have mid2: "take (w + n - r) (drop r m') = take (w - r) (drop r m) @ bs"
    "take (w - r) (drop r m') = take (w - r) (drop r m)" if "r \<le> w"
    using that p(2,3) n4 by (simp_all add: mid)
  have top: "take (w + n) m' = take w m @ bs" using lw n4 by (simp add: m2(1))
  have d1: "sp_buffer d1 = Some (a, m')" "sp_end d1 = int e" "sp_buffersize d1 = int e"
    "sp_rp d1 = int r" "sp_wp d1 = int w" using b by (auto simp: d1_def p_unlock_def)
  note I1 = pipe_wfI [OF d1 p(1,2) _ p(4)]
  show "pipe_wf d1" using p m2 by (intro I1(1)) simp
  show "pipe_contents d1 = pipe_contents d" using I1(2) p m2(2) lo hi mid2 by (simp add: cont)
  let ?w = "if w + n = e then 0 else w + n"
  have d2: "sp_buffer d2 = Some (a, m')" "sp_end d2 = int e" "sp_buffersize d2 = int e"
    "sp_rp d2 = int r" "sp_wp d2 = int ?w" using b d1 by (auto simp: d2_def)
  note I2 = pipe_wfI [OF d2 p(1) _ _ p(4)]
  show "pipe_wf d2" using n p m2 by (intro I2(1)) auto
  show "pipe_contents d2 = pipe_contents d @ bs" 
  proof (cases "w + n = e")
    case True
    have "r \<le> w" using n(1) True p(1) by linarith
    moreover have "0 < r" using n(3) True by (cases r) auto
    ultimately have "0 < r" "r \<le> w" by simp_all
    then show ?thesis using I2(2) True p m2(2) mid2(1) by (simp add: cont)
  next
    case False
    then show ?thesis using I2(2) p m2(2) n hi mid2(1) top by (auto simp: cont)
  qed
qed

lemma p_write_data_run:
  fixes d buf
  assumes wf: "pipe_wf d"
  defines "n \<equiv> p_write_len d buf"
  obtains d1 where "pipe_wf d1" "pipe_contents d1 = pipe_contents d" "\<not> sp_lock d1" "sp_buffersize d1 = sp_buffersize d"
      "p_write_data left d buf = Done (Returned d1 (Inl EFAULT) [] [])" "min left n \<noteq> 0"
  | d2 where "pipe_wf d2" "pipe_contents d2 = pipe_contents d @ take n buf" "\<not> sp_lock d2" "sp_buffersize d2 = sp_buffersize d"
      "p_write_data left d buf = Done (Returned d2 (Inr (int n)) [] (WakeReaders # (if sp_async d \<noteq> [] then [SignalAsync] else [])))"
      "min left n = 0"
proof -
  from wf obtain a m r w e where b: "sp_buffer d = Some (a, m)" "sp_end d = int e" "sp_buffersize d = int e"
    "sp_rp d = int r" "sp_wp d = int w" and p: "r < e" "w < e" "e \<le> length m" "int e < 2 ^ 31"
    by (rule pipe_wfE)
  have "int (pipe_room d) < 2 ^ 31" using b p by (auto simp: pipe_room_def)
  then have len: "(if sp_wp d \<ge> sp_rp d then min (min (int (length buf)) (u64 (int (pipe_room d)))) (u64 (sp_end d - sp_wp d))
      else min (min (int (length buf)) (u64 (int (pipe_room d)))) (u64 (sp_rp d - sp_wp d - 1))) = int n"
    using b p by (auto simp: n_def p_write_len_def width_simps)
  define bs where "bs = snd (copy_from_user left (take n buf))"
  have n: "n \<le> length buf" "w + n \<le> e" using b p by (auto simp: n_def p_write_len_def)
  have l: "length bs = n" using n by (simp add: bs_def)
  obtain m' where m': "mem_write m (sp_wp d) bs = Done m'"
    using n p b l by (simp add: mem_write_def)
  note st = pipe_write_step [OF wf b(1) m' l [unfolded n_def], folded n_def]
  have cp: "copy_from_user left (take n buf) = (min left n, bs)"
    using n by (simp add: bs_def copy_from_user_def)
  have run: "p_write_data left d buf =
      (if min left n \<noteq> 0 then Done (Returned (p_unlock (d\<lparr>sp_buffer := Some (a, m')\<rparr>)) (Inl EFAULT) [] [])
       else Done (Returned ((p_unlock (d\<lparr>sp_buffer := Some (a, m')\<rparr>))
           \<lparr>sp_wp := if sp_wp d + int n = sp_end d then 0 else sp_wp d + int n\<rparr>) (Inr (int n)) []
         (WakeReaders # (if sp_async d \<noteq> [] then [SignalAsync] else []))))"
    unfolding p_write_data_def spacefree_room(1) [OF wf] kbind.simps Let_def len b(1) option.case prod.case nat_int cp m'
    by (simp add: p_unlock_def)
  show thesis
  proof (cases "min left n = 0")
    case True
    have "bs = take n buf" using True n by (auto simp: bs_def copy_from_user_def min_def split: if_splits)
    then show thesis using st(3,4) run True by (intro that(2)) (simp_all add: p_unlock_def)
  next
    case False
    then show thesis using st(1,2) run by (intro that(1)) (simp_all add: p_unlock_def)
  qed
qed


section \<open>Waiting keeps the promise about the mutex\<close>

lemma getwritespace_holds:
  assumes "pipe_wf d" and "sp_lock d" and "\<forall>d'. Resumed d' \<in> set ws \<longrightarrow> pipe_wf d'"
  shows "\<exists>w. scull_getwritespace nonblock ws d = Done w \<and>
    (case w of
       Holding d' \<Rightarrow> sp_lock d' \<and> pipe_wf d' \<and> 0 < pipe_room d'
     | GaveUp d' e \<Rightarrow> \<not> sp_lock d' \<and> pipe_wf d' \<and> pipe_room d' = 0 \<and> e = (if nonblock then EAGAIN else ERESTARTSYS)
     | Asleep d' \<Rightarrow> \<not> sp_lock d' \<and> pipe_wf d' \<and> pipe_room d' = 0 \<and> \<not> nonblock)"
  using assms
proof (induction nonblock ws d rule: scull_getwritespace.induct)
  case (1 nonblock ws d)
  have u: "\<not> sp_lock (p_unlock d)" by (simp add: p_unlock_def)
  note sf = spacefree_room(1) [OF 1(2)]
  show ?case
  proof (cases "pipe_room d = 0 \<and> \<not> nonblock")
    case True
    show ?thesis
    proof (cases ws)
      case Nil
      then show ?thesis using sf u True 1(2) by simp
    next
      case (Cons x xs)
      show ?thesis
      proof (cases x)
        case (Resumed d')
        have ih: "\<exists>w. scull_getwritespace nonblock xs (d'\<lparr>sp_lock := True\<rparr>) = Done w \<and>
          (case w of
             Holding d' \<Rightarrow> sp_lock d' \<and> pipe_wf d' \<and> 0 < pipe_room d'
           | GaveUp d' e \<Rightarrow> \<not> sp_lock d' \<and> pipe_wf d' \<and> pipe_room d' = 0 \<and> e = (if nonblock then EAGAIN else ERESTARTSYS)
           | Asleep d' \<Rightarrow> \<not> sp_lock d' \<and> pipe_wf d' \<and> pipe_room d' = 0 \<and> \<not> nonblock)"
          using True Cons Resumed 1(4) sf by (intro 1(1)) auto
        have "scull_getwritespace nonblock ws d = scull_getwritespace nonblock xs (d'\<lparr>sp_lock := True\<rparr>)"
          using True Cons Resumed sf by (subst scull_getwritespace.simps) simp
        then show ?thesis using ih by simp
      qed (use True Cons sf u 1(2) in simp_all)
    qed
  qed (use sf u 1(2,3) in auto)
qed


text \<open>A wait that resumes is the same as a call made at that moment.\<close>

lemma p_read_resumed:
  assumes "sp_rp d = sp_wp d"
  shows "scull_p_read left False False (Resumed d' # ws) d c = scull_p_read left False False ws d' c"
  using assms by (simp add: scull_p_read_def)

section \<open>The pipe is a queue\<close>

text \<open>A call on a pipe that has data, or room, and that is not interrupted.\<close>

lemma p_read_now:
  assumes "pipe_wf d" and "pipe_contents d \<noteq> []"
  shows "scull_p_read left False nonblock ws d c = p_read_data left (d\<lparr>sp_lock := True\<rparr>) c"
  using assms pipe_contents_empty by (simp add: scull_p_read_def)

lemma p_write_now:
  assumes "pipe_wf d" and "0 < pipe_room d"
  shows "scull_p_write left False nonblock ws d buf = p_write_data left (d\<lparr>sp_lock := True\<rparr>) buf"
  using assms spacefree_room(1) [of "d\<lparr>sp_lock := True\<rparr>"] by (simp add: scull_p_write_def)

text \<open>What a read that returns has done to the queue, and what a write has.\<close>

lemma scull_p_read_effect:
  assumes "pipe_wf d" and c: "0 \<le> c" "c < 2 ^ 63" and "\<not> sp_lock d"
    and "scull_p_read left intr nonblock [] d c = Done (Returned d' r bs nt)"
  shows "pipe_wf d' \<and> \<not> sp_lock d' \<and> sp_buffersize d' = sp_buffersize d \<and>
    (case r of
       Inr n \<Rightarrow> n = int (length bs) \<and> pipe_contents d = bs @ pipe_contents d' \<and> n \<le> c \<and>
         (0 < c \<longrightarrow> 0 < n) \<and> nt = [WakeWriters]
     | Inl e \<Rightarrow> pipe_contents d' = pipe_contents d \<and> nt = [] \<and> (e \<noteq> EFAULT \<longrightarrow> bs = []))"
proof (cases "intr \<or> pipe_contents d = []")
  case True
  with assms show ?thesis
    by (auto simp: scull_p_read_def pipe_contents_empty p_unlock_def split: if_splits)
next
  case False
  let ?d = "d\<lparr>sp_lock := True\<rparr>" and ?n = "p_read_len d c"
  have wf: "pipe_wf ?d" "sp_rp ?d \<noteq> sp_wp ?d" using assms(1) False pipe_contents_empty by auto
  have l: "p_read_len ?d c = ?n" by (simp add: p_read_len_def)
  note s = pipe_read_step [OF wf c(1), unfolded l]
  have run: "p_read_data left ?d c = Done (Returned d' r bs nt)"
    using assms(5) p_read_now [OF assms(1), of left nonblock "[]" c] False by simp
  note d = p_read_data_run [OF wf c, of left, unfolded l run]
  show ?thesis
  proof (cases "min left ?n = 0")
    case True
    with d s show ?thesis by (auto simp: p_unlock_def)
  next
    case fault: False
    with d assms(1) show ?thesis by (auto simp: p_unlock_def)
  qed
qed

lemma scull_p_write_effect:
  assumes "pipe_wf d" and "\<not> sp_lock d"
    and "scull_p_write left intr nonblock [] d buf = Done (Returned d' r bs nt)"
  shows "pipe_wf d' \<and> \<not> sp_lock d' \<and> sp_buffersize d' = sp_buffersize d \<and> bs = [] \<and>
    (case r of
       Inr n \<Rightarrow> 0 \<le> n \<and> n \<le> int (length buf) \<and> pipe_contents d' = pipe_contents d @ take (nat n) buf \<and>
         (buf \<noteq> [] \<longrightarrow> 0 < n) \<and> WakeReaders \<in> set nt
     | Inl e \<Rightarrow> pipe_contents d' = pipe_contents d \<and> nt = [])"
proof (cases "intr \<or> pipe_room d = 0")
  case True
  have "scull_getwritespace nonblock [] (d\<lparr>sp_lock := True\<rparr>) =
      Done (if nonblock then GaveUp (p_unlock (d\<lparr>sp_lock := True\<rparr>)) EAGAIN else Asleep (p_unlock (d\<lparr>sp_lock := True\<rparr>)))"
    if "pipe_room d = 0"
    using that spacefree_room(1) [of "d\<lparr>sp_lock := True\<rparr>"] assms(1) by simp
  with True assms show ?thesis
    by (auto simp: scull_p_write_def p_unlock_def split: if_splits)
next
  case False
  let ?d = "d\<lparr>sp_lock := True\<rparr>"
  have run: "p_write_data left ?d buf = Done (Returned d' r bs nt)"
    using assms(3) p_write_now [OF assms(1), of left nonblock "[]" buf] False by simp
  have wf: "pipe_wf ?d" using assms(1) by simp
  have pos: "0 < p_write_len ?d buf" if "buf \<noteq> []"
    using that False assms(1) by (elim pipe_wfE) (auto simp: p_write_len_def pipe_room_def)
  have le: "p_write_len ?d buf \<le> length buf" by (simp add: p_write_len_def)
  show ?thesis
    using p_write_data_run [OF wf, of left buf]
  proof cases
    case (1 d1)
    then show ?thesis using run by simp
  next
    case (2 d2)
    then show ?thesis using run pos le by auto
  qed
qed


text \<open>
  The pipe as its clients use it without blocking: a call that returns an error moves nothing. The
  kernel caps the length of one transfer (\<open>MAX_RW_COUNT\<close>).
\<close>

definition MAX_RW_COUNT :: int where
  "MAX_RW_COUNT = 2147479552"

definition pipe_get :: "scull_pipe \<Rightarrow> nat \<Rightarrow> scull_pipe \<times> byte list" where
  "pipe_get d n =
     (case scull_p_read 0 False True [] d (min (int n) MAX_RW_COUNT) of
        Done (Returned d' r bs nt) \<Rightarrow> (d', bs)
      | _ \<Rightarrow> (d, []))"

definition pipe_put :: "scull_pipe \<Rightarrow> byte list \<Rightarrow> scull_pipe \<times> nat" where
  "pipe_put d buf =
     (case scull_p_write 0 False True [] d buf of
        Done (Returned d' (Inr n) bs nt) \<Rightarrow> (d', nat n)
      | _ \<Rightarrow> (d, 0))"

definition pipe_idle :: "scull_pipe \<Rightarrow> bool" where
  "pipe_idle d \<longleftrightarrow> pipe_wf d \<and> \<not> sp_lock d"

lemma pipe_room_contents:
  assumes "pipe_wf d" and "pipe_wf d'" and "sp_buffersize d' = sp_buffersize d"
  shows "pipe_room d' + length (pipe_contents d') = pipe_room d + length (pipe_contents d)"
  using spacefree_room(2) [OF assms(1)] spacefree_room(2) [OF assms(2)] assms(3)
  by (simp add: pipe_room_def)

lemma pipe_get_front:
  assumes "pipe_idle d" and "pipe_get d n = (d', bs)"
  shows "pipe_idle d' \<and> pipe_contents d = bs @ pipe_contents d' \<and> length bs \<le> n \<and>
    pipe_room d' = pipe_room d + length bs \<and> (0 < n \<longrightarrow> pipe_contents d \<noteq> [] \<longrightarrow> bs \<noteq> [])"
proof (cases "pipe_contents d = []")
  case True
  then have "sp_rp d = sp_wp d" using assms(1) pipe_contents_empty by (simp add: pipe_idle_def)
  then have "d' = d" "bs = []" using assms by (auto simp: pipe_get_def scull_p_read_def p_unlock_def pipe_idle_def)
  then show ?thesis using assms(1) True by simp
next
  case False
  let ?c = "min (int n) MAX_RW_COUNT" and ?d = "d\<lparr>sp_lock := True\<rparr>"
  have c: "0 \<le> ?c" "?c < 2 ^ 63" "0 < n \<longrightarrow> 0 < ?c" by (auto simp: MAX_RW_COUNT_def)
  have i: "pipe_wf d" "\<not> sp_lock d" using assms(1) by (simp_all add: pipe_idle_def)
  have "pipe_wf ?d" "sp_rp ?d \<noteq> sp_wp ?d" using i False pipe_contents_empty by auto
  note run = p_read_data_run [OF this c(1,2), of 0]
  then obtain r nt where r: "scull_p_read 0 False True [] d ?c = Done (Returned d' (Inr r) bs nt)"
    using assms(2) False by (auto simp: pipe_get_def p_read_now [OF i(1)])
  from scull_p_read_effect [OF i(1) c(1,2) i(2) r] c(3) pipe_room_contents [OF i(1), of d'] show ?thesis
    by (auto simp: pipe_idle_def)
qed

lemma pipe_put_back:
  assumes "pipe_idle d" and "pipe_put d buf = (d', m)"
  shows "pipe_idle d' \<and> m \<le> length buf \<and> pipe_contents d' = pipe_contents d @ take m buf \<and>
    pipe_room d' + m = pipe_room d \<and> (buf \<noteq> [] \<longrightarrow> 0 < pipe_room d \<longrightarrow> 0 < m)"
proof (cases "\<exists>n bs nt. scull_p_write 0 False True [] d buf = Done (Returned d' (Inr n) bs nt)")
  case True
  then obtain n bs nt where r: "scull_p_write 0 False True [] d buf = Done (Returned d' (Inr n) bs nt)" by blast
  have i: "pipe_wf d" "\<not> sp_lock d" using assms(1) by (simp_all add: pipe_idle_def)
  note e = scull_p_write_effect [OF i r]
  have "m = nat n" using r assms(2) by (simp add: pipe_put_def)
  with e pipe_room_contents [OF i(1), of d'] show ?thesis by (auto simp: pipe_idle_def)
next
  case False
  have i: "pipe_wf d" using assms(1) by (simp add: pipe_idle_def)
  have "pipe_room d = 0"
  proof (rule ccontr)
    assume "pipe_room d \<noteq> 0"
    then have "scull_p_write 0 False True [] d buf = p_write_data 0 (d\<lparr>sp_lock := True\<rparr>) buf"
      using p_write_now [OF i] by simp
    moreover obtain d2 n nt where "p_write_data 0 (d\<lparr>sp_lock := True\<rparr>) buf = Done (Returned d2 (Inr n) [] nt)"
      using i by (auto intro: p_write_data_run [of "d\<lparr>sp_lock := True\<rparr>" 0 buf])
    ultimately show False using False assms(2) by (auto simp: pipe_put_def)
  qed
  moreover have "d' = d" "m = 0"
    using False assms(2) by (auto simp: pipe_put_def split: exec.splits p_result.splits sum.splits)
  ultimately show ?thesis using assms(1) by simp
qed

interpretation pipe: byte_fifo pipe_get pipe_put pipe_contents pipe_room pipe_idle
  using pipe_get_front pipe_put_back by unfold_locales blast+


section \<open>Properties\<close>

text \<open>
  C14. \<open>spacefree\<close> computes without a division error how many bytes fit behind the queued ones, with one
  place of the buffer kept empty, and \<open>scull_p_poll\<close> announces exactly the calls that would not
  answer \<open>EAGAIN\<close>: readable if bytes are queued, writable if there is room.
\<close>

theorem scull_p_poll_exact:
  assumes "pipe_wf d"
  shows "spacefree d = Done (sp_buffersize d - 1 - int (length (pipe_contents d))) \<and>
    (\<exists>mask. scull_p_poll d = Done mask \<and>
      (mask AND POLLIN \<noteq> 0 \<longleftrightarrow> (\<forall>d' bs nt. scull_p_read left False True [] d c \<noteq> Done (Returned d' (Inl EAGAIN) bs nt))) \<and>
      (mask AND POLLOUT \<noteq> 0 \<longleftrightarrow> (\<forall>d' bs nt. scull_p_write left False True [] d buf \<noteq> Done (Returned d' (Inl EAGAIN) bs nt))))"
proof -
  note sf = spacefree_room [OF assms]
  have mask: "scull_p_poll d = Done ((if sp_rp d \<noteq> sp_wp d then 65 else 0) OR (if pipe_room d \<noteq> 0 then 260 else 0))"
    by (simp add: scull_p_poll_def sf(1) POLLIN_def POLLRDNORM_def POLLOUT_def POLLWRNORM_def)
  have rd: "sp_rp d = sp_wp d \<longleftrightarrow>
      (\<exists>d' bs nt. scull_p_read left False True [] d c = Done (Returned d' (Inl EAGAIN) bs nt))"
    using assms
    by (auto simp: scull_p_read_def p_read_data_def Let_def exec_simps split: option.splits prod.splits if_splits)
  have wr: "pipe_room d = 0 \<longleftrightarrow>
      (\<exists>d' bs nt. scull_p_write left False True [] d buf = Done (Returned d' (Inl EAGAIN) bs nt))"
  proof (cases "pipe_room d = 0")
    case True
    then show ?thesis using spacefree_room(1) [of "d\<lparr>sp_lock := True\<rparr>"] assms by (simp add: scull_p_write_def)
  next
    case False
    then show ?thesis using p_write_now [OF assms]
      by (auto simp: p_write_data_def Let_def exec_simps split: option.splits prod.splits if_splits)
  qed
  show ?thesis using mask rd wr sf by (auto simp: pipe_room_def POLLIN_def POLLOUT_def of_nat_diff)
qed

text \<open>
  C13. The comment over \<open>scull_getwritespace\<close>: the caller holds the mutex; the function returns with the
  mutex held and room in the buffer, or with an error and the mutex released, or it sleeps with the mutex
  released. It sleeps only while there is no room. This holds through any number of awakenings.
\<close>

theorem scull_getwritespace_mutex:
  assumes "pipe_wf d" and "sp_lock d" and "\<forall>d'. Resumed d' \<in> set ws \<longrightarrow> pipe_wf d'"
  shows "\<exists>w. scull_getwritespace nonblock ws d = Done w \<and>
    (case w of
       Holding d' \<Rightarrow> sp_lock d' \<and> pipe_wf d' \<and> 0 < pipe_room d'
     | GaveUp d' e \<Rightarrow> \<not> sp_lock d' \<and> pipe_wf d' \<and> pipe_room d' = 0 \<and> e = (if nonblock then EAGAIN else ERESTARTSYS)
     | Asleep d' \<Rightarrow> \<not> sp_lock d' \<and> pipe_wf d' \<and> pipe_room d' = 0 \<and> \<not> nonblock)"
  using assms by (rule getwritespace_holds)

text \<open>
  C12. A producer and a consumer that take turns, with requests of any size on a pipe with a buffer of two
  bytes or more, transfer a buffer of any length: every byte arrives, in order, behind what was
  queued before, and the pipe is empty at the end.
\<close>

theorem scull_pipe_transfers:
  assumes "pipe_wf d" and "\<not> sp_lock d" and "2 \<le> sp_buffersize d" and "0 < n"
  shows "\<exists>d'. pump pipe_get pipe_put n (length (pipe_contents d) + length buf) d buf = (d', pipe_contents d @ buf) \<and>
    pipe_contents d' = []"
proof -
  have "0 < pipe_room d + length (pipe_contents d)"
    using spacefree_room(2) [OF assms(1)] assms(3) by (auto simp: pipe_room_def)
  then show ?thesis using pipe.pump_all [of d n buf] assms by (auto simp: pipe_idle_def)
qed

section \<open>Processes at work on a pipe\<close>

datatype pipe_event = PQuiet | PReset | PWrote "byte list" | PRead "byte list"

text \<open>
  One step is one call of one process, with any parameters; calls take place one at a time. A call that
  has to wait makes no step; when it resumes, it is the call made then (\<open>p_read_resumed\<close>). The label of a
  step says what was observed, and first whether the call was made within the limits: a read or a write
  finds the buffer that the open of its file has allocated, and an open finds the buffer size set to a
  positive number below \<open>2 ^ 31\<close>, and either no buffer or one that is large enough for this size. The code
  checks none of this.
\<close>

definition open_fits :: "scull_params \<Rightarrow> scull_pipe \<Rightarrow> bool" where
  "open_fits g d \<longleftrightarrow> 0 < scull_p_buffer g \<and> scull_p_buffer g < 2 ^ 31 \<and>
     (case sp_buffer d of None \<Rightarrow> True | Some (a, m) \<Rightarrow> scull_p_buffer g \<le> int (length m))"

inductive pipe_step :: "scull_pipe \<Rightarrow> bool \<times> pipe_event \<Rightarrow> scull_pipe \<Rightarrow> bool" where
  pipe_read: "0 \<le> c \<Longrightarrow> c < 2 ^ 63 \<Longrightarrow> scull_p_read left intr nonblock [] d c = Done (Returned d' r bs nt) \<Longrightarrow>
    pipe_step d (sp_buffer d \<noteq> None, case r of Inl e \<Rightarrow> PQuiet | Inr n \<Rightarrow> PRead bs) d'"
| pipe_write: "scull_p_write left intr nonblock [] d buf = Done (Returned d' r bs nt) \<Longrightarrow>
    pipe_step d (sp_buffer d \<noteq> None, case r of Inl e \<Rightarrow> PQuiet | Inr n \<Rightarrow> PWrote (take (nat n) buf)) d'"
| pipe_open: "kmalloc_sized km \<Longrightarrow> scull_p_open km g intr fm d = (d', r) \<Longrightarrow>
    pipe_step d (open_fits g d, case r of Inl e \<Rightarrow> PQuiet | Inr u \<Rightarrow> PReset) d'"
| pipe_release: "scull_p_release fah filp fm d = (d', r, freed) \<Longrightarrow>
    pipe_step d (True, if sp_buffer d' = None then PReset else PQuiet) d'"
| pipe_fasync: "scull_p_fasync fah fd filp mode d = (d', r) \<Longrightarrow> pipe_step d (True, PQuiet) d'"

inductive pipe_run :: "scull_pipe \<Rightarrow> (bool \<times> pipe_event) list \<Rightarrow> scull_pipe \<Rightarrow> bool" where
  prun_nil: "pipe_run d [] d"
| prun_snoc: "pipe_run d es d1 \<Longrightarrow> pipe_step d1 e d2 \<Longrightarrow> pipe_run d (es @ [e]) d2"

text \<open>The specification: a queue of bytes that can be emptied.\<close>

fun queue_step :: "pipe_event \<Rightarrow> byte list \<Rightarrow> byte list option" where
  "queue_step PQuiet q = Some q"
| "queue_step PReset q = Some []"
| "queue_step (PWrote bs) q = Some (q @ bs)"
| "queue_step (PRead bs) q = (if take (length bs) q = bs then Some (drop (length bs) q) else None)"

fun queue_run :: "pipe_event list \<Rightarrow> byte list \<Rightarrow> byte list option" where
  "queue_run [] q = Some q"
| "queue_run (e # es) q = Option.bind (queue_step e q) (queue_run es)"

lemma queue_run_snoc: "queue_run (es @ [e]) q = Option.bind (queue_run es q) (queue_step e)"
  by (induction es arbitrary: q) (auto simp: bind_eq_Some_conv split: Option.bind_split)


definition pipe_inv :: "scull_pipe \<Rightarrow> bool" where
  "pipe_inv d \<longleftrightarrow> \<not> sp_lock d \<and> (sp_buffer d = None \<or> pipe_wf d)"

lemma pipe_contents_closed: "sp_buffer d = None \<Longrightarrow> pipe_contents d = []"
  by (simp add: pipe_contents_def p_bytes_def Let_def)

lemma scull_p_open_effect:
  assumes "pipe_inv d" and "open_fits g d" and "kmalloc_sized km" and "scull_p_open km g intr fm d = (d', r)"
  shows "pipe_inv d' \<and> (case r of Inl e \<Rightarrow> pipe_contents d' = pipe_contents d | Inr u \<Rightarrow> pipe_contents d' = [] \<and> pipe_wf d')"
proof -
  have km: "km 0 (u64 (scull_p_buffer g)) = Some (a, m) \<Longrightarrow> int (length m) = scull_p_buffer g" for a m
    using assms(2,3) by (simp add: kmalloc_sized_def open_fits_def width_simps)
  show ?thesis
  proof (cases "sp_buffer d")
    case None
    with assms km show ?thesis
      by (auto simp: scull_p_open_def Let_def pipe_inv_def pipe_wf_def open_fits_def p_unlock_def pipe_contents_def
        p_bytes_def split: if_splits option.splits)
  next
    case (Some b)
    with assms(1,2,4) show ?thesis
      by (auto simp: scull_p_open_def Let_def pipe_inv_def pipe_wf_def open_fits_def p_unlock_def pipe_contents_def
        p_bytes_def split: if_splits)
  qed
qed

lemma pipe_fields_simps:
  "pipe_wf (d\<lparr>sp_async := q\<rparr>) = pipe_wf d" "pipe_contents (d\<lparr>sp_async := q\<rparr>) = pipe_contents d"
  "pipe_wf (d\<lparr>sp_nreaders := i\<rparr>) = pipe_wf d" "pipe_contents (d\<lparr>sp_nreaders := i\<rparr>) = pipe_contents d"
  "pipe_wf (d\<lparr>sp_nwriters := i\<rparr>) = pipe_wf d" "pipe_contents (d\<lparr>sp_nwriters := i\<rparr>) = pipe_contents d"
  by (simp_all add: pipe_wf_def pipe_contents_def p_bytes_def cong: option.case_cong)

lemma scull_p_release_effect:
  assumes "pipe_inv d" and "scull_p_release fah filp fm d = (d', r, freed)"
  shows "pipe_inv d' \<and> (sp_buffer d' = None \<or> pipe_contents d' = pipe_contents d)"
  using assms
  by (auto simp: scull_p_release_def scull_p_fasync_def Let_def pipe_inv_def pipe_fields_simps p_unlock_def
    split: prod.splits if_splits)

text \<open>One call is one step of the queue.\<close>

lemma pipe_step_refines:
  assumes "pipe_step d (True, e) d'" and "pipe_inv d"
  shows "pipe_inv d' \<and> queue_step e (pipe_contents d) = Some (pipe_contents d')"
  using assms
proof (cases rule: pipe_step.cases)
  case (pipe_read c left intr nonblock r bs nt)
  then have "pipe_wf d" "\<not> sp_lock d" using assms(2) by (auto simp: pipe_inv_def)
  from scull_p_read_effect [OF this(1) pipe_read(3,4) this(2) pipe_read(5)] pipe_read(2) show ?thesis
    by (auto simp: pipe_inv_def split: sum.splits)
next
  case (pipe_write left intr nonblock buf r bs nt)
  then have "pipe_wf d" "\<not> sp_lock d" using assms(2) by (auto simp: pipe_inv_def)
  from scull_p_write_effect [OF this pipe_write(3)] pipe_write(2) show ?thesis
    by (auto simp: pipe_inv_def split: sum.splits)
next
  case (pipe_open km g intr fm r)
  then have "open_fits g d" by simp
  with scull_p_open_effect [OF assms(2) this pipe_open(3,4)] pipe_open(2) show ?thesis by (auto split: sum.splits)
next
  case (pipe_release fah filp fm r freed)
  with scull_p_release_effect [OF assms(2) pipe_release(2)] pipe_contents_closed [of d'] show ?thesis by auto
next
  case (pipe_fasync fah fd filp mode r)
  with assms(2) show ?thesis
    by (auto simp: scull_p_fasync_def pipe_inv_def pipe_fields_simps split: prod.splits)
qed

text \<open>
  C7. However readers, writers, opens and closes follow each other, one call at a time, as long as reads
  and writes come through an open file, so that they find a buffer, and every open finds the buffer size
  between 1 and \<open>2 ^ 31 - 1\<close> and not larger than a buffer that exists, the pipe keeps its invariant and
  behaves as a queue: every read delivers the oldest bytes that were written and not yet delivered, each
  at most once and in order. Every successful open, and the last close, empties the queue: bytes that were
  pending then are lost. What happens when the size has grown is \<open>scull_p_open_grows\<close>.
\<close>

theorem scull_pipe_refines_queue:
  assumes "pipe_run d es d'" and "in_limits es" and "pipe_inv d"
  shows "pipe_inv d' \<and> queue_run (map snd es) (pipe_contents d) = Some (pipe_contents d')"
  using assms
proof (induction rule: pipe_run.induct)
  case (prun_snoc d es d1 e d2)
  then have "pipe_step d1 (True, snd e) d2" by (cases e) auto
  with prun_snoc show ?case using pipe_step_refines [of d1 "snd e" d2] by (simp add: queue_run_snoc)
qed simp

section \<open>A buffer that is too small\<close>

text \<open>
  \<open>scull_p_open\<close> takes the size of the buffer from the parameter also when the buffer exists already.
  If the parameter has grown since (any process may set it by \<open>SCULL_P_IOCTSIZE\<close>), a write runs past the end
  of the allocated block.
\<close>

theorem scull_p_open_grows:
  assumes "pipe_wf d" and "sp_buffer d = Some (a, m)" and "int (length m) < scull_p_buffer g" "scull_p_buffer g < 2 ^ 31"
    and "scull_p_open km g False fm d = (d', r)" and "length m < length buf" and "int (length buf) < scull_p_buffer g"
  shows "scull_p_write 0 False nonblock ws d' buf = Oops OutOfBounds"
proof -
  have d': "sp_buffer d' = Some (a, m)" "sp_rp d' = 0" "sp_wp d' = 0" "sp_buffersize d' = scull_p_buffer g"
    "sp_end d' = scull_p_buffer g"
    using assms(2,5) by (auto simp: scull_p_open_def Let_def p_unlock_def)
  have s: "s32 (scull_p_buffer g - 1) = scull_p_buffer g - 1" "u64 (scull_p_buffer g - 1) = scull_p_buffer g - 1"
    "u64 (scull_p_buffer g) = scull_p_buffer g" "scull_p_buffer g - 1 \<noteq> 0"
    using assms(3,4,6,7) by (auto simp: width_simps)
  then show ?thesis
    using assms(6,7)
    by (simp add: scull_p_write_def p_write_data_def spacefree_def d' Let_def mem_write_def)
qed

section \<open>Witnesses\<close>

text \<open>A pipe with a buffer of 4 bytes, of which the two around the end are in use, and one that is full.\<close>

definition pipe_ex :: scull_pipe where
  "pipe_ex = \<lparr>sp_buffer = Some (50, [2, 9, 9, 1]), sp_end = 4, sp_buffersize = 4, sp_rp = 3, sp_wp = 1,
     sp_nreaders = 1, sp_nwriters = 1, sp_async = [], sp_lock = False\<rparr>"

lemma pipe_ex_ok [simp]: "pipe_wf pipe_ex" "\<not> sp_lock pipe_ex" "pipe_inv pipe_ex" "sp_buffersize pipe_ex = 4"
  "pipe_contents pipe_ex = [1, 2]"
  by (simp_all add: pipe_ex_def pipe_wf_def pipe_inv_def pipe_contents_def p_bytes_def)

theorem scull_p_poll_exact_witness:
  "spacefree pipe_ex = Done 1 \<and> (\<exists>mask. scull_p_poll pipe_ex = Done mask)"
  using scull_p_poll_exact [of pipe_ex 0 1 "[]"] by auto

theorem scull_getwritespace_mutex_witness:
  "\<exists>w. scull_getwritespace False [Resumed pipe_ex] (pipe_ex\<lparr>sp_wp := 2, sp_lock := True\<rparr>) = Done w \<and>
     w = Holding (pipe_ex\<lparr>sp_lock := True\<rparr>)"
proof -
  have "pipe_wf (pipe_ex\<lparr>sp_wp := 2, sp_lock := True\<rparr>)" by (simp add: pipe_ex_def pipe_wf_def)
  from scull_getwritespace_mutex [OF this, of "[Resumed pipe_ex]" False] show ?thesis
    by (auto simp: spacefree_def pipe_ex_def c_mod_def signed_divide_int_def signed_modulo_int_def width_simps)
qed

theorem scull_pipe_transfers_witness:
  "\<exists>d'. pump pipe_get pipe_put 2 6 pipe_ex [3, 4, 5, 6] = (d', [1, 2, 3, 4, 5, 6]) \<and> pipe_contents d' = []"
  using scull_pipe_transfers [of pipe_ex 2 "[3, 4, 5, 6]"] by (simp del: pump.simps add: numeral_eq_Suc)

theorem scull_pipe_refines_queue_witness:
  "\<exists>d'. pipe_run pipe_ex [(True, PRead [1])] d' \<and> pipe_contents d' = [2]"
proof -
  obtain d' nt where r: "scull_p_read 0 False False [] pipe_ex 5 = Done (Returned d' (Inr 1) [1] nt)"
    by (simp add: scull_p_read_def p_read_data_def pipe_ex_def mem_read_def width_simps)
  have "sp_buffer pipe_ex \<noteq> None" by (simp add: pipe_ex_def)
  with pipe_read [OF _ _ r] have "pipe_step pipe_ex (True, PRead [1]) d'" by simp
  then have run: "pipe_run pipe_ex [(True, PRead [1])] d'" using prun_snoc [OF prun_nil] by fastforce
  from scull_pipe_refines_queue [OF run] have "pipe_contents d' = [2]" by simp
  then show ?thesis using run by blast
qed

theorem scull_p_open_grows_witness:
  "\<exists>d' r. scull_p_open (\<lambda>k n. None) \<lparr>scull_quantum = 1, scull_qset_p = 1, scull_p_buffer = 16\<rparr> False
      \<lparr>fm_read = True, fm_write = False\<rparr> pipe_ex = (d', r) \<and>
    scull_p_write 0 False False [] d' [1, 2, 3, 4, 5, 6] = Oops OutOfBounds"
proof -
  obtain d' r where o: "scull_p_open (\<lambda>k n. None) \<lparr>scull_quantum = 1, scull_qset_p = 1, scull_p_buffer = 16\<rparr> False
      \<lparr>fm_read = True, fm_write = False\<rparr> pipe_ex = (d', r)" by (metis surj_pair)
  have "sp_buffer pipe_ex = Some (50, [2, 9, 9, 1])" by (simp add: pipe_ex_def)
  from scull_p_open_grows [OF _ this _ _ o] have "scull_p_write 0 False False [] d' [1, 2, 3, 4, 5, 6] = Oops OutOfBounds"
    by simp
  with o show ?thesis by blast
qed

end
