(* ===== verification/Byte_Store.thy ===== *)
theory Byte_Store
  imports Kernel_Base
begin

text \<open>
  The contract of a seekable character device, and what a program can do with it. \<open>write_at\<close> and
  \<open>read_at\<close> are the device's \<open>write\<close> and \<open>read\<close> methods with memory at hand and no signal or fault
  interfering; each may transfer fewer bytes than it is asked to. \<open>byte_at\<close> and \<open>end_of\<close> are the
  abstract contents: a partial map from positions to bytes, and the size. \<open>ready\<close> is the invariant of a
  device together with the bounds on the position.

  The clients \<open>write_all\<close> and \<open>read_all\<close> are the loops every program runs around \<open>write(2)\<close> and \<open>read(2)\<close>.
  In the locale they are shown to store and to return whole buffers.
\<close>

type_synonym 'd read_op = "'d \<Rightarrow> int \<Rightarrow> int \<Rightarrow> ('d \<times> int \<times> int ret \<times> byte list) exec"
type_synonym 'd write_op = "'d \<Rightarrow> byte list \<Rightarrow> int \<Rightarrow> ('d \<times> int \<times> int ret) exec"

text \<open>Both loops are bounded by a number of calls; \<open>None\<close> is an error or a call too many.\<close>

fun write_all :: "'d write_op \<Rightarrow> nat \<Rightarrow> 'd \<Rightarrow> byte list \<Rightarrow> int \<Rightarrow> ('d \<times> int) option" where
  "write_all w 0 d buf f = (if buf = [] then Some (d, f) else None)"
| "write_all w (Suc k) d buf f =
     (if buf = [] then Some (d, f)
      else (case w d buf f of
              Done (d', f', Inr n) \<Rightarrow> write_all w k d' (drop (nat n) buf) f'
            | _ \<Rightarrow> None))"

fun read_all :: "'d read_op \<Rightarrow> nat \<Rightarrow> 'd \<Rightarrow> int \<Rightarrow> int \<Rightarrow> byte list option" where
  "read_all r 0 d c f = (if c = 0 then Some [] else None)"
| "read_all r (Suc k) d c f =
     (if c = 0 then Some []
      else (case r d c f of
              Done (d', f', Inr n, bs) \<Rightarrow>
                if n = 0 then Some [] else map_option (\<lambda>rest. bs @ rest) (read_all r k d' (c - n) f')
            | _ \<Rightarrow> None))"

locale byte_store =
  fixes read_at :: "'d read_op"
    and write_at :: "'d write_op"
    and byte_at :: "'d \<Rightarrow> int \<Rightarrow> byte option"
    and end_of :: "'d \<Rightarrow> int"
    and ready :: "'d \<Rightarrow> int \<Rightarrow> bool"
  assumes write_stores: "ready d f \<Longrightarrow> \<exists>d' n. write_at d buf f = Done (d', f + int n, Inr (int n)) \<and>
      n \<le> length buf \<and> (buf \<noteq> [] \<longrightarrow> 0 < n) \<and> end_of d' = max (end_of d) (f + int n) \<and>
      (\<forall>i<n. byte_at d' (f + int i) = Some (buf ! i)) \<and>
      (\<forall>p b. byte_at d p = Some b \<longrightarrow> (p < f \<or> f + int n \<le> p) \<longrightarrow> byte_at d' p = Some b) \<and>
      (\<forall>g. ready d g \<longrightarrow> ready d' g)"
    and read_fetches: "ready d f \<Longrightarrow> 0 \<le> c \<Longrightarrow> c < 2 ^ 63 \<Longrightarrow>
      \<exists>d' bs. read_at d c f = Done (d', f + int (length bs), Inr (int (length bs)), bs) \<and>
      int (length bs) \<le> c \<and> (\<forall>i<length bs. byte_at d (f + int i) = Some (bs ! i)) \<and>
      (0 < c \<longrightarrow> f < end_of d \<longrightarrow> byte_at d f \<noteq> None \<longrightarrow> bs \<noteq> []) \<and>
      (\<forall>p. byte_at d' p = byte_at d p) \<and> end_of d' = end_of d \<and> (\<forall>g. ready d g \<longrightarrow> ready d' g)"
begin

text \<open>The bytes of \<open>d\<close> from \<open>f\<close> on are \<open>bs\<close>.\<close>

definition holds :: "'d \<Rightarrow> int \<Rightarrow> byte list \<Rightarrow> bool" where
  "holds d f bs \<longleftrightarrow> (\<forall>i<length bs. byte_at d (f + int i) = Some (bs ! i))"

lemma holds_append:
  "holds d f (as @ bs) \<longleftrightarrow> holds d f as \<and> holds d (f + int (length as)) bs"
proof -
  have "(\<forall>i<length as + length bs. P i) \<longleftrightarrow>
      (\<forall>i<length as. P i) \<and> (\<forall>i<length bs. P (length as + i))" for P
    by (auto simp: add.commute) (metis add.commute le_add_diff_inverse less_diff_conv2 not_le)
  then show ?thesis by (simp add: holds_def nth_append algebra_simps)
qed

lemma write_all_stores:
  assumes "\<And>g. f \<le> g \<Longrightarrow> g \<le> f + int (length buf) \<Longrightarrow> ready d g" and "length buf \<le> k"
  shows "\<exists>d'. write_all write_at k d buf f = Some (d', f + int (length buf)) \<and>
    holds d' f buf \<and> end_of d' = max (end_of d) (if buf = [] then end_of d else f + int (length buf)) \<and>
    (\<forall>p b. byte_at d p = Some b \<longrightarrow> p < f \<longrightarrow> byte_at d' p = Some b) \<and>
    (\<forall>g. ready d g \<longrightarrow> ready d' g)"
  using assms
proof (induction k arbitrary: d buf f)
  case 0
  then show ?case by (simp add: holds_def)
next
  case (Suc k)
  show ?case
  proof (cases "buf = []")
    case True
    then show ?thesis by (simp add: holds_def)
  next
    case False
    have "ready d f" using Suc.prems(1) by simp
    from write_stores [OF this, of buf] False obtain d1 n where
      w: "write_at d buf f = Done (d1, f + int n, Inr (int n))" and n: "n \<le> length buf" "0 < n"
      and e: "end_of d1 = max (end_of d) (f + int n)"
      and st: "holds d1 f (take n buf)"
      and keep: "\<forall>p b. byte_at d p = Some b \<longrightarrow> (p < f \<or> f + int n \<le> p) \<longrightarrow> byte_at d1 p = Some b"
      and rd: "\<forall>g. ready d g \<longrightarrow> ready d1 g"
      by (auto simp: holds_def)
    define b2 where "b2 = drop n buf"
    have len: "f + int n + int (length b2) = f + int (length buf)" using n by (simp add: b2_def)
    have rdy: "ready d1 g" if "f + int n \<le> g" "g \<le> f + int n + int (length b2)" for g
    proof -
      have "ready d g" using that len by (intro Suc.prems(1)) linarith+
      then show ?thesis using rd by blast
    qed
    have k: "length b2 \<le> k" using Suc.prems(2) n by (simp add: b2_def)
    from Suc.IH [OF rdy k] obtain d' where
      r: "write_all write_at k d1 b2 (f + int n) = Some (d', f + int n + int (length b2))"
      and h: "holds d' (f + int n) b2"
      and e': "end_of d' = max (end_of d1) (if b2 = [] then end_of d1 else f + int n + int (length b2))"
      and k': "\<forall>p b. byte_at d1 p = Some b \<longrightarrow> p < f + int n \<longrightarrow> byte_at d' p = Some b"
      and rd': "\<forall>g. ready d1 g \<longrightarrow> ready d' g" by blast
    have "holds d' f (take n buf)" using st k' n by (auto simp: holds_def)
    then have "holds d' f buf"
      using h holds_append [of d' f "take n buf" b2] n by (simp add: b2_def)
    moreover have "write_all write_at (Suc k) d buf f = Some (d', f + int (length buf))"
      using False w r len by (simp add: b2_def)
    moreover have "end_of d' = max (end_of d) (f + int (length buf))"
      using e e' len by auto
    moreover have "\<forall>p b. byte_at d p = Some b \<longrightarrow> p < f \<longrightarrow> byte_at d' p = Some b"
      using keep k' n by simp
    moreover have "\<forall>g. ready d g \<longrightarrow> ready d' g" using rd rd' by blast
    ultimately show ?thesis using False by (intro exI [of _ d']) simp
  qed
qed

lemma read_all_fetches:
  assumes "\<And>g. f \<le> g \<Longrightarrow> g \<le> f + int (length bs) \<Longrightarrow> ready d g" and "length bs \<le> k"
    and "holds d f bs" and "f + int (length bs) \<le> end_of d" and "int (length bs) < 2 ^ 63"
  shows "read_all read_at k d (int (length bs)) f = Some bs"
  using assms
proof (induction k arbitrary: d bs f)
  case (Suc k)
  show ?case
  proof (cases "bs = []")
    case False
    then have b0: "byte_at d f \<noteq> None" "f < end_of d" "0 < int (length bs)"
      using Suc.prems(3,4) by (cases bs; force simp: holds_def)+
    have "ready d f" using Suc.prems(1) by simp
    from read_fetches [OF this, of "int (length bs)"] Suc.prems(5) b0 obtain d1 cs where
      r: "read_at d (int (length bs)) f = Done (d1, f + int (length cs), Inr (int (length cs)), cs)"
      and cs: "length cs \<le> length bs" "cs \<noteq> []" "holds d f cs"
      and same: "\<forall>p. byte_at d1 p = byte_at d p" "end_of d1 = end_of d" "\<forall>g. ready d g \<longrightarrow> ready d1 g"
      by (auto simp: holds_def)
    have "cs = take (length cs) bs"
      using cs(1,3) Suc.prems(3) by (intro nth_equalityI) (auto simp: holds_def)
    then obtain ds where ds: "bs = cs @ ds" by (metis append_take_drop_id)
    have h: "holds d1 (f + int (length cs)) ds"
      using Suc.prems(3) ds holds_append [of d f cs ds] same by (simp add: holds_def)
    have "0 < length cs" "length bs = length cs + length ds" using cs(2) ds by simp_all
    then have k: "length ds \<le> k" using Suc.prems(2) by linarith
    have "read_all read_at k d1 (int (length ds)) (f + int (length cs)) = Some ds"
      using Suc.prems ds k h same by (intro Suc.IH) auto
    moreover have "int (length cs) + int (length ds) \<noteq> 0" using \<open>0 < length cs\<close> by linarith
    ultimately show ?thesis using r ds cs(2) by simp
  qed simp
qed simp

text \<open>Whatever buffer the loop writes, the loop reads back.\<close>

theorem write_all_read_all:
  assumes "\<And>g. f \<le> g \<Longrightarrow> g \<le> f + int (length buf) \<Longrightarrow> ready d g" and "int (length buf) < 2 ^ 63"
  shows "\<exists>d'. write_all write_at (length buf) d buf f = Some (d', f + int (length buf)) \<and>
    read_all read_at (length buf) d' (int (length buf)) f = Some buf"
proof -
  from write_all_stores [OF assms(1) order_refl] obtain d' where
    w: "write_all write_at (length buf) d buf f = Some (d', f + int (length buf))" and
    h: "holds d' f buf" and
    e: "end_of d' = max (end_of d) (if buf = [] then end_of d else f + int (length buf))" and
    rd: "\<forall>g. ready d g \<longrightarrow> ready d' g" by blast
  have "read_all read_at (length buf) d' (int (length buf)) f = Some buf"
  proof (cases "buf = []")
    case False
    with h e rd assms show ?thesis by (intro read_all_fetches) auto
  qed simp
  with w show ?thesis by blast
qed

end

end
