(* ===== verification/Scull_Store.thy ===== *)
theory Scull_Store
  imports Scull_Data Byte_Store
begin

text \<open>
  The bare scull device as a byte store. \<open>scull_byte\<close> is the abstract contents of a device, a partial map
  from file positions to bytes. \<open>scull_write\<close> and \<open>scull_read\<close> are shown to be a partial update and a
  partial lookup of that map on every branch; with an allocator that serves every request they meet the
  contract \<open>byte_store\<close>, from which the round trip of the client loops follows. The theory ends with
  what \<open>scull_trim\<close> frees.
\<close>

section \<open>Bytes of a device\<close>

definition scull_byte :: "scull_dev \<Rightarrow> int \<Rightarrow> byte option" where
  "scull_byte d p =
     (if p < 0 then None
      else map_option (\<lambda>m. m ! nat (p mod sd_quantum d)) (scull_block d (nat (p div sd_quantum d))))"

lemma quantum_offset:
  assumes "0 < (q::int)" and "0 \<le> i" and "f mod q + i < q"
  shows "(f + i) div q = f div q" and "(f + i) mod q = f mod q + i"
proof -
  have r: "f + i = q * (f div q) + (f mod q + i)" by (simp add: algebra_simps)
  have "0 \<le> f mod q + i" using assms by simp
  then show "(f + i) div q = f div q" "(f + i) mod q = f mod q + i"
    using int_div_pos_eq [OF r] int_mod_pos_eq [OF r] assms(3) by simp_all
qed

lemma scull_byte_same_view: "same_view d d' \<Longrightarrow> scull_byte d' p = scull_byte d p"
  by (simp add: scull_byte_def same_view_def)

text \<open>The effect on the bytes of replacing the contents of the quantum at \<open>f\<close> by a copy at \<open>f\<close>.\<close>

lemma scull_byte_copy:
  assumes wf: "scull_wf d" and f: "0 \<le> f" and q: "sd_quantum d' = sd_quantum d"
    and blk: "scull_block d' = (scull_block d)(nat (f div sd_quantum d) \<mapsto> m')"
    and old: "quantum_before d f m" and m': "mem_write m (f mod sd_quantum d) bs = Done m'"
  shows "i < length bs \<Longrightarrow> scull_byte d' (f + int i) = Some (bs ! i)"
    and "scull_byte d p = Some b \<Longrightarrow> p < f \<or> f + int (length bs) \<le> p \<Longrightarrow> scull_byte d' p = Some b"
proof -
  let ?q = "sd_quantum d"
  define o0 where "o0 = f mod ?q"
  have q0: "0 < ?q" using scull_wfD [OF wf] by simp
  have o0: "0 \<le> o0" "o0 + int (length bs) \<le> ?q" "int (length m) = ?q"
    using m' old by (auto simp: mem_write_Done o0_def quantum_before_def)
  have f0: "f = ?q * (f div ?q) + o0" by (simp add: o0_def)
  show "scull_byte d' (f + int i) = Some (bs ! i)" if i: "i < length bs"
  proof -
    have r: "0 \<le> o0 + int i" "o0 + int i < ?q" using i o0 by linarith+
    have "(f + int i) div ?q = f div ?q" "(f + int i) mod ?q = o0 + int i"
      using quantum_offset [OF q0, of "int i" f] r by (simp_all add: o0_def)
    moreover have "m' ! nat (o0 + int i) = bs ! i"
      using mem_write_nth [OF m', of "nat (o0 + int i)"] r o0 i
      by (auto simp: o0_def [symmetric] nat_add_distrib)
    ultimately show ?thesis using f blk q by (simp add: scull_byte_def)
  qed
  show "scull_byte d' p = Some b" if b: "scull_byte d p = Some b" and out: "p < f \<or> f + int (length bs) \<le> p"
  proof (cases "nat (p div ?q) = nat (f div ?q)")
    case False
    then show ?thesis using b blk q by (simp add: scull_byte_def split: if_splits)
  next
    case True
    have p: "0 \<le> p" using b by (simp add: scull_byte_def split: if_splits)
    then have eq: "p div ?q = f div ?q"
      using True f q0 by (simp add: nat_eq_iff2 pos_imp_zdiv_nonneg_iff)
    have "p = ?q * (f div ?q) + p mod ?q" using eq by (metis mult_div_mod_eq)
    then have out': "p mod ?q < o0 \<or> o0 + int (length bs) \<le> p mod ?q" using out f0 by linarith
    have r: "0 \<le> p mod ?q" "p mod ?q < ?q" using q0 by simp_all
    from b eq p obtain m0 where "scull_block d (nat (f div ?q)) = Some m0" "m0 ! nat (p mod ?q) = b"
      by (auto simp: scull_byte_def)
    then have "m ! nat (p mod ?q) = b" using old by (simp add: quantum_before_def)
    moreover have "m' ! nat (p mod ?q) = m ! nat (p mod ?q)"
    proof -
      have "\<not> (nat o0 \<le> nat (p mod ?q) \<and> nat (p mod ?q) < nat o0 + length bs)" "nat (p mod ?q) < length m"
        using out' r o0 by linarith+
      then show ?thesis using mem_write_nth [OF m', of "nat (p mod ?q)"] by (auto simp: o0_def)
    qed
    ultimately show ?thesis using p q blk eq by (simp add: scull_byte_def)
  qed
qed

lemma pos_ok_mono:
  assumes "scull_wf d" and "pos_ok d g" and "0 \<le> f" and "f \<le> g"
  shows "pos_ok d f"
  using assms scull_wfD [OF assms(1)] zdiv_mono1 [OF assms(4), of "sd_quantum d * sd_qset d"]
  by (auto simp: pos_ok_def)

lemma write_len_bounds:
  assumes "scull_wf d"
  shows "0 \<le> write_len d buf f" "write_len d buf f \<le> int (length buf)"
    "write_len d buf f \<le> sd_quantum d" "buf \<noteq> [] \<Longrightarrow> 0 < write_len d buf f"
proof -
  have "0 \<le> f mod sd_quantum d" "f mod sd_quantum d < sd_quantum d"
    using scull_wfD [OF assms] by simp_all
  then show "0 \<le> write_len d buf f" "write_len d buf f \<le> int (length buf)"
    "write_len d buf f \<le> sd_quantum d" "buf \<noteq> [] \<Longrightarrow> 0 < write_len d buf f"
    by (auto simp: write_len_def)
qed

section \<open>What a read returns\<close>

text \<open>The bytes that a read finds in a quantum are the contents of the device from the position on.\<close>

lemma read_source_bytes:
  fixes d count f
  assumes wf: "scull_wf d" and pos: "pos_ok d f" and c: "0 \<le> count" and m: "read_source d f = Some m"
  defines "n \<equiv> read_len d count f"
  defines "bs \<equiv> take (nat n) (drop (nat (f mod sd_quantum d)) m)"
  shows "f < sd_size d" "scull_byte d f \<noteq> None" "0 \<le> n" "0 < n \<longleftrightarrow> 0 < count" "length bs = nat n"
    and "i < nat n \<Longrightarrow> scull_byte d (f + int i) = Some (bs ! i)"
proof -
  let ?q = "sd_quantum d"
  note p = pos_okD [OF wf pos]
  have src: "f < sd_size d" "scull_block d (nat (f div ?q)) = Some m"
    using m by (auto simp: read_source_def split: if_splits)
  show "f < sd_size d" by (rule src)
  show "scull_byte d f \<noteq> None" using src p(1) by (simp add: scull_byte_def)
  have n: "0 \<le> n" "f mod ?q + n \<le> ?q" "0 < n \<longleftrightarrow> 0 < count"
    using c src(1) p by (auto simp: n_def read_len_def)
  then show "0 \<le> n" "0 < n \<longleftrightarrow> 0 < count" by simp_all
  have lm: "int (length m) = ?q" using scull_block_length [OF wf src(2)] .
  show "length bs = nat n" using n lm p by (auto simp: bs_def)
  assume that: "i < nat n"
  have i: "0 \<le> int i" "f mod ?q + int i < ?q" using that n by linarith+
  note off = quantum_offset [OF scull_wfD(1) [OF wf] i]
  have "bs ! i = m ! nat (f mod ?q + int i)"
    using that lm i p by (simp add: bs_def nat_add_distrib)
  then show "scull_byte d (f + int i) = Some (bs ! i)" using off src p(1) by (simp add: scull_byte_def)
qed

lemma scull_read_effect:
  assumes "scull_wf d" and "pos_ok d f" and "0 \<le> count" "count < 2 ^ 63"
  shows "\<exists>d' f' r bs. scull_read km intr left d count f = Done (d', f', r, bs) \<and>
    same_view d d' \<and> (if intr then d' = d else \<not> sd_lock d') \<and>
    (\<forall>i<length bs. scull_byte d (f + int i) = Some (bs ! i)) \<and>
    r = (if intr then Inl ERESTARTSYS
         else if f < sd_size d \<and> scull_byte d f \<noteq> None
         then (if 0 < left \<and> 0 < count then Inl EFAULT
               else Inr (min (min count (sd_size d - f)) (sd_quantum d - f mod sd_quantum d)))
         else Inr 0) \<and>
    (case r of Inl e \<Rightarrow> f' = f | Inr n \<Rightarrow> f' = f + n \<and> int (length bs) = n)"
proof (cases intr)
  case True
  then show ?thesis using assms by (simp add: scull_read_def scull_read_locked_def same_view_def)
next
  case False
  let ?q = "sd_quantum d" and ?n = "read_len d count f"
  note p = pos_okD [OF assms(1,2)]
  from assms(1-4) obtain d' where v: "same_view d d'" "\<not> sd_lock d'" and
    run: "scull_read km False left d count f =
       (case read_source d f of
          None \<Rightarrow> Done (d', f, Inr 0, [])
        | Some m \<Rightarrow>
            let bs = take (nat ?n) (drop (nat (f mod ?q)) m) in
            if min left (nat ?n) \<noteq> 0 then Done (d', f, Inl EFAULT, take (nat ?n - left) bs)
            else Done (d', f + ?n, Inr ?n, bs))"
    by (rule scull_read_run)
  show ?thesis
  proof (cases "read_source d f")
    case None
    then have "\<not> (f < sd_size d \<and> scull_byte d f \<noteq> None)"
      using p(1) by (auto simp: read_source_def scull_byte_def split: if_splits)
    then show ?thesis using None run v False by auto
  next
    case (Some m)
    define bs where "bs = take (nat ?n) (drop (nat (f mod ?q)) m)"
    note b = read_source_bytes [OF assms(1,2,3) Some, folded bs_def]
    show ?thesis
    proof (cases "min left (nat ?n) = 0")
      case True
      then have "scull_read km intr left d count f = Done (d', f + ?n, Inr ?n, bs)"
        using run Some False by (simp add: bs_def Let_def)
      moreover have "\<not> (0 < left \<and> 0 < count)" using True b(4) by auto
      ultimately show ?thesis
        using v False b unfolding read_len_def [symmetric] by auto
    next
      case fault: False
      then have "scull_read km intr left d count f = Done (d', f, Inl EFAULT, take (nat ?n - left) bs)"
        using run Some False by (simp add: bs_def Let_def)
      then show ?thesis using v fault False b by auto
    qed
  qed
qed

section \<open>The byte store\<close>

text \<open>An allocator that serves every request.\<close>

definition kmalloc_total :: "kmalloc \<Rightarrow> bool" where
  "kmalloc_total km \<longleftrightarrow> (\<forall>k n. km k n \<noteq> None)"

lemma follow_next_total:
  "kmalloc_total km \<Longrightarrow> chain \<noteq> [] \<Longrightarrow> snd (snd (follow_next km k chain n))"
  by (induction km k chain n rule: follow_next.induct)
    (auto simp: kmalloc_total_def split: option.splits prod.splits, metis snd_conv)

lemma scull_follow_total:
  assumes "kmalloc_total km" and "scull_follow km d n = (d', k, p)"
  shows "p \<noteq> None"
proof -
  have "snd (snd (follow_next km k' (q # qs) m))" for k' q qs m
    using follow_next_total [OF assms(1)] by simp
  moreover have "\<exists>a m. km 0 sizeof_scull_qset = Some (a, m)"
    using assms(1) by (fastforce simp: kmalloc_total_def)
  ultimately show ?thesis
    using assms(2)
    by (auto simp: scull_follow_def Let_def split: list.splits prod.splits if_splits)
      (metis snd_conv)+
qed

lemma write_copy_error:
  "write_copy left q buf f d n a arr s o0 b m = Done (d', f', Inl e) \<Longrightarrow> e = EFAULT"
  by (simp add: write_copy_def Let_def exec_simps split: prod.splits if_splits)

lemma scull_write_total:
  assumes "kmalloc_total km" and run: "scull_write km False left d buf f = Done (d', f', Inl e)"
  shows "e = EFAULT"
proof -
  have t: "\<exists>a m. km k n = Some (a, m)" for k n using assms(1) by (fastforce simp: kmalloc_total_def)
  from run obtain i s q where loc: "scull_locate (sd_quantum d) (sd_qset d) f = Done (i, s, q)"
    by (auto simp: scull_write_def scull_write_locked_def Let_def exec_simps)
  from scull_follow_total [OF assms(1)] obtain d1 k n where
    fol: "scull_follow km (d\<lparr>sd_lock := True\<rparr>) i = (d1, k, Some n)"
    by (metis option.exhaust prod_cases3)
  obtain d2 k2 a arr where arr: "write_array km k (sd_qset d) d1 n = Some (d2, k2, a, arr)"
    using t [of k "u64 (sd_qset d * 8)"]
    by (cases "qs_data (sd_data d1 ! n)") (auto simp: write_array_def Let_def)
  obtain b m where "write_quantum km k2 (sd_quantum d) (arr ! nat s) = Some (b, m)"
    using t [of k2 "u64 (sd_quantum d)"] by (cases "arr ! nat s") (auto simp: write_quantum_def)
  with run loc fol arr show ?thesis
    by (auto simp: scull_write_def scull_write_locked_def Let_def exec_simps intro: write_copy_error)
qed

lemma scull_write_stores:
  assumes "scull_wf d" and "pos_ok d f" and "kmalloc_sized km" and "kmalloc_total km"
  shows "\<exists>d' n. scull_write km False 0 d buf f = Done (d', f + int n, Inr (int n)) \<and>
      n \<le> length buf \<and> (buf \<noteq> [] \<longrightarrow> 0 < n) \<and> sd_size d' = max (sd_size d) (f + int n) \<and>
      (\<forall>i<n. scull_byte d' (f + int i) = Some (buf ! i)) \<and>
      (\<forall>p b. scull_byte d p = Some b \<longrightarrow> (p < f \<or> f + int n \<le> p) \<longrightarrow> scull_byte d' p = Some b) \<and>
      scull_wf d' \<and> sd_quantum d' = sd_quantum d \<and> sd_qset d' = sd_qset d"
  using assms(1-3)
proof (cases rule: scull_write_run [of d f km 0 buf])
  case (nomem d')
  then show ?thesis using scull_write_total [OF assms(4) nomem(1)] by simp
next
  case (copied d' m m')
  let ?n = "write_len d buf f"
  define d2 where "d2 = (if sd_size d < f + ?n then d'\<lparr>sd_size := f + ?n\<rparr> else d')"
  note n = write_len_bounds [OF assms(1), of buf f] and p = pos_okD [OF assms(1,2)]
  have wf2: "scull_wf d2" using copied(2) n p by (auto simp: d2_def scull_wf_def)
  have d2: "sd_quantum d2 = sd_quantum d" "sd_qset d2 = sd_qset d" "sd_size d2 = max (sd_size d) (f + ?n)"
    "scull_block d2 = (scull_block d)(nat (f div sd_quantum d) \<mapsto> m')"
    using copied by (auto simp: d2_def)
  note bytes = scull_byte_copy [OF assms(1) p(1) d2(1,4) copied(7,8)]
  have run: "scull_write km False 0 d buf f = Done (d2, f + ?n, Inr ?n)"
    using copied(1) by (simp add: d2_def)
  have "nat ?n \<le> length buf" "buf \<noteq> [] \<Longrightarrow> 0 < nat ?n" "int (nat ?n) = ?n" using n by auto
  with run wf2 d2 bytes show ?thesis by (intro exI [of _ d2] exI [of _ "nat ?n"]) auto
qed

lemma scull_read_fetches:
  assumes "scull_wf d" and "pos_ok d f" and "0 \<le> c" "c < 2 ^ 63"
  shows "\<exists>d' bs. scull_read km False 0 d c f = Done (d', f + int (length bs), Inr (int (length bs)), bs) \<and>
      int (length bs) \<le> c \<and> (\<forall>i<length bs. scull_byte d (f + int i) = Some (bs ! i)) \<and>
      (0 < c \<longrightarrow> f < sd_size d \<longrightarrow> scull_byte d f \<noteq> None \<longrightarrow> bs \<noteq> []) \<and> same_view d d'"
proof -
  obtain d' f' r bs where *: "scull_read km False 0 d c f = Done (d', f', r, bs)" "same_view d d'"
    "\<forall>i<length bs. scull_byte d (f + int i) = Some (bs ! i)"
    "r = (if f < sd_size d \<and> scull_byte d f \<noteq> None
          then Inr (min (min c (sd_size d - f)) (sd_quantum d - f mod sd_quantum d)) else Inr 0)"
    "case r of Inl e \<Rightarrow> f' = f | Inr n \<Rightarrow> f' = f + n \<and> int (length bs) = n"
    using scull_read_effect [OF assms, of km False 0]
    by (simp only: less_irrefl simp_thms if_False) blast
  have "f mod sd_quantum d < sd_quantum d" using scull_wfD(1) [OF assms(1)] by simp
  with * assms(3) show ?thesis
    by (intro exI [of _ d'] exI [of _ bs]) (auto split: if_splits)
qed

section \<open>What a write does\<close>

lemma scull_write_effect:
  assumes "scull_wf d" and "pos_ok d f" and "kmalloc_sized km"
    and "scull_write km intr left d buf f = Done (d', f', r)"
  shows "(case r of
      Inr n \<Rightarrow> n = write_len d buf f \<and> f' = f + n \<and> sd_size d' = max (sd_size d) (f + n) \<and>
        (\<forall>i<nat n. scull_byte d' (f + int i) = Some (buf ! i))
    | Inl e \<Rightarrow> f' = f \<and> sd_size d' = sd_size d \<and> (e \<noteq> EFAULT \<longrightarrow> scull_block d' = scull_block d)) \<and>
    (\<forall>p b. scull_byte d p = Some b \<longrightarrow> p < f \<or> f + write_len d buf f \<le> p \<longrightarrow> scull_byte d' p = Some b) \<and>
    scull_wf d' \<and> sd_quantum d' = sd_quantum d \<and> sd_qset d' = sd_qset d \<and> (if intr then d' = d else \<not> sd_lock d')"
proof (cases intr)
  case True
  then show ?thesis using assms by (auto simp: scull_write_def)
next
  case False
  note run = assms(4) [unfolded False [THEN eq_False [THEN iffD2]]]
  from assms(1-3) show ?thesis
  proof (cases rule: scull_write_run [of d f km left buf])
    case (nomem e)
    then show ?thesis using run False scull_byte_same_view [of d e] by (auto simp: same_view_def)
  next
    case (copied e m m')
    let ?n = "write_len d buf f"
    note n = write_len_bounds [OF assms(1), of buf f]
    have f: "0 \<le> f" using pos_okD [OF assms(1,2)] by simp
    have d': "sd_quantum d' = sd_quantum d" "scull_block d' = (scull_block d)(nat (f div sd_quantum d) \<mapsto> m')"
      using run copied by (auto split: if_splits)
    have "0 \<le> f + ?n" "f + ?n < 2 ^ 63" using pos_okD [OF assms(1,2)] n by linarith+
    then have inv: "scull_wf d'" "sd_qset d' = sd_qset d" "\<not> sd_lock d'"
      using run copied by (auto simp: scull_wf_def split: if_splits)
    have len: "length (snd (copy_from_user left (take (nat ?n) buf))) = nat ?n" using n by simp
    note bytes = scull_byte_copy [OF assms(1) f d' copied(7,8), unfolded len]
    show ?thesis
    proof (cases "min left (nat ?n) = 0")
      case True
      then have ok: "d' = (if sd_size d < f + ?n then e\<lparr>sd_size := f + ?n\<rparr> else e)" "f' = f + ?n" "r = Inr ?n"
        using run copied(1) by auto
      have "snd (copy_from_user left (take (nat ?n) buf)) = take (nat ?n) buf"
        using True n by (auto simp: copy_from_user_def min_def split: if_splits)
      then show ?thesis using ok bytes n copied(4) inv d'(1) False by auto
    next
      case fault: False
      then have "d' = e" "f' = f" "r = Inl EFAULT" using run copied(1) by auto
      then show ?thesis using bytes(2) n copied(4) inv d'(1) False by auto
    qed
  qed
qed


section \<open>Correctness of a write, branch by branch\<close>

text \<open>
  A write at a position in range, whatever the allocator, the signals and the user's memory do,
  returns without a fault, leaves the device well-formed, of the same geometry, and unlocked.
\<close>

lemma scull_write_safe:
  assumes "scull_wf d" and "pos_ok d f" and "kmalloc_sized km"
  shows "\<exists>d' f' r. scull_write km intr left d buf f = Done (d', f', r) \<and> scull_wf d' \<and>
    (if intr then d' = d else \<not> sd_lock d') \<and> sd_quantum d' = sd_quantum d \<and> sd_qset d' = sd_qset d"
proof (cases intr)
  case True
  then show ?thesis using assms by (simp add: scull_write_def scull_write_locked_def)
next
  case False
  from assms(1-3) show ?thesis
  proof (cases rule: scull_write_run [of d f km left buf])
    case (nomem d')
    then show ?thesis using False by (auto simp: same_view_def)
  next
    case (copied d' m m')
    have "f + write_len d buf f < 2 ^ 63" "0 \<le> f + write_len d buf f"
      using pos_okD [OF assms(1,2)] write_len_bounds [OF assms(1), of buf f] by linarith+
    then have "scull_wf (d'\<lparr>sd_size := f + write_len d buf f\<rparr>)"
      using copied(2) by (simp add: scull_wf_def)
    then show ?thesis using copied False by auto
  qed
qed

text \<open>
  C9. What a write does to the contents: on success it stores a prefix of the user's buffer at the
  position, as long as the quantum lasts, moves the position behind it and extends the size; every
  other stored byte stays. On an error the position and the size stay, and so does every stored byte
  outside of the range; unless the copy itself failed, the contents are not touched at all.
\<close>

theorem scull_write_contents:
  assumes "scull_wf d" and "pos_ok d f" and "kmalloc_sized km"
    and "scull_write km intr left d buf f = Done (d', f', r)"
  shows "(case r of
      Inr n \<Rightarrow> n = write_len d buf f \<and> f' = f + n \<and> sd_size d' = max (sd_size d) (f + n) \<and>
        (\<forall>i<nat n. scull_byte d' (f + int i) = Some (buf ! i))
    | Inl e \<Rightarrow> f' = f \<and> sd_size d' = sd_size d \<and> (e \<noteq> EFAULT \<longrightarrow> scull_block d' = scull_block d)) \<and>
    (\<forall>p b. scull_byte d p = Some b \<longrightarrow> p < f \<or> f + write_len d buf f \<le> p \<longrightarrow> scull_byte d' p = Some b)"
  using scull_write_effect [OF assms] by blast

text \<open>
  C10. What a read returns: at or behind the end and in a hole it returns 0 and no bytes. Otherwise
  it returns the stored bytes from the position on, up to the count, the size and the end of the
  quantum, and moves the position behind them. A failing copy to the user leaves the position. On no
  branch do the contents or the size change, and the device ends unlocked.
\<close>

theorem scull_read_contents:
  assumes "scull_wf d" and "pos_ok d f" and "0 \<le> count" "count < 2 ^ 63"
  shows "\<exists>d' f' r bs. scull_read km intr left d count f = Done (d', f', r, bs) \<and>
    same_view d d' \<and> (if intr then d' = d else \<not> sd_lock d') \<and>
    (\<forall>i<length bs. scull_byte d (f + int i) = Some (bs ! i)) \<and>
    r = (if intr then Inl ERESTARTSYS
         else if f < sd_size d \<and> scull_byte d f \<noteq> None
         then (if 0 < left \<and> 0 < count then Inl EFAULT
               else Inr (min (min count (sd_size d - f)) (sd_quantum d - f mod sd_quantum d)))
         else Inr 0) \<and>
    (case r of Inl e \<Rightarrow> f' = f | Inr n \<Rightarrow> f' = f + n \<and> int (length bs) = n)"
  using assms by (rule scull_read_effect)

text \<open>
  The device with an allocator that serves every request is a byte store, at every position that its
  geometry can address.
\<close>

definition scull_ready :: "kmalloc \<Rightarrow> scull_dev \<Rightarrow> int \<Rightarrow> bool" where
  "scull_ready km d f \<longleftrightarrow> scull_wf d \<and> pos_ok d f \<and> kmalloc_sized km \<and> kmalloc_total km"

interpretation scull: byte_store "scull_read km False 0" "scull_write km False 0" scull_byte sd_size
  "scull_ready km" for km
proof (unfold_locales, goal_cases)
  case (1 d f buf)
  then show ?case
    using scull_write_stores [of d f km buf] by (auto simp: scull_ready_def pos_ok_def)
next
  case (2 d f c)
  then have "scull_wf d" "pos_ok d f" by (simp_all add: scull_ready_def)
  from scull_read_fetches [OF this 2(2,3), of km] obtain d' bs where
    r: "scull_read km False 0 d c f = Done (d', f + int (length bs), Inr (int (length bs)), bs)"
      "int (length bs) \<le> c" "\<forall>i<length bs. scull_byte d (f + int i) = Some (bs ! i)"
      "0 < c \<longrightarrow> f < sd_size d \<longrightarrow> scull_byte d f \<noteq> None \<longrightarrow> bs \<noteq> []" and v: "same_view d d'"
    by blast
  have "\<forall>g. scull_ready km d g \<longrightarrow> scull_ready km d' g" "sd_size d' = sd_size d"
    using v by (auto simp: scull_ready_def same_view_def pos_ok_def)
  with r scull_byte_same_view [OF v] show ?case by blast
qed

text \<open>
  C5. Round trip: the loops that programs run around \<open>write\<close> and \<open>read\<close> terminate on the device, and
  what the first stores over any number of quanta and quantum sets, the second reads back.
\<close>

theorem scull_roundtrip:
  assumes "scull_wf d" and "0 \<le> f" and "pos_ok d (f + int (length buf))"
    and "kmalloc_sized km" and "kmalloc_total km"
  shows "\<exists>d'. write_all (scull_write km False 0) (length buf) d buf f = Some (d', f + int (length buf)) \<and>
    read_all (scull_read km False 0) (length buf) d' (int (length buf)) f = Some buf"
proof (rule scull.write_all_read_all)
  show "scull_ready km d g" if "f \<le> g" "g \<le> f + int (length buf)" for g
    using assms that pos_ok_mono [OF assms(1,3), of g] by (simp add: scull_ready_def)
  show "int (length buf) < 2 ^ 63"
    using assms(2,3) scull_wfD(1) [OF assms(1)] by (simp add: pos_ok_def)
qed

section \<open>Emptying the device\<close>

text \<open>
  The blocks that a device owns: for each item of the chain its quanta, its array and the item itself.
\<close>

definition item_blocks :: "scull_qset \<Rightarrow> addr list" where
  "item_blocks q =
     (case qs_data q of None \<Rightarrow> [] | Some (a, arr) \<Rightarrow> concat (map owned_addr arr) @ [a]) @ [qs_addr q]"

definition scull_blocks :: "scull_dev \<Rightarrow> addr list" where
  "scull_blocks d = concat (map item_blocks (sd_data d))"

lemma trim_items_blocks:
  "\<forall>q \<in> set qs. wf_qset quantum qset q \<Longrightarrow> trim_items qset qs = Done (concat (map item_blocks qs))"
  by (induction qs) (auto simp: wf_qset_def free_quanta_def item_blocks_def split: option.splits)

text \<open>
  C11. \<open>scull_trim\<close> of a well-formed device does not fault and frees every block of the device exactly
  once and nothing else; it leaves an empty device with the geometry of the module parameters, every
  position of which is a hole.
\<close>

theorem scull_trim_frees:
  assumes "scull_wf d"
  shows "\<exists>d'. scull_trim g d = Done (d', scull_blocks d) \<and> scull_blocks d' = [] \<and> sd_size d' = 0 \<and>
    sd_quantum d' = scull_quantum g \<and> sd_qset d' = scull_qset_p g \<and> sd_lock d' = sd_lock d \<and>
    (\<forall>p. scull_byte d' p = None)"
proof -
  have "trim_items (sd_qset d) (sd_data d) = Done (scull_blocks d)"
    using assms trim_items_blocks by (auto simp: scull_wf_def scull_blocks_def)
  then show ?thesis
    by (simp add: scull_trim_def scull_byte_def scull_block_def Let_def)
      (simp add: scull_blocks_def)
qed

section \<open>Witnesses\<close>

text \<open>An allocator that never fails, and a small device of quanta of 4 bytes, two to a set, with one quantum.\<close>

definition km_ex :: kmalloc where
  "km_ex k n = Some (100 + k, replicate (nat n) 7)"

definition dev_ex :: scull_dev where
  "dev_ex = \<lparr>sd_data = [\<lparr>qs_addr = 10, qs_data = Some (11, [Some (12, [1, 2, 3, 4]), None])\<rparr>],
     sd_quantum = 4, sd_qset = 2, sd_size = 4, sd_access_key = 0, sd_lock = False\<rparr>"

lemma km_ex_ok [simp]: "kmalloc_sized km_ex" "kmalloc_total km_ex"
  by (simp_all add: km_ex_def kmalloc_sized_def kmalloc_total_def)

lemma dev_ex_ok [simp]: "scull_wf dev_ex" "0 \<le> f \<Longrightarrow> f < 1000 \<Longrightarrow> pos_ok dev_ex f"
  by (auto simp: dev_ex_def scull_wf_def wf_qset_def pos_ok_def)

theorem scull_write_contents_witness:
  "\<exists>d' f' r. scull_write km_ex False 0 dev_ex [8, 9, 5] 6 = Done (d', f', r) \<and> r = Inr 2 \<and> f' = 8 \<and>
    sd_size d' = 8 \<and> scull_byte d' 7 = Some 9 \<and> scull_byte d' 1 = Some 2"
proof -
  obtain d' f' r where run: "scull_write km_ex False 0 dev_ex [8, 9, 5] 6 = Done (d', f', r)" and r: "r = Inr 2"
    by (simp add: scull_write_def scull_write_locked_def scull_locate_def scull_follow_def dev_ex_def write_array_def arr_get_def
      write_quantum_def write_copy_def km_ex_def width_simps mem_write_def Let_def)
  have b: "scull_byte dev_ex 1 = Some 2" "sd_size dev_ex = 4"
    by (simp_all add: scull_byte_def scull_block_def dev_ex_def)
  from scull_write_contents [OF _ _ _ run] r b show ?thesis
    using run by (force simp: numeral_2_eq_2 less_Suc_eq)
qed

theorem scull_read_contents_witness:
  "\<exists>d' f' r bs. scull_read km_ex False 0 dev_ex 9 1 = Done (d', f', r, bs) \<and> r = Inr 3 \<and> f' = 4"
proof -
  have "scull_byte dev_ex 1 = Some 2" "sd_size dev_ex = 4" "sd_quantum dev_ex = 4"
    by (simp_all add: scull_byte_def scull_block_def dev_ex_def)
  then show ?thesis using scull_read_contents [of dev_ex 1 9 km_ex False 0] by auto
qed

theorem scull_roundtrip_witness:
  "\<exists>d'. write_all (scull_write km_ex False 0) 5 dev_ex [1, 2, 3, 4, 5] 6 = Some (d', 11) \<and>
    read_all (scull_read km_ex False 0) 5 d' 5 6 = Some [1, 2, 3, 4, 5]"
  using scull_roundtrip [of dev_ex 6 "[1, 2, 3, 4, 5]" km_ex]
  by (simp del: write_all.simps read_all.simps add: numeral_eq_Suc)

theorem scull_trim_frees_witness:
  "\<exists>d'. scull_trim scull_params_init dev_ex = Done (d', [12, 11, 10]) \<and> sd_quantum d' = 4000"
proof -
  have "scull_blocks dev_ex = [12, 11, 10]" by (simp add: scull_blocks_def item_blocks_def dev_ex_def)
  moreover have "scull_quantum scull_params_init = 4000"
    by (simp add: scull_params_init_def SCULL_QUANTUM_def)
  ultimately show ?thesis using scull_trim_frees [OF dev_ex_ok(1), of scull_params_init] by auto
qed

end
