(* ===== verification/Scull_Ctl.thy ===== *)
theory Scull_Ctl
  imports Scull_Store
begin

unbundle bit_operations_syntax

text \<open>
  The other file operations of the bare scull device (\<^verbatim>\<open>ldd/scull/main.c\<close>): \<open>scull_open\<close>, \<open>scull_release\<close>,
  \<open>scull_llseek\<close>, \<open>scull_ioctl\<close>, and the two dumps of the devices under \<^verbatim>\<open>/proc\<close>. A step relation puts
  the operations together, as processes interleave them at the granularity of the device's mutex.
\<close>

section \<open>Open, release and seek\<close>

definition O_ACCMODE :: int where
  "O_ACCMODE = 3"

definition O_WRONLY :: int where
  "O_WRONLY = 1"

text \<open>\<open>scull_open\<close>: the device, the returned value and the blocks that were freed.\<close>

definition scull_open ::
  "scull_params \<Rightarrow> bool \<Rightarrow> scull_dev \<Rightarrow> int \<Rightarrow> (scull_dev \<times> unit ret \<times> addr list) exec" where
  "scull_open g intr d f_flags =
     (if f_flags AND O_ACCMODE = O_WRONLY
      then if intr then Done (d, Inl ERESTARTSYS, [])
           else kbind (scull_trim g (d\<lparr>sd_lock := True\<rparr>)) (\<lambda>(d, freed). Done (unlock_dev d, Inr (), freed))
      else Done (d, Inr (), []))"

definition scull_release :: "scull_dev \<Rightarrow> scull_dev \<times> unit ret" where
  "scull_release d = (d, Inr ())"

text \<open>
  \<open>scull_llseek\<close> returns the new position of the file and the value of the call. The sum with the
  \<open>unsigned long\<close> size is taken modulo \<open>2 ^ 64\<close> and then read as a signed position.
\<close>

definition scull_llseek :: "scull_dev \<Rightarrow> int \<Rightarrow> int \<Rightarrow> int \<Rightarrow> int \<times> int ret" where
  "scull_llseek d f_pos off whence =
     (let finish = (\<lambda>newpos. if newpos < 0 then (f_pos, Inl EINVAL) else (newpos, Inr newpos)) in
      if whence = 0 then finish off
      else if whence = 1 then finish (s64 (f_pos + off))
      else if whence = 2 then finish (s64 (u64 (sd_size d + off)))
      else (f_pos, Inl EINVAL))"

section \<open>The ioctl method\<close>

text \<open>
  An ioctl command with the fields that the \<open>_IOC\<close> macros pack into its number: two direction bits, the
  type, the number and the size of the argument.
\<close>

record ioc =
  ioc_read :: bool
  ioc_write :: bool
  ioc_type :: char
  ioc_nr :: int
  ioc_size :: int

definition IO :: "char \<Rightarrow> int \<Rightarrow> ioc" where
  "IO t n = \<lparr>ioc_read = False, ioc_write = False, ioc_type = t, ioc_nr = n, ioc_size = 0\<rparr>"

definition IOR :: "char \<Rightarrow> int \<Rightarrow> int \<Rightarrow> ioc" where
  "IOR t n s = \<lparr>ioc_read = True, ioc_write = False, ioc_type = t, ioc_nr = n, ioc_size = s\<rparr>"

definition IOW :: "char \<Rightarrow> int \<Rightarrow> int \<Rightarrow> ioc" where
  "IOW t n s = \<lparr>ioc_read = False, ioc_write = True, ioc_type = t, ioc_nr = n, ioc_size = s\<rparr>"

definition IOWR :: "char \<Rightarrow> int \<Rightarrow> int \<Rightarrow> ioc" where
  "IOWR t n s = \<lparr>ioc_read = True, ioc_write = True, ioc_type = t, ioc_nr = n, ioc_size = s\<rparr>"

lemmas ioc_defs = IO_def IOR_def IOW_def IOWR_def

definition SCULL_IOC_MAGIC :: char where "SCULL_IOC_MAGIC = CHR ''k''"
definition SCULL_IOC_MAXNR :: int where "SCULL_IOC_MAXNR = 14"
definition SCULL_IOCRESET :: ioc where "SCULL_IOCRESET = IO SCULL_IOC_MAGIC 0"
definition SCULL_IOCSQUANTUM :: ioc where "SCULL_IOCSQUANTUM = IOW SCULL_IOC_MAGIC 1 4"
definition SCULL_IOCSQSET :: ioc where "SCULL_IOCSQSET = IOW SCULL_IOC_MAGIC 2 4"
definition SCULL_IOCTQUANTUM :: ioc where "SCULL_IOCTQUANTUM = IO SCULL_IOC_MAGIC 3"
definition SCULL_IOCTQSET :: ioc where "SCULL_IOCTQSET = IO SCULL_IOC_MAGIC 4"
definition SCULL_IOCGQUANTUM :: ioc where "SCULL_IOCGQUANTUM = IOR SCULL_IOC_MAGIC 5 4"
definition SCULL_IOCGQSET :: ioc where "SCULL_IOCGQSET = IOR SCULL_IOC_MAGIC 6 4"
definition SCULL_IOCQQUANTUM :: ioc where "SCULL_IOCQQUANTUM = IO SCULL_IOC_MAGIC 7"
definition SCULL_IOCQQSET :: ioc where "SCULL_IOCQQSET = IO SCULL_IOC_MAGIC 8"
definition SCULL_IOCXQUANTUM :: ioc where "SCULL_IOCXQUANTUM = IOWR SCULL_IOC_MAGIC 9 4"
definition SCULL_IOCXQSET :: ioc where "SCULL_IOCXQSET = IOWR SCULL_IOC_MAGIC 10 4"
definition SCULL_IOCHQUANTUM :: ioc where "SCULL_IOCHQUANTUM = IO SCULL_IOC_MAGIC 11"
definition SCULL_IOCHQSET :: ioc where "SCULL_IOCHQSET = IO SCULL_IOC_MAGIC 12"
definition SCULL_P_IOCTSIZE :: ioc where "SCULL_P_IOCTSIZE = IO SCULL_IOC_MAGIC 13"
definition SCULL_P_IOCQSIZE :: ioc where "SCULL_P_IOCQSIZE = IO SCULL_IOC_MAGIC 14"

lemmas scull_ioc_defs = ioc_defs SCULL_IOC_MAGIC_def SCULL_IOC_MAXNR_def SCULL_IOCRESET_def
  SCULL_IOCSQUANTUM_def SCULL_IOCSQSET_def SCULL_IOCTQUANTUM_def SCULL_IOCTQSET_def SCULL_IOCGQUANTUM_def
  SCULL_IOCGQSET_def SCULL_IOCQQUANTUM_def SCULL_IOCQQSET_def SCULL_IOCXQUANTUM_def SCULL_IOCXQSET_def
  SCULL_IOCHQUANTUM_def SCULL_IOCHQSET_def SCULL_P_IOCTSIZE_def SCULL_P_IOCQSIZE_def

text \<open>
  What the method asks of the kernel: whether the caller has \<open>CAP_SYS_ADMIN\<close>, whether \<open>access_ok\<close>
  accepts the argument, and the outcomes of \<open>__get_user\<close> (the value, or \<open>None\<close> for a fault, which sets
  the variable to 0 as the kernel documents) and of \<open>__put_user\<close>.
\<close>

record ioctl_env =
  capable :: bool
  access_ok :: bool
  user_int :: "int option"
  put_ok :: bool

text \<open>\<open>__get_user(v, arg)\<close>: the value of the variable afterwards, and the result of the call.\<close>

definition get_user :: "ioctl_env \<Rightarrow> int \<times> int ret" where
  "get_user e = (case user_int e of Some v \<Rightarrow> (s32 v, Inr 0) | None \<Rightarrow> (0, Inl EFAULT))"

definition put_user :: "ioctl_env \<Rightarrow> int \<Rightarrow> int ret \<times> int option" where
  "put_user e v = (if put_ok e then (Inr 0, Some v) else (Inl EFAULT, None))"

text \<open>
  \<open>scull_ioctl\<close>: the module parameters, the returned value, and the integer that was stored at the user's
  pointer, if any.
\<close>

definition scull_ioctl :: "ioctl_env \<Rightarrow> scull_params \<Rightarrow> ioc \<Rightarrow> int \<Rightarrow> scull_params \<times> int ret \<times> int option" where
  "scull_ioctl e g cmd arg =
     (if ioc_type cmd \<noteq> SCULL_IOC_MAGIC then (g, Inl ENOTTY, None)
      else if ioc_nr cmd > SCULL_IOC_MAXNR then (g, Inl ENOTTY, None)
      else if (ioc_read cmd \<or> ioc_write cmd) \<and> \<not> access_ok e then (g, Inl EFAULT, None)
      else if cmd = SCULL_IOCRESET
        then (g\<lparr>scull_quantum := SCULL_QUANTUM, scull_qset_p := SCULL_QSET\<rparr>, Inr 0, None)
      else if cmd = SCULL_IOCSQUANTUM
        then if \<not> capable e then (g, Inl EPERM, None)
             else (case get_user e of (v, r) \<Rightarrow> (g\<lparr>scull_quantum := v\<rparr>, r, None))
      else if cmd = SCULL_IOCTQUANTUM
        then if \<not> capable e then (g, Inl EPERM, None)
             else (g\<lparr>scull_quantum := s32 arg\<rparr>, Inr 0, None)
      else if cmd = SCULL_IOCGQUANTUM
        then (case put_user e (scull_quantum g) of (r, w) \<Rightarrow> (g, r, w))
      else if cmd = SCULL_IOCQQUANTUM then (g, Inr (scull_quantum g), None)
      else if cmd = SCULL_IOCXQUANTUM
        then if \<not> capable e then (g, Inl EPERM, None)
             else let tmp = scull_quantum g in
               (case get_user e of
                  (v, Inl x) \<Rightarrow> (g\<lparr>scull_quantum := v\<rparr>, Inl x, None)
                | (v, Inr _) \<Rightarrow> (case put_user e tmp of (r, w) \<Rightarrow> (g\<lparr>scull_quantum := v\<rparr>, r, w)))
      else if cmd = SCULL_IOCHQUANTUM
        then if \<not> capable e then (g, Inl EPERM, None)
             else let tmp = scull_quantum g in (g\<lparr>scull_quantum := s32 arg\<rparr>, Inr tmp, None)
      else if cmd = SCULL_IOCSQSET
        then if \<not> capable e then (g, Inl EPERM, None)
             else (case get_user e of (v, r) \<Rightarrow> (g\<lparr>scull_qset_p := v\<rparr>, r, None))
      else if cmd = SCULL_IOCTQSET
        then if \<not> capable e then (g, Inl EPERM, None)
             else (g\<lparr>scull_qset_p := s32 arg\<rparr>, Inr 0, None)
      else if cmd = SCULL_IOCGQSET
        then (case put_user e (scull_qset_p g) of (r, w) \<Rightarrow> (g, r, w))
      else if cmd = SCULL_IOCQQSET then (g, Inr (scull_qset_p g), None)
      else if cmd = SCULL_IOCXQSET
        then if \<not> capable e then (g, Inl EPERM, None)
             else let tmp = scull_qset_p g in
               (case get_user e of
                  (v, Inl x) \<Rightarrow> (g\<lparr>scull_qset_p := v\<rparr>, Inl x, None)
                | (v, Inr _) \<Rightarrow> (case put_user e tmp of (r, w) \<Rightarrow> (g\<lparr>scull_qset_p := v\<rparr>, r, w)))
      else if cmd = SCULL_IOCHQSET
        then if \<not> capable e then (g, Inl EPERM, None)
             else let tmp = scull_qset_p g in (g\<lparr>scull_qset_p := s32 arg\<rparr>, Inr tmp, None)
      else if cmd = SCULL_P_IOCTSIZE then (g\<lparr>scull_p_buffer := s32 arg\<rparr>, Inr 0, None)
      else if cmd = SCULL_P_IOCQSIZE then (g, Inr (scull_p_buffer g), None)
      else (g, Inl ENOTTY, None))"

section \<open>The dumps of the devices\<close>

text \<open>A line that the dumps print: the arguments of the three calls of \<open>seq_printf\<close>; 0 is \<open>NULL\<close>.\<close>

datatype seq_line =
    DevLine int int int int
  | ItemLine addr addr
  | QuantumLine int addr

definition owned_ptr :: "'a owned \<Rightarrow> addr" where
  "owned_ptr p = (case p of None \<Rightarrow> 0 | Some (a, x) \<Rightarrow> a)"

text \<open>The loop over the array of the last item, which reads \<open>qset\<close> entries.\<close>

definition show_quanta :: "int \<Rightarrow> byte list owned list \<Rightarrow> seq_line list exec" where
  "show_quanta qset arr =
     (if qset \<le> int (length arr)
      then Done (concat (map (\<lambda>j. case arr ! j of None \<Rightarrow> [] | Some (a, m) \<Rightarrow> [QuantumLine (int j) a]) [0..<nat qset]))
      else Oops OutOfBounds)"

definition show_item :: "int \<Rightarrow> scull_qset \<Rightarrow> bool \<Rightarrow> seq_line list exec" where
  "show_item qset q is_last =
     kbind (case qs_data q of
              Some (a, arr) \<Rightarrow> if is_last then show_quanta qset arr else Done []
            | None \<Rightarrow> Done [])
       (\<lambda>ls. Done (ItemLine (qs_addr q) (owned_ptr (qs_data q)) # ls))"

fun show_items :: "int \<Rightarrow> scull_qset list \<Rightarrow> seq_line list exec" where
  "show_items qset [] = Done []"
| "show_items qset (q # qs) =
     kbind (show_item qset q (qs = [])) (\<lambda>ls. kbind (show_items qset qs) (\<lambda>rest. Done (ls @ rest)))"

text \<open>\<open>scull_seq_show\<close> of device number \<open>i\<close>: the value returned and the lines.\<close>

definition scull_seq_show :: "bool \<Rightarrow> int \<Rightarrow> scull_dev \<Rightarrow> (unit ret \<times> seq_line list) exec" where
  "scull_seq_show intr i d =
     (if intr then Done (Inl ERESTARTSYS, [])
      else kbind (show_items (sd_qset d) (sd_data d)) (\<lambda>ls.
        Done (Inr (), DevLine i (sd_qset d) (sd_quantum d) (sd_size d) # ls)))"

text \<open>The iterator: a pointer to a device is its index, \<open>None\<close> is \<open>NULL\<close>.\<close>

definition scull_seq_start :: "int \<Rightarrow> int \<Rightarrow> int option" where
  "scull_seq_start scull_nr_devs pos = (if pos \<ge> scull_nr_devs then None else Some pos)"

definition scull_seq_next :: "int \<Rightarrow> int \<Rightarrow> int \<times> int option" where
  "scull_seq_next scull_nr_devs pos =
     (let pos = pos + 1 in (pos, if pos \<ge> scull_nr_devs then None else Some pos))"

text \<open>
  How \<open>seq_read\<close> drives an iterator from position \<open>pos\<close>: show the current element, then go to the next,
  until \<open>NULL\<close>; at most \<open>n\<close> elements.
\<close>

fun seq_loop :: "nat \<Rightarrow> int \<Rightarrow> scull_dev list \<Rightarrow> int option \<Rightarrow> int \<Rightarrow> seq_line list exec option" where
  "seq_loop n nr devs None pos = Some (Done [])"
| "seq_loop 0 nr devs (Some v) pos = None"
| "seq_loop (Suc n) nr devs (Some v) pos =
     (case kbind (arr_get devs v) (scull_seq_show False v) of
        Oops x \<Rightarrow> Some (Oops x)
      | Done (r, ls) \<Rightarrow>
          (case scull_seq_next nr pos of
             (pos, v) \<Rightarrow> map_option (\<lambda>m. kbind m (\<lambda>rest. Done (ls @ rest))) (seq_loop n nr devs v pos)))"

text \<open>
  \<open>scull_read_procmem\<close> prints all devices at once and stops early when the buffer fills up: \<open>width\<close> is
  the number of characters of a line, \<open>cnt\<close> the characters in the buffer, \<open>intr\<close> tells at which device
  the wait for the mutex is interrupted.
\<close>

definition width_of :: "(seq_line \<Rightarrow> int) \<Rightarrow> seq_line list \<Rightarrow> int" where
  "width_of width ls = sum_list (map width ls)"

fun mem_items :: "(seq_line \<Rightarrow> int) \<Rightarrow> int \<Rightarrow> int \<Rightarrow> scull_qset list \<Rightarrow> int \<Rightarrow> seq_line list exec" where
  "mem_items width limit qset [] cnt = Done []"
| "mem_items width limit qset (q # qs) cnt =
     (if cnt \<le> limit
      then kbind (show_item qset q (qs = [])) (\<lambda>ls.
             kbind (mem_items width limit qset qs (cnt + width_of width ls)) (\<lambda>rest. Done (ls @ rest)))
      else Done [])"

fun mem_devices ::
  "(seq_line \<Rightarrow> int) \<Rightarrow> int \<Rightarrow> (int \<Rightarrow> bool) \<Rightarrow> int \<Rightarrow> scull_dev list \<Rightarrow> int \<Rightarrow> (unit ret \<times> seq_line list) exec"
where
  "mem_devices width limit intr i [] cnt = Done (Inr (), [])"
| "mem_devices width limit intr i (d # ds) cnt =
     (if cnt \<le> limit
      then if intr i then Done (Inl ERESTARTSYS, [])
           else let h = DevLine i (sd_qset d) (sd_quantum d) (sd_size d) in
             kbind (mem_items width limit (sd_qset d) (sd_data d) (cnt + width h)) (\<lambda>ls.
             kbind (mem_devices width limit intr (i + 1) ds (cnt + width_of width (h # ls))) (\<lambda>(r, rest).
               Done (r, h # ls @ rest)))
      else Done (Inr (), []))"

definition scull_read_procmem ::
  "(seq_line \<Rightarrow> int) \<Rightarrow> int \<Rightarrow> (int \<Rightarrow> bool) \<Rightarrow> scull_dev list \<Rightarrow> int \<Rightarrow> (unit ret \<times> seq_line list) exec" where
  "scull_read_procmem width bufsize intr devs cnt = mem_devices width (s32 (bufsize - 80)) intr 0 devs cnt"

section \<open>Properties of the ioctl method\<close>

text \<open>
  C17. Without \<open>CAP_SYS_ADMIN\<close> no command can set the quantum or the quantum set to a value of the
  caller's choice: they stay as they are, or both get their defaults back.
\<close>

theorem scull_ioctl_unprivileged:
  assumes "\<not> capable e" and "scull_ioctl e g cmd arg = (g', r, w)"
  shows "(scull_quantum g' = scull_quantum g \<and> scull_qset_p g' = scull_qset_p g) \<or>
    (scull_quantum g' = SCULL_QUANTUM \<and> scull_qset_p g' = SCULL_QSET)"
  using assms
  by (simp add: scull_ioctl_def Let_def put_user_def split: if_splits) auto

theorem scull_ioctl_unprivileged_witness:
  "let e = \<lparr>capable = False, access_ok = True, user_int = Some 1, put_ok = True\<rparr>;
       g = \<lparr>scull_quantum = 8, scull_qset_p = 2, scull_p_buffer = 16\<rparr>;
       g' = fst (scull_ioctl e g SCULL_IOCHQUANTUM 1) in
   (scull_quantum g' = 8 \<and> scull_qset_p g' = 2) \<or> (scull_quantum g' = 4000 \<and> scull_qset_p g' = 1000)"
  using scull_ioctl_unprivileged [of "\<lparr>capable = False, access_ok = True, user_int = Some 1, put_ok = True\<rparr>"
    "\<lparr>scull_quantum = 8, scull_qset_p = 2, scull_p_buffer = 16\<rparr>" SCULL_IOCHQUANTUM 1]
  by (simp add: Let_def SCULL_QUANTUM_def SCULL_QSET_def) (metis prod.collapse)

text \<open>
  The combined commands are what \<^verbatim>\<open>scull.h\<close> says they are. For an administrator, eXchange stores
  through the pointer what Get stores and leaves the parameters as Set does, and sHift returns what Query
  returns and leaves the parameters as Tell does; the other parameter is never touched.
\<close>

theorem scull_ioctl_combined:
  assumes "capable e" and "access_ok e" and "user_int e = Some v" and "put_ok e"
  shows "scull_ioctl e g SCULL_IOCXQUANTUM arg =
      (fst (scull_ioctl e g SCULL_IOCSQUANTUM arg), snd (scull_ioctl e g SCULL_IOCGQUANTUM arg)) \<and>
    scull_ioctl e g SCULL_IOCXQSET arg =
      (fst (scull_ioctl e g SCULL_IOCSQSET arg), snd (scull_ioctl e g SCULL_IOCGQSET arg)) \<and>
    scull_ioctl e g SCULL_IOCHQUANTUM arg =
      (fst (scull_ioctl e g SCULL_IOCTQUANTUM arg), snd (scull_ioctl e g SCULL_IOCQQUANTUM arg)) \<and>
    scull_ioctl e g SCULL_IOCHQSET arg =
      (fst (scull_ioctl e g SCULL_IOCTQSET arg), snd (scull_ioctl e g SCULL_IOCQQSET arg)) \<and>
    fst (scull_ioctl e g SCULL_IOCSQUANTUM arg) = g\<lparr>scull_quantum := s32 v\<rparr> \<and>
    fst (scull_ioctl e g SCULL_IOCSQSET arg) = g\<lparr>scull_qset_p := s32 v\<rparr>"
  using assms by (simp add: scull_ioctl_def scull_ioc_defs get_user_def put_user_def)

theorem scull_ioctl_combined_witness:
  "scull_ioctl \<lparr>capable = True, access_ok = True, user_int = Some 8, put_ok = True\<rparr> scull_params_init
     SCULL_IOCXQSET 0 = (scull_params_init\<lparr>scull_qset_p := 8\<rparr>, Inr 0, Some 1000)"
  using scull_ioctl_combined [of "\<lparr>capable = True, access_ok = True, user_int = Some 8, put_ok = True\<rparr>" 8
    scull_params_init 0]
  by (simp add: scull_ioctl_def scull_ioc_defs get_user_def put_user_def width_simps scull_params_init_def SCULL_QSET_def)

section \<open>A parameter of zero\<close>

text \<open>
  C19. A caller with the capability whose pointer faults in \<open>SCULL_IOCSQUANTUM\<close> gets \<open>EFAULT\<close> and leaves
  a quantum of 0 behind; the next process that opens a device for writing and writes takes a divide error,
  with the mutex of the device held.
\<close>

theorem scull_ioctl_fault_oops:
  assumes "capable e" and "access_ok e" and "user_int e = None"
    and "scull_ioctl e g SCULL_IOCSQUANTUM arg = (g', r, w)"
    and "scull_open g' False d O_WRONLY = Done (d', r', freed)"
  shows "r = Inl EFAULT \<and> scull_write km False left d' buf f = Oops DivideError"
proof -
  have g': "r = Inl EFAULT" "scull_quantum g' = 0"
    using assms(1-4) by (auto simp: scull_ioctl_def scull_ioc_defs get_user_def)
  from assms(5) have "sd_quantum d' = 0"
    by (auto simp: scull_open_def O_WRONLY_def O_ACCMODE_def scull_trim_def exec_simps unlock_dev_def g')
  then show ?thesis
    using g'(1) by (simp add: scull_write_def scull_write_locked_def scull_locate_def Let_def s32_def)
qed

theorem scull_ioctl_fault_oops_witness:
  "\<exists>g' r w d' r' freed.
     scull_ioctl \<lparr>capable = True, access_ok = True, user_int = None, put_ok = True\<rparr> scull_params_init
       SCULL_IOCSQUANTUM 0 = (g', r, w) \<and>
     scull_open g' False dev_ex O_WRONLY = Done (d', r', freed) \<and>
     scull_write km_ex False 0 d' [1] 0 = Oops DivideError"
proof -
  let ?e = "\<lparr>capable = True, access_ok = True, user_int = None, put_ok = True\<rparr>"
  obtain g' r w where i: "scull_ioctl ?e scull_params_init SCULL_IOCSQUANTUM 0 = (g', r, w)"
    by (metis prod_cases3)
  obtain d' r' freed where o: "scull_open g' False dev_ex O_WRONLY = Done (d', r', freed)"
    by (simp add: scull_open_def O_WRONLY_def O_ACCMODE_def scull_trim_def dev_ex_def free_quanta_def)
  from scull_ioctl_fault_oops [OF _ _ _ i o] i o show ?thesis by auto
qed

section \<open>The race on the geometry\<close>

text \<open>
  C20. \<open>quantum\<close> and \<open>qset\<close> are read before the mutex is taken. A write that reads the geometry of the
  device, and gets the mutex only after another process has emptied the device with smaller parameters and
  written to it, copies past the end of the other process's quantum.
\<close>

theorem scull_write_stale_geometry:
  "\<exists>g d d1 d2 freed r1 f1 r2.
     scull_wf d \<and> pos_ok d 2 \<and> 0 < scull_quantum g \<and> 0 < scull_qset_p g \<and>
     scull_open g False d O_WRONLY = Done (d1, r1, freed) \<and>
     scull_write km_ex False 0 d1 [1] 0 = Done (d2, f1, r2) \<and>
     scull_write_locked km_ex 0 (sd_quantum d) (sd_qset d) (d2\<lparr>sd_lock := True\<rparr>) [9, 9] 2 = Oops OutOfBounds"
proof -
  let ?g = "\<lparr>scull_quantum = 2, scull_qset_p = 2, scull_p_buffer = 16\<rparr>"
  obtain d1 r1 freed where o: "scull_open ?g False dev_ex O_WRONLY = Done (d1, r1, freed)"
    and d1: "d1 = \<lparr>sd_data = [], sd_quantum = 2, sd_qset = 2, sd_size = 0, sd_access_key = 0, sd_lock = False\<rparr>"
    by (simp add: scull_open_def O_WRONLY_def O_ACCMODE_def scull_trim_def dev_ex_def free_quanta_def unlock_dev_def)
  obtain d2 f1 r2 where w: "scull_write km_ex False 0 d1 [1] 0 = Done (d2, f1, r2)"
    and d2: "sd_data d2 = [\<lparr>qs_addr = 100, qs_data = Some (101, [Some (102, [1, 7]), None])\<rparr>]"
    by (simp add: d1 scull_write_def scull_write_locked_def scull_locate_def scull_follow_def write_array_def
      arr_get_def write_quantum_def write_copy_def km_ex_def width_simps mem_write_def Let_def new_qset_def
      set_quantum_def unlock_dev_def numeral_2_eq_2)
  have "scull_write_locked km_ex 0 4 2 (d2\<lparr>sd_lock := True\<rparr>) [9, 9] 2 = Oops OutOfBounds"
    by (simp add: d2 scull_write_locked_def scull_locate_def scull_follow_def write_array_def
      arr_get_def write_quantum_def write_copy_def width_simps mem_write_def Let_def)
  moreover have "sd_quantum dev_ex = 4" "sd_qset dev_ex = 2" by (simp_all add: dev_ex_def)
  ultimately show ?thesis
    using o w by (intro exI [of _ ?g] exI [of _ dev_ex] exI [of _ d1] exI [of _ d2]) auto
qed

section \<open>Seeking\<close>

text \<open>
  \<open>scull_llseek\<close> on every branch, for a device and a position of sane size: the position is counted
  from the start, the current position or the end; a negative target and an unknown \<open>whence\<close> are
  \<open>EINVAL\<close> and leave the position; the position never becomes negative.
\<close>

theorem scull_llseek_spec:
  assumes "0 \<le> f" "f < 2 ^ 62" and "0 \<le> sd_size d" "sd_size d < 2 ^ 62" and "\<bar>off\<bar> < 2 ^ 62"
  shows "scull_llseek d f off whence =
      (let base = (if whence = 0 then Some 0 else if whence = 1 then Some f
                   else if whence = 2 then Some (sd_size d) else None) in
       case base of
         None \<Rightarrow> (f, Inl EINVAL)
       | Some b \<Rightarrow> if b + off < 0 then (f, Inl EINVAL) else (b + off, Inr (b + off)))"
proof -
  have "s64 (f + off) = f + off" using assms by (intro s64_id) auto
  moreover have "s64 (u64 (sd_size d + off)) = sd_size d + off"
    using assms by (intro s64_u64) auto
  ultimately show ?thesis by (simp add: scull_llseek_def Let_def)
qed

theorem scull_llseek_spec_witness:
  "scull_llseek dev_ex 3 (-1) 2 = (3, Inr 3)"
  using scull_llseek_spec [of 3 dev_ex "-1" 2] by (simp add: dev_ex_def)

section \<open>The two dumps agree\<close>

lemma width_of_append [simp]: "width_of width (xs @ ys) = width_of width xs + width_of width ys"
  by (simp add: width_of_def)

lemma width_of_Cons [simp]: "width_of width (x # xs) = width x + width_of width xs"
  by (simp add: width_of_def)

lemma width_of_nonneg: "\<forall>l. 0 \<le> width l \<Longrightarrow> 0 \<le> width_of width xs"
  by (induction xs) (simp_all add: width_of_def)

lemma mem_items_all:
  assumes "\<forall>l. 0 \<le> width l" and "mem_items width limit qset qs cnt = Done ls"
    and "cnt + width_of width ls \<le> limit"
  shows "show_items qset qs = Done ls"
  using assms(2,3)
proof (induction qs arbitrary: cnt ls)
  case (Cons q qs)
  have "cnt \<le> limit" using Cons.prems(2) width_of_nonneg [OF assms(1), of ls] by linarith
  with Cons.prems(1) obtain l1 l2 where *: "show_item qset q (qs = []) = Done l1"
    "mem_items width limit qset qs (cnt + width_of width l1) = Done l2" "ls = l1 @ l2"
    by (auto simp: exec_simps)
  with Cons.IH [OF *(2)] Cons.prems(2) have "show_items qset qs = Done l2" by simp
  with * show ?case by simp
qed simp

lemma mem_devices_seq_loop:
  assumes w: "\<forall>l. 0 \<le> width l"
    and "mem_devices width limit intr (int i) (drop i devs) cnt = Done (Inr (), ls)"
    and "cnt + width_of width ls \<le> limit" and "i \<le> length devs" and n: "n = length devs - i"
  shows "seq_loop n (int (length devs)) devs (scull_seq_start (int (length devs)) (int i)) (int i) = Some (Done ls)"
  using assms(2-)
proof (induction n arbitrary: i cnt ls)
  case 0
  then show ?case by (simp add: scull_seq_start_def)
next
  case (Suc n)
  then have i: "i < length devs" by simp
  let ?d = "devs ! i"
  define h where "h = DevLine (int i) (sd_qset ?d) (sd_quantum ?d) (sd_size ?d)"
  have dr: "drop i devs = ?d # drop (Suc i) devs" using i by (simp add: Cons_nth_drop_Suc)
  have "cnt \<le> limit" using Suc.prems(2) width_of_nonneg [OF w, of ls] by linarith
  with Suc.prems(1) obtain l1 l2 where
    l1: "mem_items width limit (sd_qset ?d) (sd_data ?d) (cnt + width h) = Done l1"
    and l2: "mem_devices width limit intr (int (Suc i)) (drop (Suc i) devs) (cnt + width_of width (h # l1)) = Done (Inr (), l2)"
    and ls: "ls = h # l1 @ l2"
    by (auto simp: dr h_def exec_simps Let_def add.commute split: if_splits)
  note nn = width_of_nonneg [OF w]
  have "show_items (sd_qset ?d) (sd_data ?d) = Done l1"
    using mem_items_all [OF w l1] Suc.prems(2) ls nn [of l2] by simp
  moreover have "seq_loop n (int (length devs)) devs
      (scull_seq_start (int (length devs)) (int (Suc i))) (int (Suc i)) = Some (Done l2)"
    using Suc.prems(2,4) ls i by (intro Suc.IH [OF l2]) simp_all
  ultimately show ?case
    using i ls
    by (simp add: scull_seq_start_def scull_seq_next_def arr_get_def scull_seq_show_def h_def Let_def add.commute)
qed

text \<open>
  C18. Both dumps show the same: as long as \<^verbatim>\<open>/proc/scullmem\<close> does not run into the end of its buffer,
  its lines are those of the iteration behind \<^verbatim>\<open>/proc/scullseq\<close>, which stops after the last device.
\<close>

theorem scull_dumps_agree:
  assumes "\<forall>l. 0 \<le> width l" and "scull_read_procmem width bufsize intr devs cnt = Done (Inr (), ls)"
    and "cnt + width_of width ls \<le> s32 (bufsize - 80)"
  shows "seq_loop (length devs) (int (length devs)) devs (scull_seq_start (int (length devs)) 0) 0 = Some (Done ls)"
  using mem_devices_seq_loop [OF assms(1), where i = 0, OF _ assms(3), of _ devs] assms(2)
  by (simp add: scull_read_procmem_def)

theorem scull_dumps_agree_witness:
  "\<exists>ls. scull_read_procmem (\<lambda>_. 10) 4096 (\<lambda>_. False) [dev_ex, dev_ex\<lparr>sd_data := []\<rparr>] 0 = Done (Inr (), ls) \<and>
     length ls = 4 \<and> seq_loop 2 2 [dev_ex, dev_ex\<lparr>sd_data := []\<rparr>] (scull_seq_start 2 0) 0 = Some (Done ls)"
proof -
  let ?devs = "[dev_ex, dev_ex\<lparr>sd_data := []\<rparr>]"
  obtain ls where ls: "scull_read_procmem (\<lambda>_. 10) 4096 (\<lambda>_. False) ?devs 0 = Done (Inr (), ls)" "length ls = 4"
    by (simp add: scull_read_procmem_def dev_ex_def width_simps show_item_def show_quanta_def width_of_def
      owned_ptr_def Let_def upt_rec numeral_2_eq_2)
  have "width_of (\<lambda>_. 10) ls = 40" using ls(2) by (simp add: width_of_def sum_list_triv)
  then have "0 + width_of (\<lambda>_. 10) ls \<le> s32 (4096 - 80)" by (simp add: width_simps)
  from scull_dumps_agree [OF _ ls(1) this] ls show ?thesis by (simp add: numeral_2_eq_2)
qed

section \<open>Processes at work on a device\<close>

text \<open>
  The module parameters, one device, and the file positions of the open files. Each step is one call,
  made with the mutex as the code takes it; the calls of several processes interleave.
\<close>

record scull_state =
  st_params :: scull_params
  st_dev :: scull_dev
  st_pos :: "nat \<Rightarrow> int"

text \<open>What can be observed of a step: the bytes that moved and where.\<close>

datatype store_event =
    Silent
  | Truncated
  | Wrote int "byte list"
  | Spoiled int int
  | Fetched int "byte list"

definition geometry_ok :: "scull_params \<Rightarrow> bool" where
  "geometry_ok g \<longleftrightarrow> 0 < scull_quantum g \<and> 0 < scull_qset_p g \<and> scull_quantum g * scull_qset_p g < 2 ^ 31"

definition write_event :: "scull_dev \<Rightarrow> byte list \<Rightarrow> int \<Rightarrow> int ret \<Rightarrow> store_event" where
  "write_event d buf f r =
     (case r of Inr n \<Rightarrow> Wrote f (take (nat n) buf)
      | Inl e \<Rightarrow> if e = EFAULT then Spoiled f (write_len d buf f) else Silent)"

text \<open>
  Every call that returns is a step, whatever it is asked for. A step is labelled with what can be observed and with whether the
  call was within the limits of the driver's arithmetic: a device is emptied, and takes over the module
  parameters, while these make sense; it is read and written at positions whose item fits an \<open>int\<close>. Nothing in
  the code enforces these limits.
\<close>

definition empties :: "int \<Rightarrow> bool" where
  "empties flags \<longleftrightarrow> flags AND O_ACCMODE = O_WRONLY"

inductive scull_step :: "scull_state \<Rightarrow> bool \<times> store_event \<Rightarrow> scull_state \<Rightarrow> bool" where
  step_open: "scull_open (st_params s) intr (st_dev s) flags = Done (d', r, freed) \<Longrightarrow>
    scull_step s (empties flags \<longrightarrow> geometry_ok (st_params s), if empties flags \<and> \<not> intr then Truncated else Silent)
      (s\<lparr>st_dev := d', st_pos := (st_pos s)(fd := 0)\<rparr>)"
| step_read: "0 \<le> c \<Longrightarrow> c < 2 ^ 63 \<Longrightarrow>
    scull_read km intr left (st_dev s) c (st_pos s fd) = Done (d', p', r, bs) \<Longrightarrow>
    scull_step s (pos_ok (st_dev s) (st_pos s fd), Fetched (st_pos s fd) bs)
      (s\<lparr>st_dev := d', st_pos := (st_pos s)(fd := p')\<rparr>)"
| step_write: "kmalloc_sized km \<Longrightarrow>
    scull_write km intr left (st_dev s) buf (st_pos s fd) = Done (d', p', r) \<Longrightarrow>
    scull_step s (pos_ok (st_dev s) (st_pos s fd), write_event (st_dev s) buf (st_pos s fd) r)
      (s\<lparr>st_dev := d', st_pos := (st_pos s)(fd := p')\<rparr>)"
| step_llseek: "scull_llseek (st_dev s) (st_pos s fd) off whence = (p', r) \<Longrightarrow>
    scull_step s (True, Silent) (s\<lparr>st_pos := (st_pos s)(fd := p')\<rparr>)"
| step_ioctl: "scull_ioctl e (st_params s) cmd arg = (g', r, w) \<Longrightarrow>
    scull_step s (True, Silent) (s\<lparr>st_params := g'\<rparr>)"

inductive scull_run :: "scull_state \<Rightarrow> (bool \<times> store_event) list \<Rightarrow> scull_state \<Rightarrow> bool" where
  run_nil: "scull_run s [] s"
| run_snoc: "scull_run s es s1 \<Longrightarrow> scull_step s1 e s2 \<Longrightarrow> scull_run s (es @ [e]) s2"

text \<open>
  The specification: a map from positions to the bytes that were stored there since the device was last
  emptied. A write that faults halfway leaves its range undefined.
\<close>

fun spec_step :: "(int \<Rightarrow> byte option) \<Rightarrow> store_event \<Rightarrow> int \<Rightarrow> byte option" where
  "spec_step A (Wrote f bs) p = (if f \<le> p \<and> p < f + int (length bs) then Some (bs ! nat (p - f)) else A p)"
| "spec_step A (Spoiled f n) p = (if f \<le> p \<and> p < f + n then None else A p)"
| "spec_step A Truncated p = None"
| "spec_step A (Fetched f bs) p = A p"
| "spec_step A Silent p = A p"

fun spec_allows :: "(int \<Rightarrow> byte option) \<Rightarrow> store_event \<Rightarrow> bool" where
  "spec_allows A (Fetched f bs) \<longleftrightarrow> (\<forall>i<length bs. A (f + int i) \<in> {None, Some (bs ! i)})"
| "spec_allows A _ \<longleftrightarrow> True"

fun spec_accepts :: "(int \<Rightarrow> byte option) \<Rightarrow> store_event list \<Rightarrow> bool" where
  "spec_accepts A [] \<longleftrightarrow> True"
| "spec_accepts A (e # es) \<longleftrightarrow> spec_allows A e \<and> spec_accepts (spec_step A e) es"

lemma spec_accepts_append:
  "spec_accepts A (es @ [e]) \<longleftrightarrow> spec_accepts A es \<and> spec_allows (foldl spec_step A es) e"
  by (induction es arbitrary: A) auto

definition scull_inv :: "scull_state \<Rightarrow> bool" where
  "scull_inv s \<longleftrightarrow> scull_wf (st_dev s) \<and> \<not> sd_lock (st_dev s)"

text \<open>One step simulates one step of the specification.\<close>

lemma trimmed_wf:
  assumes "scull_trim g d = Done (d', freed)" and "geometry_ok g"
  shows "scull_wf d'" and "sd_lock d' = sd_lock d"
  using assms by (auto simp: scull_trim_def exec_simps scull_wf_def geometry_ok_def)

lemma scull_open_refines:
  assumes "scull_open g intr d flags = Done (d', r, freed)" and "empties flags \<longrightarrow> geometry_ok g" and "scull_wf d" "\<not> sd_lock d"
  shows "scull_wf d' \<and> \<not> sd_lock d' \<and> (empties flags \<and> \<not> intr \<or> d' = d)"
  using assms trimmed_wf
  by (auto simp: scull_open_def empties_def exec_simps unlock_dev_def scull_wf_def split: if_splits)

text \<open>What \<open>scull_write\<close> does is what the specification does with its event.\<close>

lemma scull_write_refines:
  assumes "scull_wf d" and "pos_ok d f" and "kmalloc_sized km"
    and "scull_write km intr left d buf f = Done (d', f', r)" and A: "A \<subseteq>\<^sub>m scull_byte d"
  shows "spec_step A (write_event d buf f r) \<subseteq>\<^sub>m scull_byte d'"
proof -
  note eff = scull_write_effect [OF assms(1-4)] and n = write_len_bounds [OF assms(1), of buf f]
  have keep: "scull_byte d' p = Some b"
    if "A p = Some b" "p < f \<or> f + write_len d buf f \<le> p" for p b
    using that eff A by (force simp: map_le_def dom_def)
  show ?thesis
  proof (cases r)
    case (Inl e)
    show ?thesis
    proof (cases "e = EFAULT")
      case True
      then show ?thesis using Inl keep by (auto simp: write_event_def map_le_def dom_def)
    next
      case False
      then have "scull_byte d' p = scull_byte d p" for p
        using eff Inl by (simp add: scull_byte_def)
      then show ?thesis using Inl False A by (auto simp: write_event_def map_le_def dom_def)
    qed
  next
    case (Inr k)
    then have k: "k = write_len d buf f" "\<forall>i<nat k. scull_byte d' (f + int i) = Some (buf ! i)"
      using eff by auto
    have "scull_byte d' p = Some (take (nat k) buf ! nat (p - f))" if "f \<le> p" "p < f + k" for p
      using k(2) [rule_format, of "nat (p - f)"] that by simp
    moreover have "int (length (take (nat k) buf)) = k" using k(1) n by simp
    ultimately show ?thesis using Inr keep k(1) by (auto simp: write_event_def map_le_def dom_def)
  qed
qed

lemma scull_step_refines:
  assumes "scull_step s (True, e) s'" and inv: "scull_inv s" and A: "A \<subseteq>\<^sub>m scull_byte (st_dev s)"
  shows "scull_inv s' \<and> spec_allows A e \<and> spec_step A e \<subseteq>\<^sub>m scull_byte (st_dev s')"
  using assms(1)
proof (cases rule: scull_step.cases)
  case (step_open intr flags d' r freed fd)
  with scull_open_refines [OF step_open(4)] inv A show ?thesis
    by (auto simp: scull_inv_def map_le_def dom_def)
next
  case (step_read c km intr left fd d' p' r bs)
  have wf: "scull_wf (st_dev s)" "\<not> sd_lock (st_dev s)" using inv by (simp_all add: scull_inv_def)
  have pos: "pos_ok (st_dev s) (st_pos s fd)" using step_read(1) by simp
  from scull_read_effect [OF wf(1) pos step_read(4,5), of km intr left] step_read(6)
  have "same_view (st_dev s) d'" "if intr then d' = st_dev s else \<not> sd_lock d'"
    "\<forall>i<length bs. scull_byte (st_dev s) (st_pos s fd + int i) = Some (bs ! i)" by auto
  then show ?thesis
    using step_read(2,3) inv A wf scull_byte_same_view [of "st_dev s" d']
    by (auto simp: scull_inv_def same_view_def map_le_def dom_def split: if_splits)
next
  case (step_write km intr left buf fd d' p' r)
  have wf: "scull_wf (st_dev s)" "\<not> sd_lock (st_dev s)" using inv by (simp_all add: scull_inv_def)
  have pos: "pos_ok (st_dev s) (st_pos s fd)" using step_write(1) by simp
  have "spec_allows A e" using step_write(2) by (auto simp: write_event_def split: sum.splits)
  with scull_write_refines [OF wf(1) pos step_write(4,5) A] scull_write_effect [OF wf(1) pos step_write(4,5)]
    step_write(2,3) inv wf
  show ?thesis by (auto simp: scull_inv_def split: if_splits)
qed (use inv A in \<open>auto simp: scull_inv_def map_le_def dom_def\<close>)

text \<open>
  C6. However processes interleave their calls (open, read, write, seek, any ioctl) on a device that starts empty, as
  long as the device is emptied only while the module parameters are in range and is read and written at
  positions in range, it stays well formed with its mutex free between calls, and the observed run is one of the
  specification: a byte that a read delivers from a position that was written since the device was last
  emptied is the last one written there. The specification leaves open what a read delivers from a position
  that was not; the code hands out what the memory of the quantum held when it was allocated.
\<close>

theorem scull_run_refines:
  assumes "scull_run s es s'" and "in_limits es" and "scull_inv s" and "sd_data (st_dev s) = []"
  shows "scull_inv s' \<and> spec_accepts Map.empty (map snd es) \<and> foldl spec_step Map.empty (map snd es) \<subseteq>\<^sub>m scull_byte (st_dev s')"
  using assms
proof (induction rule: scull_run.induct)
  case (run_snoc s es s1 e s2)
  then have "scull_step s1 (True, snd e) s2" by (cases e) auto
  with run_snoc scull_step_refines [of s1 "snd e" s2 "foldl spec_step Map.empty (map snd es)"] show ?case
    by (simp add: spec_accepts_append)
qed simp

definition state_ex :: scull_state where
  "state_ex = \<lparr>st_params = scull_params_init, st_dev = dev_ex\<lparr>sd_data := [], sd_size := 0\<rparr>, st_pos = (\<lambda>_. 0)\<rparr>"

theorem scull_run_refines_witness:
  "\<exists>s'. scull_run state_ex [(True, Wrote 0 [5, 6]), (True, Silent), (True, Fetched 0 [5, 6])] s' \<and> scull_inv s' \<and>
     spec_accepts Map.empty [Wrote 0 [5, 6], Silent, Fetched 0 [5, 6]] \<and> scull_byte (st_dev s') 1 = Some 6"
proof -
  let ?d = "\<lparr>sd_data = [], sd_quantum = 4, sd_qset = 2, sd_size = 0, sd_access_key = 0, sd_lock = False\<rparr>"
  define d1 where "d1 = \<lparr>sd_data = [\<lparr>qs_addr = 100, qs_data = Some (101, [Some (102, [5, 6, 7, 7]), None])\<rparr>],
     sd_quantum = 4, sd_qset = 2, sd_size = 2, sd_access_key = 0, sd_lock = False\<rparr>"
  define s1 where "s1 = state_ex\<lparr>st_dev := d1, st_pos := (\<lambda>_. 0)(0 := 2)\<rparr>"
  have w: "scull_write km_ex False 0 ?d [5, 6] 0 = Done (d1, 2, Inr 2)"
    by (simp add: d1_def scull_write_def scull_write_locked_def scull_locate_def scull_follow_def write_array_def
      arr_get_def write_quantum_def write_copy_def km_ex_def width_simps mem_write_def Let_def new_qset_def
      set_quantum_def unlock_dev_def numeral_2_eq_2 numeral_eq_Suc)
  have r: "scull_read km_ex False 0 d1 2 0 = Done (d1, 2, Inr 2, [5, 6])"
    by (simp add: d1_def scull_read_def scull_read_locked_def scull_locate_def scull_follow_def
      arr_get_def read_copy_def width_simps mem_read_def Let_def unlock_dev_def)
  have ok: "pos_ok ?d 0" "pos_ok d1 0" by (simp_all add: pos_ok_def d1_def)
  have e: "st_dev state_ex = ?d" "st_pos state_ex 0 = 0" by (simp_all add: state_ex_def dev_ex_def)
  have "scull_step state_ex (True, Wrote 0 [5, 6]) s1"
    using step_write [of km_ex False 0 state_ex "[5, 6]" 0 d1 2 "Inr 2"] w ok e
    by (simp add: s1_def write_event_def state_ex_def)
  moreover have "scull_step s1 (True, Silent) (s1\<lparr>st_pos := (st_pos s1)(0 := 0)\<rparr>)"
    by (rule step_llseek [of _ _ 0 0]) (simp add: scull_llseek_def)
  moreover have "\<exists>s'. scull_step (s1\<lparr>st_pos := (st_pos s1)(0 := 0)\<rparr>) (True, Fetched 0 [5, 6]) s' \<and> st_dev s' = d1"
    using step_read [of 2 km_ex False 0 "s1\<lparr>st_pos := (st_pos s1)(0 := 0)\<rparr>" 0 d1 2 "Inr 2" "[5, 6]"] r ok
    by (intro exI) (auto simp: s1_def)
  ultimately obtain s' where run: "scull_run state_ex [(True, Wrote 0 [5, 6]), (True, Silent), (True, Fetched 0 [5, 6])] s'" and d': "st_dev s' = d1"
    using run_snoc [OF run_snoc [OF run_snoc [OF run_nil]]] by fastforce
  have "scull_inv state_ex" by (simp add: scull_inv_def e scull_wf_def)
  from scull_run_refines [OF run _ this] have "scull_inv s'" "spec_accepts Map.empty [Wrote 0 [5, 6], Silent, Fetched 0 [5, 6]]"
    by (auto simp: e)
  moreover have "scull_byte d1 1 = Some 6" by (simp add: scull_byte_def scull_block_def d1_def)
  ultimately show ?thesis using run d' by blast
qed

end
