(* ===== verification/Scull_Access.thy ===== *)
theory Scull_Access
  imports Scull_Ctl
begin

text \<open>
  The access-controlled devices of scull (\<^verbatim>\<open>ldd/scull/access.c\<close>). They share the bare device's data and
  differ in \<open>open\<close> and \<open>release\<close>: a device that one process may hold at a time, two devices that belong
  to a user while they are open (one refuses other users, the other makes them wait), and one with a
  private copy per controlling terminal. The first is examined at the granularity of its atomic
  counter; the two owned devices share the contract \<open>owned_device\<close>.
\<close>

section \<open>The single-open device\<close>

record s_state =
  scull_s_available :: int
  scull_s_device :: scull_dev

definition atomic_dec_and_test :: "int \<Rightarrow> int \<times> bool" where
  "atomic_dec_and_test v = (v - 1, v - 1 = 0)"

definition atomic_inc :: "int \<Rightarrow> int" where
  "atomic_inc v = v + 1"

text \<open>What all four open methods copy from the bare device: emptying it for a writer, without its mutex.\<close>

definition trim_if_wronly :: "scull_params \<Rightarrow> int \<Rightarrow> scull_dev \<Rightarrow> (scull_dev \<times> addr list) exec" where
  "trim_if_wronly g f_flags d = (if f_flags AND O_ACCMODE = O_WRONLY then scull_trim g d else Done (d, []))"

definition scull_s_open :: "scull_params \<Rightarrow> int \<Rightarrow> s_state \<Rightarrow> (s_state \<times> unit ret \<times> addr list) exec" where
  "scull_s_open g f_flags s =
     (case atomic_dec_and_test (scull_s_available s) of
        (v, zero) \<Rightarrow>
          if \<not> zero then Done (s\<lparr>scull_s_available := atomic_inc v\<rparr>, Inl EBUSY, [])
          else kbind (trim_if_wronly g f_flags (scull_s_device s)) (\<lambda>(d, freed).
            Done (s\<lparr>scull_s_available := v, scull_s_device := d\<rparr>, Inr (), freed)))"

definition scull_s_release :: "s_state \<Rightarrow> s_state \<times> unit ret" where
  "scull_s_release s = (s\<lparr>scull_s_available := atomic_inc (scull_s_available s)\<rparr>, Inr ())"

section \<open>The devices that belong to a user\<close>

text \<open>The credentials of the calling process: \<open>current_uid\<close>, \<open>current_euid\<close>, \<open>CAP_DAC_OVERRIDE\<close>.\<close>

record cred =
  c_uid :: int
  c_euid :: int
  c_dac :: bool

record u_state =
  scull_u_count :: int
  scull_u_owner :: int
  scull_u_device :: scull_dev

definition scull_u_open :: "scull_params \<Rightarrow> cred \<Rightarrow> int \<Rightarrow> u_state \<Rightarrow> (u_state \<times> unit ret \<times> addr list) exec" where
  "scull_u_open g c f_flags s =
     (if scull_u_count s \<noteq> 0 \<and> scull_u_owner s \<noteq> c_uid c \<and> scull_u_owner s \<noteq> c_euid c \<and> \<not> c_dac c
      then Done (s, Inl EBUSY, [])
      else let s = (if scull_u_count s = 0 then s\<lparr>scull_u_owner := c_uid c\<rparr> else s);
               s = s\<lparr>scull_u_count := scull_u_count s + 1\<rparr> in
      kbind (trim_if_wronly g f_flags (scull_u_device s)) (\<lambda>(d, freed).
        Done (s\<lparr>scull_u_device := d\<rparr>, Inr (), freed)))"

definition scull_u_release :: "u_state \<Rightarrow> u_state \<times> unit ret" where
  "scull_u_release s = (s\<lparr>scull_u_count := scull_u_count s - 1\<rparr>, Inr ())"

record w_state =
  scull_w_count :: int
  scull_w_owner :: int
  scull_w_device :: scull_dev

definition scull_w_available :: "cred \<Rightarrow> w_state \<Rightarrow> bool" where
  "scull_w_available c s \<longleftrightarrow>
     scull_w_count s = 0 \<or> scull_w_owner s = c_uid c \<or> scull_w_owner s = c_euid c \<or> c_dac c"

text \<open>
  The wait of \<open>scull_w_open\<close>. An entry of the script is an awakening: by a signal, or with the state that
  the process finds when it has the spin lock again. The wait ends with the lock held, with an error, or
  not at all.
\<close>

datatype w_wake = WSignal | WResumed w_state

datatype w_waited = WAsleep w_state | WGaveUp w_state errno | WHolding w_state

fun w_wait :: "cred \<Rightarrow> bool \<Rightarrow> w_wake list \<Rightarrow> w_state \<Rightarrow> w_waited" where
  "w_wait c nonblock ws s =
     (if scull_w_available c s then WHolding s
      else if nonblock then WGaveUp s EAGAIN
      else (case ws of
              [] \<Rightarrow> WAsleep s
            | WSignal # _ \<Rightarrow> WGaveUp s ERESTARTSYS
            | WResumed s' # ws' \<Rightarrow> w_wait c nonblock ws' s'))"

declare w_wait.simps [simp del]

lemma w_wait_simps [simp]:
  "w_wait c nonblock [] s =
     (if scull_w_available c s then WHolding s else if nonblock then WGaveUp s EAGAIN else WAsleep s)"
  "w_wait c nonblock (WSignal # ws) s =
     (if scull_w_available c s then WHolding s else if nonblock then WGaveUp s EAGAIN else WGaveUp s ERESTARTSYS)"
  "w_wait c nonblock (WResumed s' # ws) s =
     (if scull_w_available c s then WHolding s else if nonblock then WGaveUp s EAGAIN else w_wait c nonblock ws s')"
  by (simp_all add: w_wait.simps [of c nonblock "[]"] w_wait.simps [of c nonblock "_ # _"])

datatype w_result = WBlocked w_state | WReturned w_state "unit ret" "addr list"

definition scull_w_open ::
  "scull_params \<Rightarrow> cred \<Rightarrow> bool \<Rightarrow> int \<Rightarrow> w_wake list \<Rightarrow> w_state \<Rightarrow> w_result exec" where
  "scull_w_open g c nonblock f_flags ws s =
     (case w_wait c nonblock ws s of
        WAsleep s \<Rightarrow> Done (WBlocked s)
      | WGaveUp s e \<Rightarrow> Done (WReturned s (Inl e) [])
      | WHolding s \<Rightarrow>
          let s = (if scull_w_count s = 0 then s\<lparr>scull_w_owner := c_uid c\<rparr> else s);
              s = s\<lparr>scull_w_count := scull_w_count s + 1\<rparr> in
          kbind (trim_if_wronly g f_flags (scull_w_device s)) (\<lambda>(d, freed).
            Done (WReturned (s\<lparr>scull_w_device := d\<rparr>) (Inr ()) freed)))"

text \<open>The last component says whether the sleepers are woken.\<close>

definition scull_w_release :: "w_state \<Rightarrow> w_state \<times> unit ret \<times> bool" where
  "scull_w_release s =
     (let s = s\<lparr>scull_w_count := scull_w_count s - 1\<rparr>; temp = scull_w_count s in (s, Inr (), temp = 0))"

section \<open>The private device\<close>

record scull_listitem =
  li_addr :: addr
  li_device :: scull_dev
  li_key :: int

text \<open>A device structure that \<open>memset\<close> has cleared.\<close>

definition zero_dev :: scull_dev where
  "zero_dev = \<lparr>sd_data = [], sd_quantum = 0, sd_qset = 0, sd_size = 0, sd_access_key = 0, sd_lock = False\<rparr>"

text \<open>
  The returned pointer is the position of the item in the list, \<open>None\<close> is \<open>NULL\<close>. The size of the
  item depends on the kernel's own structures and is a parameter.
\<close>

fun find_key :: "int \<Rightarrow> scull_listitem list \<Rightarrow> nat option" where
  "find_key key [] = None"
| "find_key key (l # ls) = (if li_key l = key then Some 0 else map_option Suc (find_key key ls))"

definition scull_c_lookfor_device ::
  "kmalloc \<Rightarrow> int \<Rightarrow> scull_params \<Rightarrow> int \<Rightarrow> scull_listitem list \<Rightarrow> (scull_listitem list \<times> nat option) exec" where
  "scull_c_lookfor_device km sizeof_item g key ls =
     (case find_key key ls of
        Some i \<Rightarrow> Done (ls, Some i)
      | None \<Rightarrow>
          (case km 0 sizeof_item of
             None \<Rightarrow> Done (ls, None)
           | Some (a, _) \<Rightarrow>
               kbind (scull_trim g zero_dev) (\<lambda>(d, freed).
                 Done (\<lparr>li_addr = a, li_device = d, li_key = key\<rparr> # ls, Some 0))))"

text \<open>
  \<open>tty\<close> is the device number of the controlling terminal of the process, if it has one. On success the
  result carries the position of the item whose device the file now refers to.
\<close>

definition scull_c_open ::
  "kmalloc \<Rightarrow> int \<Rightarrow> scull_params \<Rightarrow> int option \<Rightarrow> int \<Rightarrow> scull_listitem list \<Rightarrow>
     (scull_listitem list \<times> nat ret \<times> addr list) exec" where
  "scull_c_open km sizeof_item g tty f_flags ls =
     (case tty of
        None \<Rightarrow> Done (ls, Inl EINVAL, [])
      | Some key \<Rightarrow>
          kbind (scull_c_lookfor_device km sizeof_item g key ls) (\<lambda>(ls, dev).
            case dev of
              None \<Rightarrow> Done (ls, Inl ENOMEM, [])
            | Some i \<Rightarrow>
                kbind (trim_if_wronly g f_flags (li_device (ls ! i))) (\<lambda>(d, freed).
                  Done (ls[i := (ls ! i)\<lparr>li_device := d\<rparr>], Inr i, freed))))"

definition scull_c_release :: "scull_listitem list \<Rightarrow> scull_listitem list \<times> unit ret" where
  "scull_c_release ls = (ls, Inr ())"

section \<open>Mutual exclusion on the single-open device\<close>

text \<open>
  The processes between the atomic operations of \<open>scull_s_open\<close> and \<open>scull_s_release\<close>: one that has
  not got the device and has still to put the counter back is \<open>SFailing\<close>, one that has it open is
  \<open>SHolding\<close>.
\<close>

datatype s_pc = SIdle | SFailing | SHolding

inductive s_step :: "int \<times> (nat \<Rightarrow> s_pc) \<Rightarrow> int \<times> (nat \<Rightarrow> s_pc) \<Rightarrow> bool" where
  s_get: "pc p = SIdle \<Longrightarrow> atomic_dec_and_test v = (v', True) \<Longrightarrow> s_step (v, pc) (v', pc(p := SHolding))"
| s_miss: "pc p = SIdle \<Longrightarrow> atomic_dec_and_test v = (v', False) \<Longrightarrow> s_step (v, pc) (v', pc(p := SFailing))"
| s_undo: "pc p = SFailing \<Longrightarrow> s_step (v, pc) (atomic_inc v, pc(p := SIdle))"
| s_close: "pc p = SHolding \<Longrightarrow> s_step (v, pc) (atomic_inc v, pc(p := SIdle))"

inductive_cases s_stepE: "s_step (v, pc) (v', pc')"

definition s_inv :: "int \<times> (nat \<Rightarrow> s_pc) \<Rightarrow> bool" where
  "s_inv = (\<lambda>(v, pc). finite {p. pc p \<noteq> SIdle} \<and> v = 1 - int (card {p. pc p \<noteq> SIdle}) \<and>
     card {p. pc p = SHolding} \<le> 1)"

lemma busy_upd:
  "{p. (pc(q := x)) p \<noteq> SIdle} = (if x = SIdle then {p. pc p \<noteq> SIdle} - {q} else insert q {p. pc p \<noteq> SIdle})"
  by auto

lemma holding_upd:
  "{p. (pc(q := x)) p = SHolding} =
     (if x = SHolding then insert q {p. pc p = SHolding} else {p. pc p = SHolding} - {q})"
  by auto

lemma holding_finite: "finite {p. pc p \<noteq> SIdle} \<Longrightarrow> finite {p. pc p = SHolding}"
  by (rule rev_finite_subset) auto

lemma busy_pos: "finite {p. pc p \<noteq> SIdle} \<Longrightarrow> pc p \<noteq> SIdle \<Longrightarrow> 0 < card {p. pc p \<noteq> SIdle}"
  by (auto simp: card_gt_0_iff)

lemma s_step_inv: "s_step st st' \<Longrightarrow> s_inv st \<Longrightarrow> s_inv st'"
proof (induction rule: s_step.induct)
  case (s_get pc p v v')
  then have e: "{p. pc p \<noteq> SIdle} = {}" "v = 1" "v' = 0"
    by (auto simp: s_inv_def atomic_dec_and_test_def)
  then have "{p. pc p = SHolding} = {}" by force
  with e show ?case unfolding s_inv_def prod.case busy_upd holding_upd by simp
next
  case (s_miss pc p v v')
  then show ?case
    unfolding s_inv_def prod.case busy_upd holding_upd
    by (auto simp: atomic_dec_and_test_def card_insert_if holding_finite)
next
  case (s_undo pc p v)
  then have "0 < card {p. pc p \<noteq> SIdle}" by (intro busy_pos [of pc p]) (auto simp: s_inv_def)
  with s_undo show ?case
    unfolding s_inv_def prod.case busy_upd holding_upd
    by (auto simp: atomic_inc_def card_Diff_singleton_if holding_finite)
next
  case (s_close pc p v)
  then have "0 < card {p. pc p \<noteq> SIdle}" by (intro busy_pos [of pc p]) (auto simp: s_inv_def)
  with s_close show ?case
    unfolding s_inv_def prod.case busy_upd holding_upd
    by (auto simp: atomic_inc_def card_Diff_singleton_if holding_finite)
qed

definition s_start :: "int \<times> (nat \<Rightarrow> s_pc)" where
  "s_start = (1, \<lambda>_. SIdle)"

text \<open>
  C8. However any number of processes interleave the atomic operations of opening and closing the
  single-open device, at most one of them has it open; and the counter accounts for all of them.
\<close>

theorem scull_single_exclusive:
  assumes "s_step\<^sup>*\<^sup>* s_start (v, pc)" and "pc p = SHolding" and "pc q = SHolding"
  shows "p = q"
proof -
  from assms(1) have "s_inv (v, pc)"
  proof (induction rule: rtranclp_induct)
    case base
    then show ?case by (simp add: s_start_def s_inv_def)
  next
    case (step st st')
    then show ?case using s_step_inv by blast
  qed
  then have "finite {p. pc p = SHolding}" "card {p. pc p = SHolding} \<le> 1"
    using holding_finite by (auto simp: s_inv_def)
  with assms(2,3) show ?thesis by (auto simp: card_le_Suc0_iff_eq)
qed

theorem scull_single_exclusive_witness:
  "\<exists>pc. s_step\<^sup>*\<^sup>* s_start (0, pc) \<and> pc 3 = SHolding \<and> pc 4 \<noteq> SHolding"
proof -
  let ?pc = "(\<lambda>_. SIdle)(3 := SHolding)"
  have "s_step s_start (0, ?pc)"
    unfolding s_start_def by (rule s_get) (simp_all add: atomic_dec_and_test_def)
  then have "s_step\<^sup>*\<^sup>* s_start (0, ?pc)" by blast
  from this scull_single_exclusive [OF this, of 3 4] show ?thesis by (intro exI [of _ ?pc]) auto
qed

text \<open>
  A refused process may still be in the window before it puts the counter back. In that window the
  device can be closed and refuse a third process with \<open>EBUSY\<close> although nobody has it open.
\<close>

theorem scull_single_spurious_busy:
  "\<exists>v pc. s_step\<^sup>*\<^sup>* s_start (v, pc) \<and> (\<forall>p. pc p \<noteq> SHolding) \<and>
     (\<forall>g flags d. \<exists>s'. scull_s_open g flags \<lparr>scull_s_available = v, scull_s_device = d\<rparr> = Done (s', Inl EBUSY, []))"
proof -
  let ?i = "(\<lambda>_. SIdle) :: nat \<Rightarrow> s_pc"
  have "s_step s_start (0, ?i(0 := SHolding))"
    unfolding s_start_def by (rule s_get) (simp_all add: atomic_dec_and_test_def)
  moreover have "s_step (0, ?i(0 := SHolding)) (-1, ?i(0 := SHolding, 1 := SFailing))"
    by (rule s_miss) (simp_all add: atomic_dec_and_test_def)
  moreover have "s_step (-1, ?i(0 := SHolding, 1 := SFailing)) (atomic_inc (-1), ?i(0 := SHolding, 1 := SFailing, 0 := SIdle))"
    by (rule s_close) simp
  ultimately have "s_step\<^sup>*\<^sup>* s_start (0, ?i(0 := SHolding, 1 := SFailing, 0 := SIdle))"
    unfolding atomic_inc_def by (auto intro: converse_rtranclp_into_rtranclp)
  moreover have "scull_s_open g flags \<lparr>scull_s_available = 0, scull_s_device = d\<rparr> =
      Done (\<lparr>scull_s_available = 0, scull_s_device = d\<rparr>, Inl EBUSY, [])" for g flags d
    by (simp add: scull_s_open_def atomic_dec_and_test_def atomic_inc_def)
  ultimately show ?thesis
    by (intro exI [of _ 0] exI [of _ "?i(0 := SHolding, 1 := SFailing, 0 := SIdle)"]) auto
qed

section \<open>One owner at a time\<close>

definition admitted :: "cred \<Rightarrow> int \<Rightarrow> bool" where
  "admitted c owner \<longleftrightarrow> c_uid c = owner \<or> c_euid c = owner \<or> c_dac c"

locale owned_device =
  fixes users :: "'s \<Rightarrow> int"
    and owner :: "'s \<Rightarrow> int"
    and enter :: "cred \<Rightarrow> 's \<Rightarrow> 's \<Rightarrow> bool"
    and leave :: "'s \<Rightarrow> 's"
  assumes enter_admits: "enter c s s' \<Longrightarrow> (users s = 0 \<or> admitted c (owner s)) \<and> users s' = users s + 1 \<and>
      owner s' = (if users s = 0 then c_uid c else owner s)"
    and leave_one: "users (leave s) = users s - 1 \<and> owner (leave s) = owner s"
begin

text \<open>\<open>fs\<close> are the credentials with which the open files were opened.\<close>

definition ownership :: "'s \<Rightarrow> cred list \<Rightarrow> bool" where
  "ownership s fs \<longleftrightarrow> users s = int (length fs) \<and> (\<forall>c \<in> set fs. admitted c (owner s))"

lemma ownership_enter: "enter c s s' \<Longrightarrow> ownership s fs \<Longrightarrow> ownership s' (c # fs)"
  using enter_admits [of c s s'] by (auto simp: ownership_def admitted_def split: if_splits)

lemma ownership_leave:
  assumes "c \<in> set fs" and "ownership s fs"
  shows "ownership (leave s) (remove1 c fs)"
proof -
  obtain as bs where "fs = as @ c # bs" "remove1 c fs = as @ bs"
    using assms(1) by (metis remove1_split)
  then show ?thesis using assms(2) leave_one [of s] by (auto simp: ownership_def)
qed

lemma unprivileged_share:
  "ownership s fs \<Longrightarrow> c \<in> set fs \<Longrightarrow> \<not> c_dac c \<Longrightarrow> owner s \<in> {c_uid c, c_euid c}"
  by (auto simp: ownership_def admitted_def)

end

lemma trim_if_wronly_unlocked: "scull_wf d \<Longrightarrow> is_done (trim_if_wronly g flags d)"
  using trim_items_blocks by (auto simp: trim_if_wronly_def scull_trim_def scull_wf_def is_done_iff)

interpretation u_dev: owned_device scull_u_count scull_u_owner
  "\<lambda>c s s'. \<exists>g flags freed. scull_u_open g c flags s = Done (s', Inr (), freed)"
  "\<lambda>s. fst (scull_u_release s)"
  by unfold_locales
    (auto simp: scull_u_open_def scull_u_release_def admitted_def exec_simps Let_def split: if_splits)

interpretation w_dev: owned_device scull_w_count scull_w_owner
  "\<lambda>c s s'. \<exists>g nonblock flags freed. scull_w_open g c nonblock flags [] s = Done (WReturned s' (Inr ()) freed)"
  "\<lambda>s. fst (scull_w_release s)"
  by unfold_locales
    (auto simp: scull_w_open_def scull_w_release_def scull_w_available_def admitted_def exec_simps Let_def split: if_splits)


text \<open>
  The two devices at work: the state, and the credentials with which the open files were opened. A
  waiting \<open>scull_w_open\<close> makes its step when it finally gets in.
\<close>

inductive u_step :: "u_state \<times> cred list \<Rightarrow> u_state \<times> cred list \<Rightarrow> bool" where
  u_opened: "scull_u_open g c flags s = Done (s', Inr (), freed) \<Longrightarrow> u_step (s, fs) (s', c # fs)"
| u_refused: "scull_u_open g c flags s = Done (s', Inl e, freed) \<Longrightarrow> u_step (s, fs) (s', fs)"
| u_closed: "c \<in> set fs \<Longrightarrow> scull_u_release s = (s', r) \<Longrightarrow> u_step (s, fs) (s', remove1 c fs)"

inductive w_step :: "w_state \<times> cred list \<Rightarrow> w_state \<times> cred list \<Rightarrow> bool" where
  w_opened: "scull_w_open g c nonblock flags [] s = Done (WReturned s' (Inr ()) freed) \<Longrightarrow> w_step (s, fs) (s', c # fs)"
| w_refused: "scull_w_open g c nonblock flags [] s = Done (WReturned s' (Inl e) freed) \<Longrightarrow> w_step (s, fs) (s', fs)"
| w_closed: "c \<in> set fs \<Longrightarrow> scull_w_release s = (s', r, woken) \<Longrightarrow> w_step (s, fs) (s', remove1 c fs)"

lemma u_step_owned:
  assumes "u_step a b" and "u_dev.ownership (fst a) (snd a)"
  shows "u_dev.ownership (fst b) (snd b)"
  using assms
proof (cases rule: u_step.cases)
  case (u_opened g c flags s s' freed fs)
  then show ?thesis using u_dev.ownership_enter [of c s s' fs] assms(2) by auto
next
  case (u_refused g c flags s s' e freed fs)
  then have "s' = s" by (auto simp: scull_u_open_def exec_simps Let_def split: if_splits)
  then show ?thesis using u_refused assms(2) by simp
next
  case (u_closed c fs s s' r)
  then show ?thesis using u_dev.ownership_leave [of c fs s] assms(2) by simp
qed

lemma w_step_owned:
  assumes "w_step a b" and "w_dev.ownership (fst a) (snd a)"
  shows "w_dev.ownership (fst b) (snd b)"
  using assms
proof (cases rule: w_step.cases)
  case (w_opened g c nonblock flags s s' freed fs)
  then show ?thesis using w_dev.ownership_enter [of c s s' fs] assms(2) by auto
next
  case (w_refused g c nonblock flags s s' e freed fs)
  then have "s' = s" by (auto simp: scull_w_open_def exec_simps Let_def split: if_splits)
  then show ?thesis using w_refused assms(2) by simp
next
  case (w_closed c fs s s' r woken)
  then show ?thesis using w_dev.ownership_leave [of c fs s] assms(2) by simp
qed

text \<open>
  While \<^verbatim>\<open>sculluid\<close> or \<^verbatim>\<open>scullwuid\<close> is open, all its files belong to one user: whatever opens and
  closes have happened, the count is the number of open files, and every open file that was opened without
  \<open>CAP_DAC_OVERRIDE\<close> was opened by a process whose real or effective user is the owner.
\<close>

theorem scull_owned_by_one_user:
  assumes "u_step\<^sup>*\<^sup>* (s, []) (s', fs)" and "scull_u_count s = 0"
    and "w_step\<^sup>*\<^sup>* (t, []) (t', gs)" and "scull_w_count t = 0"
  shows "scull_u_count s' = int (length fs) \<and> (\<forall>c \<in> set fs. \<not> c_dac c \<longrightarrow> scull_u_owner s' \<in> {c_uid c, c_euid c}) \<and>
    scull_w_count t' = int (length gs) \<and> (\<forall>c \<in> set gs. \<not> c_dac c \<longrightarrow> scull_w_owner t' \<in> {c_uid c, c_euid c})"
proof -
  have "u_dev.ownership (fst b) (snd b)" if "u_step\<^sup>*\<^sup>* (s, []) b" for b
    using that assms(2) u_step_owned by (induction rule: rtranclp_induct) (auto simp: u_dev.ownership_def)
  moreover have "w_dev.ownership (fst b) (snd b)" if "w_step\<^sup>*\<^sup>* (t, []) b" for b
    using that assms(4) w_step_owned by (induction rule: rtranclp_induct) (auto simp: w_dev.ownership_def)
  ultimately have "u_dev.ownership s' fs" "w_dev.ownership t' gs" using assms(1,3) by fastforce+
  then show ?thesis
    using u_dev.unprivileged_share [of s' fs] w_dev.unprivileged_share [of t' gs]
    unfolding u_dev.ownership_def w_dev.ownership_def by blast
qed

definition alice :: cred where
  "alice = \<lparr>c_uid = 1000, c_euid = 1000, c_dac = False\<rparr>"

theorem scull_owned_by_one_user_witness:
  "\<exists>s' t'. u_step\<^sup>*\<^sup>* (\<lparr>scull_u_count = 0, scull_u_owner = 0, scull_u_device = dev_ex\<rparr>, []) (s', [alice]) \<and>
     w_step\<^sup>*\<^sup>* (\<lparr>scull_w_count = 0, scull_w_owner = 0, scull_w_device = dev_ex\<rparr>, []) (t', [alice]) \<and>
     scull_u_count s' = 1 \<and> scull_u_owner s' = 1000 \<and> scull_w_owner t' = 1000"
proof -
  let ?s = "\<lparr>scull_u_count = 0, scull_u_owner = 0, scull_u_device = dev_ex\<rparr>"
  let ?t = "\<lparr>scull_w_count = 0, scull_w_owner = 0, scull_w_device = dev_ex\<rparr>"
  obtain s' where "scull_u_open scull_params_init alice 0 ?s = Done (s', Inr (), [])"
    by (simp add: scull_u_open_def trim_if_wronly_def O_WRONLY_def)
  then have u: "u_step\<^sup>*\<^sup>* (?s, []) (s', [alice])" using u_opened by blast
  obtain t' where "scull_w_open scull_params_init alice False 0 [] ?t = Done (WReturned t' (Inr ()) [])"
    by (simp add: scull_w_open_def scull_w_available_def trim_if_wronly_def O_WRONLY_def)
  then have w: "w_step\<^sup>*\<^sup>* (?t, []) (t', [alice])" using w_opened by blast
  from scull_owned_by_one_user [OF u _ w] u w show ?thesis by (auto simp: alice_def)
qed

text \<open>
  C15. The blocking open: it is asleep, or has given up, only in a state in which the caller may not have
  the device; when it succeeds, the caller was admitted in the state it entered from. A release wakes
  the sleepers exactly when the device has become available to every user.
\<close>

theorem scull_w_open_waits:
  assumes "scull_w_open g c nonblock flags ws s = Done res" and "scull_w_release u = (u', r, woken)"
  shows "(case res of
      WBlocked s' \<Rightarrow> \<not> scull_w_available c s' \<and> \<not> nonblock
    | WReturned s' (Inl e) freed \<Rightarrow> \<not> scull_w_available c s' \<and> e = (if nonblock then EAGAIN else ERESTARTSYS)
    | WReturned s' (Inr _) freed \<Rightarrow> (\<exists>s0. (s0 = s \<or> WResumed s0 \<in> set ws) \<and> scull_w_available c s0 \<and>
        scull_w_count s' = scull_w_count s0 + 1 \<and>
        scull_w_owner s' = (if scull_w_count s0 = 0 then c_uid c else scull_w_owner s0))) \<and>
    (woken \<longleftrightarrow> (\<forall>c. scull_w_available c u'))"
proof
  have w: "case w_wait c nonblock ws s of
      WAsleep s' \<Rightarrow> \<not> scull_w_available c s' \<and> \<not> nonblock
    | WGaveUp s' e \<Rightarrow> \<not> scull_w_available c s' \<and> e = (if nonblock then EAGAIN else ERESTARTSYS)
    | WHolding s' \<Rightarrow> (s' = s \<or> WResumed s' \<in> set ws) \<and> scull_w_available c s'"
  proof (induction ws arbitrary: s)
    case (Cons a ws)
    show ?case
    proof (cases a)
      case (WResumed s')
      then show ?thesis
        using Cons.IH [of s'] by (cases nonblock; cases "w_wait c nonblock ws s'") auto
    qed simp
  qed simp
  show "case res of
      WBlocked s' \<Rightarrow> \<not> scull_w_available c s' \<and> \<not> nonblock
    | WReturned s' (Inl e) freed \<Rightarrow> \<not> scull_w_available c s' \<and> e = (if nonblock then EAGAIN else ERESTARTSYS)
    | WReturned s' (Inr _) freed \<Rightarrow> (\<exists>s0. (s0 = s \<or> WResumed s0 \<in> set ws) \<and> scull_w_available c s0 \<and>
        scull_w_count s' = scull_w_count s0 + 1 \<and>
        scull_w_owner s' = (if scull_w_count s0 = 0 then c_uid c else scull_w_owner s0))"
  proof (cases "w_wait c nonblock ws s")
    case (WHolding s0)
    with assms(1) obtain s' freed where "res = WReturned s' (Inr ()) freed"
      "scull_w_count s' = scull_w_count s0 + 1"
      "scull_w_owner s' = (if scull_w_count s0 = 0 then c_uid c else scull_w_owner s0)"
      by (auto simp: scull_w_open_def exec_simps Let_def split: if_splits)
    with w WHolding show ?thesis by auto
  qed (use assms(1) w in \<open>auto simp: scull_w_open_def\<close>)
  have "\<not> scull_w_available \<lparr>c_uid = scull_w_owner u' + 1, c_euid = scull_w_owner u' + 1, c_dac = False\<rparr> u'"
    if "scull_w_count u' \<noteq> 0" using that by (simp add: scull_w_available_def)
  moreover have "woken \<longleftrightarrow> scull_w_count u' = 0" using assms(2) by (auto simp: scull_w_release_def Let_def)
  moreover have "scull_w_count u' = 0 \<Longrightarrow> \<forall>c. scull_w_available c u'" by (simp add: scull_w_available_def)
  ultimately show "woken \<longleftrightarrow> (\<forall>c. scull_w_available c u')" by blast
qed

theorem scull_w_open_waits_witness:
  "\<not> scull_w_available alice \<lparr>scull_w_count = 1, scull_w_owner = 7, scull_w_device = dev_ex\<rparr> \<and>
   scull_w_open scull_params_init alice True 0 [] \<lparr>scull_w_count = 1, scull_w_owner = 7, scull_w_device = dev_ex\<rparr> =
     Done (WReturned \<lparr>scull_w_count = 1, scull_w_owner = 7, scull_w_device = dev_ex\<rparr> (Inl EAGAIN) [])"
proof -
  let ?s = "\<lparr>scull_w_count = 1, scull_w_owner = 7, scull_w_device = dev_ex\<rparr>"
  have r: "scull_w_open scull_params_init alice True 0 [] ?s = Done (WReturned ?s (Inl EAGAIN) [])"
    by (simp add: scull_w_open_def scull_w_available_def alice_def)
  show ?thesis using scull_w_open_waits [OF r, of ?s "fst (scull_w_release ?s)" "Inr ()" True] r
    by (simp add: scull_w_release_def)
qed

section \<open>Private devices\<close>

definition priv_dev :: "scull_listitem list \<Rightarrow> int \<Rightarrow> scull_dev option" where
  "priv_dev ls key = map_option (\<lambda>i. li_device (ls ! i)) (find_key key ls)"

lemma find_key_Some:
  "find_key key ls = Some i \<Longrightarrow> i < length ls \<and> li_key (ls ! i) = key \<and> (\<forall>j<i. li_key (ls ! j) \<noteq> key)"
proof (induction ls arbitrary: i)
  case (Cons l ls)
  then show ?case by (auto split: if_splits simp: nth_Cons split: nat.splits)
qed simp

lemma find_key_None: "find_key key ls = None \<longleftrightarrow> key \<notin> li_key ` set ls"
  by (induction ls) auto

lemma find_key_upd:
  "i < length ls \<Longrightarrow> li_key l = li_key (ls ! i) \<Longrightarrow> find_key key (ls[i := l]) = find_key key ls"
  by (induction ls arbitrary: i) (auto simp: nth_Cons split: nat.splits)

text \<open>What an open that succeeds leaves.\<close>

lemma scull_c_open_effect:
  assumes "scull_c_open km sizeof_item g (Some key) flags ls = Done (ls', Inr i, freed)"
  shows "(distinct (map li_key ls) \<longrightarrow> distinct (map li_key ls')) \<and> i < length ls' \<and> li_key (ls' ! i) = key \<and>
    (\<forall>k. k \<noteq> key \<longrightarrow> priv_dev ls' k = priv_dev ls k) \<and>
    priv_dev ls' key = Some (li_device (ls' ! i)) \<and>
    li_device (ls' ! i) =
      (let old = (case priv_dev ls key of
                    Some d \<Rightarrow> d
                  | None \<Rightarrow> zero_dev\<lparr>sd_quantum := scull_quantum g, sd_qset := scull_qset_p g\<rparr>) in
       if flags AND O_ACCMODE = O_WRONLY
       then old\<lparr>sd_data := [], sd_size := 0, sd_quantum := scull_quantum g, sd_qset := scull_qset_p g\<rparr> else old)"
proof -
  have t: "trim_if_wronly g flags d = Done (d', fr) \<Longrightarrow> d' =
      (if flags AND O_ACCMODE = O_WRONLY
       then d\<lparr>sd_data := [], sd_size := 0, sd_quantum := scull_quantum g, sd_qset := scull_qset_p g\<rparr> else d)" for d d' fr
    by (auto simp: trim_if_wronly_def scull_trim_def exec_simps)
  from assms obtain ls1 d' where l: "scull_c_lookfor_device km sizeof_item g key ls = Done (ls1, Some i)"
    and tr: "trim_if_wronly g flags (li_device (ls1 ! i)) = Done (d', freed)"
    and ls': "ls' = ls1[i := (ls1 ! i)\<lparr>li_device := d'\<rparr>]"
    by (auto simp: scull_c_open_def exec_simps split: option.splits)
  have ls1: "find_key key ls1 = Some i" "distinct (map li_key ls) \<longrightarrow> distinct (map li_key ls1)" "\<forall>k. k \<noteq> key \<longrightarrow> priv_dev ls1 k = priv_dev ls k"
    "li_device (ls1 ! i) = (case priv_dev ls key of
        Some d \<Rightarrow> d | None \<Rightarrow> zero_dev\<lparr>sd_quantum := scull_quantum g, sd_qset := scull_qset_p g\<rparr>)"
    using l find_key_None [of key ls]
    by (auto simp: scull_c_lookfor_device_def priv_dev_def scull_trim_def zero_dev_def exec_simps option.map_comp o_def
      split: option.splits)
  have i: "i < length ls1" "li_key (ls1 ! i) = key" using find_key_Some [OF ls1(1)] by auto
  have fk: "find_key k ls' = find_key k ls1" for k unfolding ls' using i by (intro find_key_upd) auto
  have ne: "find_key k ls1 = Some j \<Longrightarrow> k \<noteq> key \<Longrightarrow> j \<noteq> i" for k j using find_key_Some [of k ls1 j] i by auto
  have "map li_key ls' = map li_key ls1" using i by (auto simp: ls' map_update intro: list_update_same_conv [THEN iffD2])
  then have "distinct (map li_key ls) \<longrightarrow> distinct (map li_key ls')" using ls1(2) by simp
  moreover have "priv_dev ls' k = priv_dev ls k" if "k \<noteq> key" for k
  proof -
    have "priv_dev ls' k = priv_dev ls1 k"
      unfolding priv_dev_def fk using ne [OF _ that] by (cases "find_key k ls1") (auto simp: ls')
    then show ?thesis using ls1(3) that by simp
  qed
  moreover have "li_device (ls' ! i) = d'" "li_key (ls' ! i) = key" "i < length ls'" using i by (auto simp: ls')
  moreover have "priv_dev ls' key = Some (li_device (ls' ! i))" using fk [of key] ls1(1) by (simp add: priv_dev_def)
  ultimately show ?thesis using t [OF tr] ls1(4) by (simp add: Let_def)
qed

text \<open>
  C16. Every terminal has a device of its own. An open from a terminal refers to that terminal's device:
  the one it had before, with its contents unless the open is for writing only, or a new empty one with
  the geometry of the module parameters. No other terminal's device changes, and no key ever appears
  twice.
\<close>

theorem scull_c_open_private:
  assumes "distinct (map li_key ls)" and "scull_c_open km sizeof_item g (Some key) flags ls = Done (ls', Inr i, freed)"
  shows "distinct (map li_key ls') \<and> i < length ls' \<and> li_key (ls' ! i) = key \<and>
    (\<forall>k. k \<noteq> key \<longrightarrow> priv_dev ls' k = priv_dev ls k) \<and>
    priv_dev ls' key = Some (li_device (ls' ! i)) \<and>
    li_device (ls' ! i) =
      (let old = (case priv_dev ls key of
                    Some d \<Rightarrow> d
                  | None \<Rightarrow> zero_dev\<lparr>sd_quantum := scull_quantum g, sd_qset := scull_qset_p g\<rparr>) in
       if flags AND O_ACCMODE = O_WRONLY
       then old\<lparr>sd_data := [], sd_size := 0, sd_quantum := scull_quantum g, sd_qset := scull_qset_p g\<rparr> else old)"
  using assms scull_c_open_effect by blast

theorem scull_c_open_private_witness:
  "\<exists>ls'. scull_c_open km_ex 200 scull_params_init (Some 4) 0 [\<lparr>li_addr = 9, li_device = dev_ex, li_key = 3\<rparr>] = Done (ls', Inr 0, []) \<and>
     priv_dev ls' 3 = Some dev_ex \<and> li_key (ls' ! 0) = 4"
proof -
  let ?l = "\<lparr>li_addr = 9, li_device = dev_ex, li_key = 3\<rparr>"
  obtain ls' where o: "scull_c_open km_ex 200 scull_params_init (Some 4) 0 [?l] = Done (ls', Inr 0, [])"
    by (simp add: scull_c_open_def scull_c_lookfor_device_def km_ex_def scull_trim_def zero_dev_def trim_if_wronly_def O_WRONLY_def)
  from scull_c_open_private [OF _ o] have "priv_dev ls' 3 = priv_dev [?l] 3" "li_key (ls' ! 0) = 4" by simp_all
  with o show ?thesis by (simp add: priv_dev_def)
qed

end
