(* ===== verification/Scull_Module.thy ===== *)
theory Scull_Module
  imports Scull_Pipe Scull_Access
begin

text \<open>
  Loading and unloading the scull module: \<open>scull_init_module\<close> and \<open>scull_cleanup_module\<close> of
  \<^verbatim>\<open>ldd/scull/main.c\<close> with the initialisation and cleanup of the friend devices in \<^verbatim>\<open>pipe.c\<close> and
  \<^verbatim>\<open>access.c\<close>. The kernel is observed through the calls that the module makes: the result of every
  function carries the list of these calls, in order.
\<close>

section \<open>State and observed calls\<close>

text \<open>The \<open>struct cdev\<close> of a device, by the array it is in and its index there.\<close>

datatype cdev = MainCdev nat | PipeCdev nat | AccessCdev nat

text \<open>
  The calls: a region of device numbers registered (successfully) or given back, a character device
  added under a number, or not, when \<open>cdev_add\<close> fails, the reference to its \<open>kobject\<close> dropped, the device
  deleted, a block freed.
\<close>

datatype kcall =
    RegisterRegion int int
  | UnregisterRegion int int
  | CdevAdd cdev int
  | CdevFailed cdev int
  | KobjectPut cdev
  | CdevDel cdev
  | Kfree addr

record scull_module =
  m_params :: scull_params
  m_major :: int
  m_minor :: int
  m_nr_devs :: int
  m_devices :: "scull_dev list owned"
  m_p_nr_devs :: int
  m_p_devno :: int
  m_p_devices :: "scull_pipe list owned"
  m_a_firstdev :: int
  m_a_devices :: "scull_dev list"
  m_c_list :: "scull_listitem list"

text \<open>
  What the kernel answers: the result of \<open>register_chrdev_region\<close> for a first number and a count, the
  major number that \<open>alloc_chrdev_region\<close> finds, the result of \<open>cdev_add\<close> for a number, and the addresses
  at which the two arrays of devices are allocated.
\<close>

record init_env =
  region_result :: "int \<Rightarrow> int \<Rightarrow> errno option"
  alloc_major :: "int ret"
  cdev_result :: "int \<Rightarrow> errno option"
  main_array :: "addr option"
  pipe_array :: "addr option"

definition MKDEV :: "int \<Rightarrow> int \<Rightarrow> int" where
  "MKDEV ma mi = ma * 2 ^ 20 + mi"

section \<open>Initialisation\<close>

definition cdev_add :: "init_env \<Rightarrow> cdev \<Rightarrow> int \<Rightarrow> kcall" where
  "cdev_add e c devno = (case cdev_result e devno of None \<Rightarrow> CdevAdd c devno | Some err \<Rightarrow> CdevFailed c devno)"

text \<open>The devices of the main array and the pipes only print the error.\<close>

definition scull_setup_cdev :: "init_env \<Rightarrow> scull_module \<Rightarrow> nat \<Rightarrow> kcall list" where
  "scull_setup_cdev e m index = [cdev_add e (MainCdev index) (MKDEV (m_major m) (m_minor m + int index))]"

definition scull_p_setup_cdev :: "init_env \<Rightarrow> scull_module \<Rightarrow> nat \<Rightarrow> kcall list" where
  "scull_p_setup_cdev e m index = [cdev_add e (PipeCdev index) (m_p_devno m + int index)]"

definition zero_pipe :: scull_pipe where
  "zero_pipe = \<lparr>sp_buffer = None, sp_end = 0, sp_buffersize = 0, sp_rp = 0, sp_wp = 0,
     sp_nreaders = 0, sp_nwriters = 0, sp_async = [], sp_lock = False\<rparr>"

definition scull_p_init :: "init_env \<Rightarrow> int \<Rightarrow> scull_module \<Rightarrow> scull_module \<times> int \<times> kcall list" where
  "scull_p_init e firstdev m =
     (case region_result e firstdev (m_p_nr_devs m) of
        Some err \<Rightarrow> (m, 0, [])
      | None \<Rightarrow>
          let m = m\<lparr>m_p_devno := firstdev\<rparr> in
          (case pipe_array e of
             None \<Rightarrow>
               (m\<lparr>m_p_devices := None\<rparr>, 0,
                [RegisterRegion firstdev (m_p_nr_devs m), UnregisterRegion firstdev (m_p_nr_devs m)])
           | Some a \<Rightarrow>
               (m\<lparr>m_p_devices := Some (a, replicate (nat (m_p_nr_devs m)) zero_pipe)\<rparr>, m_p_nr_devs m,
                RegisterRegion firstdev (m_p_nr_devs m) # concat (map (scull_p_setup_cdev e m) [0..<nat (m_p_nr_devs m)]))))"

definition SCULL_N_ADEVS :: int where
  "SCULL_N_ADEVS = 4"

text \<open>\<open>scull_access_setup\<close> of the device with index \<open>i\<close> in the table \<open>scull_access_devs\<close>.\<close>

definition scull_access_setup :: "init_env \<Rightarrow> int \<Rightarrow> nat \<Rightarrow> scull_module \<Rightarrow> scull_module \<times> kcall list" where
  "scull_access_setup e devno i m =
     (m\<lparr>m_a_devices := (m_a_devices m)[i := (m_a_devices m ! i)
          \<lparr>sd_quantum := scull_quantum (m_params m), sd_qset := scull_qset_p (m_params m), sd_lock := False\<rparr>]\<rparr>,
      cdev_add e (AccessCdev i) devno # (if cdev_result e devno \<noteq> None then [KobjectPut (AccessCdev i)] else []))"

fun access_setups :: "init_env \<Rightarrow> int \<Rightarrow> nat list \<Rightarrow> scull_module \<Rightarrow> scull_module \<times> kcall list" where
  "access_setups e firstdev [] m = (m, [])"
| "access_setups e firstdev (i # is) m =
     (case scull_access_setup e (firstdev + int i) i m of
        (m, t) \<Rightarrow> case access_setups e firstdev is m of (m, t') \<Rightarrow> (m, t @ t'))"

definition scull_access_init :: "init_env \<Rightarrow> int \<Rightarrow> scull_module \<Rightarrow> scull_module \<times> int \<times> kcall list" where
  "scull_access_init e firstdev m =
     (case region_result e firstdev SCULL_N_ADEVS of
        Some err \<Rightarrow> (m, 0, [])
      | None \<Rightarrow>
          (case access_setups e firstdev [0..<nat SCULL_N_ADEVS] (m\<lparr>m_a_firstdev := firstdev\<rparr>) of
             (m, t) \<Rightarrow> (m, SCULL_N_ADEVS, RegisterRegion firstdev SCULL_N_ADEVS # t)))"

section \<open>Cleanup\<close>

definition scull_p_cleanup :: "scull_module \<Rightarrow> scull_module \<times> kcall list" where
  "scull_p_cleanup m =
     (case m_p_devices m of
        None \<Rightarrow> (m, [])
      | Some (a, ps) \<Rightarrow>
          (m\<lparr>m_p_devices := None\<rparr>,
           concat (map (\<lambda>i. CdevDel (PipeCdev i) # map Kfree (owned_addr (sp_buffer (ps ! i)))) [0..<nat (m_p_nr_devs m)])
             @ [Kfree a, UnregisterRegion (m_p_devno m) (m_p_nr_devs m)]))"

text \<open>Trimming a run of devices, each followed or preceded by the deletion of its \<open>cdev\<close>.\<close>

fun clean_main :: "scull_params \<Rightarrow> nat \<Rightarrow> scull_dev list \<Rightarrow> (scull_dev list \<times> kcall list) exec" where
  "clean_main g i [] = Done ([], [])"
| "clean_main g i (d # ds) =
     kbind (scull_trim g d) (\<lambda>(d, freed).
     kbind (clean_main g (Suc i) ds) (\<lambda>(ds, t).
       Done (d # ds, map Kfree freed @ CdevDel (MainCdev i) # t)))"

fun clean_access :: "scull_params \<Rightarrow> nat \<Rightarrow> scull_dev list \<Rightarrow> (scull_dev list \<times> kcall list) exec" where
  "clean_access g i [] = Done ([], [])"
| "clean_access g i (d # ds) =
     kbind (scull_trim g d) (\<lambda>(d, freed).
     kbind (clean_access g (Suc i) ds) (\<lambda>(ds, t).
       Done (d # ds, CdevDel (AccessCdev i) # map Kfree freed @ t)))"

fun clean_cloned :: "scull_params \<Rightarrow> scull_listitem list \<Rightarrow> kcall list exec" where
  "clean_cloned g [] = Done []"
| "clean_cloned g (l # ls) =
     kbind (scull_trim g (li_device l)) (\<lambda>(d, freed).
     kbind (clean_cloned g ls) (\<lambda>t. Done (map Kfree freed @ Kfree (li_addr l) # t)))"

definition scull_access_cleanup :: "scull_module \<Rightarrow> (scull_module \<times> kcall list) exec" where
  "scull_access_cleanup m =
     kbind (clean_access (m_params m) 0 (m_a_devices m)) (\<lambda>(ds, t1).
     kbind (clean_cloned (m_params m) (m_c_list m)) (\<lambda>t2.
       Done (m\<lparr>m_a_devices := ds, m_c_list := []\<rparr>,
             t1 @ t2 @ [UnregisterRegion (m_a_firstdev m) SCULL_N_ADEVS])))"

definition scull_cleanup_module :: "scull_module \<Rightarrow> (scull_module \<times> kcall list) exec" where
  "scull_cleanup_module m =
     kbind (case m_devices m of
              None \<Rightarrow> Done (m, [])
            | Some (a, ds) \<Rightarrow>
                kbind (clean_main (m_params m) 0 ds) (\<lambda>(ds, t). Done (m\<lparr>m_devices := Some (a, ds)\<rparr>, t @ [Kfree a])))
       (\<lambda>(m, t0).
        case scull_p_cleanup m of
          (m, t1) \<Rightarrow>
            kbind (scull_access_cleanup m) (\<lambda>(m, t2).
              Done (m, t0 @ UnregisterRegion (MKDEV (m_major m) (m_minor m)) (m_nr_devs m) # t1 @ t2)))"

text \<open>
  The result of \<open>scull_init_module\<close>: the state, the value returned and the calls. The registration of the
  main region depends on whether a major number was given when the module was loaded.
\<close>

definition get_region :: "init_env \<Rightarrow> scull_module \<Rightarrow> scull_module \<times> unit ret" where
  "get_region e m =
     (if m_major m \<noteq> 0
      then (case region_result e (MKDEV (m_major m) (m_minor m)) (m_nr_devs m) of
              None \<Rightarrow> (m, Inr ()) | Some err \<Rightarrow> (m, Inl err))
      else (case alloc_major e of
              Inr ma \<Rightarrow> (m\<lparr>m_major := ma\<rparr>, Inr ()) | Inl err \<Rightarrow> (m\<lparr>m_major := 0\<rparr>, Inl err)))"

definition scull_init_module :: "init_env \<Rightarrow> scull_module \<Rightarrow> (scull_module \<times> unit ret \<times> kcall list) exec" where
  "scull_init_module e m =
     (case get_region e m of
        (m, Inl err) \<Rightarrow> Done (m, Inl err, [])
      | (m, Inr _) \<Rightarrow>
          let t0 = RegisterRegion (MKDEV (m_major m) (m_minor m)) (m_nr_devs m) in
          (case main_array e of
             None \<Rightarrow>
               kbind (scull_cleanup_module (m\<lparr>m_devices := None\<rparr>)) (\<lambda>(m, t). Done (m, Inl ENOMEM, t0 # t))
           | Some a \<Rightarrow>
               let d = zero_dev\<lparr>sd_quantum := scull_quantum (m_params m), sd_qset := scull_qset_p (m_params m)\<rparr>;
                   m = m\<lparr>m_devices := Some (a, replicate (nat (m_nr_devs m)) d)\<rparr>;
                   t1 = concat (map (scull_setup_cdev e m) [0..<nat (m_nr_devs m)]);
                   dev = MKDEV (m_major m) (m_minor m + m_nr_devs m) in
               (case scull_p_init e dev m of
                  (m, n, t2) \<Rightarrow>
                    (case scull_access_init e (dev + n) m of
                       (m, _, t3) \<Rightarrow> Done (m, Inr (), t0 # t1 @ t2 @ t3)))))"

section \<open>Reading a trace\<close>

fun sel_reg :: "kcall \<Rightarrow> (int \<times> int) list" where
  "sel_reg (RegisterRegion f n) = [(f, n)]"
| "sel_reg _ = []"

fun sel_unreg :: "kcall \<Rightarrow> (int \<times> int) list" where
  "sel_unreg (UnregisterRegion f n) = [(f, n)]"
| "sel_unreg _ = []"

fun sel_add :: "kcall \<Rightarrow> (cdev \<times> int) list" where
  "sel_add (CdevAdd d n) = [(d, n)]"
| "sel_add _ = []"

text \<open>The devices that the module has tried to add, whether or not it succeeded.\<close>

fun sel_tried :: "kcall \<Rightarrow> (cdev \<times> int) list" where
  "sel_tried (CdevAdd d n) = [(d, n)]"
| "sel_tried (CdevFailed d n) = [(d, n)]"
| "sel_tried _ = []"

fun sel_del :: "kcall \<Rightarrow> cdev list" where
  "sel_del (CdevDel d) = [d]"
| "sel_del _ = []"

fun sel_free :: "kcall \<Rightarrow> addr list" where
  "sel_free (Kfree a) = [a]"
| "sel_free _ = []"

definition select :: "(kcall \<Rightarrow> 'a list) \<Rightarrow> kcall list \<Rightarrow> 'a list" where
  "select sel t = concat (map sel t)"

lemma select_simps [simp]:
  "select sel [] = []" "select sel (c # t) = sel c @ select sel t"
  "select sel (t @ t') = select sel t @ select sel t'"
  by (simp_all add: select_def)

lemma select_concat: "select sel (concat (map f xs)) = concat (map (\<lambda>x. select sel (f x)) xs)"
  by (induction xs) simp_all

lemma sel_cdev_add [simp]:
  "sel_tried (cdev_add e c n) = [(c, n)]" "sel_reg (cdev_add e c n) = []"
  "cdev_result e n = None \<Longrightarrow> sel_add (cdev_add e c n) = [(c, n)]"
  by (auto simp: cdev_add_def split: option.split)

lemma select_cdev_add [simp]:
  "select sel_tried (map (\<lambda>i. cdev_add e (c i) (g i)) is) = map (\<lambda>i. (c i, g i)) is"
  "select sel_reg (map (\<lambda>i. cdev_add e (c i) (g i)) is) = []"
  "(\<forall>n. cdev_result e n = None) \<Longrightarrow> select sel_add (map (\<lambda>i. cdev_add e (c i) (g i)) is) = map (\<lambda>i. (c i, g i)) is"
  by (induction "is") simp_all

lemma concat_single [simp]: "concat (map (\<lambda>x. [f x]) xs) = map f xs"
  by (induction xs) simp_all

text \<open>A part of the initialisation that adds the devices \<open>ds\<close> under their numbers, and registers nothing.\<close>

definition adds :: "init_env \<Rightarrow> (cdev \<times> int) list \<Rightarrow> kcall list \<Rightarrow> bool" where
  "adds e ds t \<longleftrightarrow> select sel_tried t = ds \<and> select sel_reg t = [] \<and>
     ((\<forall>n. cdev_result e n = None) \<longrightarrow> select sel_add t = ds)"

lemma adds_setups:
  "adds e (map (\<lambda>i. (c i, g i)) is) (concat (map (\<lambda>i. [cdev_add e (c i) (g i)]) is))"
  by (simp add: adds_def)

lemma select_kfree [simp]:
  "select sel_free (map Kfree as) = as" "select sel_del (map Kfree as) = []" "select sel_unreg (map Kfree as) = []"
  by (induction as) simp_all

section \<open>Loading\<close>

definition fresh_module :: "scull_module \<Rightarrow> bool" where
  "fresh_module m \<longleftrightarrow> m_devices m = None \<and> m_p_devices m = None \<and> m_a_devices m = replicate 4 zero_dev \<and>
     m_c_list m = [] \<and> 0 \<le> m_nr_devs m \<and> 0 \<le> m_p_nr_devs m"

lemma access_setups_trace:
  "\<exists>as t. access_setups e f is m = (m\<lparr>m_a_devices := as\<rparr>, t) \<and> length as = length (m_a_devices m) \<and>
     adds e (map (\<lambda>i. (AccessCdev i, f + int i)) is) t"
proof (induction "is" arbitrary: m)
  case Nil
  show ?case by (rule exI [of _ "m_a_devices m"]) (simp add: adds_def)
next
  case (Cons i "is")
  obtain bs t where b: "scull_access_setup e (f + int i) i m = (m\<lparr>m_a_devices := bs\<rparr>, t)"
    "length bs = length (m_a_devices m)" "adds e [(AccessCdev i, f + int i)] t"
    by (simp add: scull_access_setup_def adds_def)
  from Cons [of "m\<lparr>m_a_devices := bs\<rparr>"] obtain as t' where
    "access_setups e f is (m\<lparr>m_a_devices := bs\<rparr>) = (m\<lparr>m_a_devices := as\<rparr>, t')" "length as = length (m_a_devices m)"
    "adds e (map (\<lambda>i. (AccessCdev i, f + int i)) is) t'" using b(2) by auto
  with b show ?case by (auto simp: adds_def)
qed

section \<open>Unloading\<close>

lemma trim_blocks: "scull_wf d \<Longrightarrow> \<exists>d'. scull_trim g d = Done (d', scull_blocks d)"
  using trim_items_blocks by (auto simp: scull_trim_def scull_wf_def scull_blocks_def)

lemma clean_main_trace:
  assumes "\<forall>d \<in> set ds. scull_wf d"
  shows "\<exists>ds' t. clean_main g i ds = Done (ds', t) \<and> select sel_free t = concat (map scull_blocks ds) \<and>
    select sel_del t = map MainCdev [i..<i + length ds] \<and> select sel_unreg t = []"
  using assms
proof (induction ds arbitrary: i)
  case (Cons d ds)
  obtain d' where d': "scull_trim g d = Done (d', scull_blocks d)" using trim_blocks Cons.prems by force
  from Cons.IH [of "Suc i"] Cons.prems obtain ds' t where
    "clean_main g (Suc i) ds = Done (ds', t)" "select sel_free t = concat (map scull_blocks ds)"
    "select sel_del t = map MainCdev [Suc i..<Suc i + length ds]" "select sel_unreg t = []" by auto
  moreover have "[i..<i + length (d # ds)] = i # [Suc i..<Suc i + length ds]" by (simp add: upt_conv_Cons del: upt_Suc)
  ultimately show ?case using d' by (simp del: upt_Suc)
qed simp

lemma clean_access_trace:
  assumes "\<forall>d \<in> set ds. scull_wf d"
  shows "\<exists>ds' t. clean_access g i ds = Done (ds', t) \<and> select sel_free t = concat (map scull_blocks ds) \<and>
    select sel_del t = map AccessCdev [i..<i + length ds] \<and> select sel_unreg t = []"
  using assms
proof (induction ds arbitrary: i)
  case (Cons d ds)
  obtain d' where d': "scull_trim g d = Done (d', scull_blocks d)" using trim_blocks Cons.prems by force
  from Cons.IH [of "Suc i"] Cons.prems obtain ds' t where
    "clean_access g (Suc i) ds = Done (ds', t)" "select sel_free t = concat (map scull_blocks ds)"
    "select sel_del t = map AccessCdev [Suc i..<Suc i + length ds]" "select sel_unreg t = []" by auto
  moreover have "[i..<i + length (d # ds)] = i # [Suc i..<Suc i + length ds]" by (simp add: upt_conv_Cons del: upt_Suc)
  ultimately show ?case using d' by (simp del: upt_Suc)
qed simp

lemma clean_cloned_trace:
  assumes "\<forall>l \<in> set ls. scull_wf (li_device l)"
  shows "\<exists>t. clean_cloned g ls = Done t \<and>
    select sel_free t = concat (map (\<lambda>l. scull_blocks (li_device l) @ [li_addr l]) ls) \<and>
    select sel_del t = [] \<and> select sel_unreg t = []"
  using assms
proof (induction ls)
  case (Cons l ls)
  obtain d' where "scull_trim g (li_device l) = Done (d', scull_blocks (li_device l))"
    using trim_blocks Cons.prems by force
  with Cons show ?case by force
qed simp

lemma p_cleanup_trace:
  assumes "m_p_devices m = Some (b, ps)" and "length ps = nat (m_p_nr_devs m)"
  shows "\<exists>m' t. scull_p_cleanup m = (m', t) \<and> m' = m\<lparr>m_p_devices := None\<rparr> \<and>
    select sel_free t = concat (map (\<lambda>p. owned_addr (sp_buffer p)) ps) @ [b] \<and>
    select sel_del t = map PipeCdev [0..<length ps] \<and> select sel_unreg t = [(m_p_devno m, m_p_nr_devs m)]"
proof -
  have "map (\<lambda>i. owned_addr (sp_buffer (ps ! i))) [0..<length ps] = map (\<lambda>p. owned_addr (sp_buffer p)) ps"
    by (rule nth_equalityI) simp_all
  then show ?thesis
    using assms
    by (simp add: scull_p_cleanup_def select_concat map_concat [symmetric])
qed

text \<open>A module in use: the state that its initialisation left, but for the contents of the devices.\<close>

definition in_use :: "scull_module \<Rightarrow> scull_module \<Rightarrow> bool" where
  "in_use m m2 \<longleftrightarrow>
     m_major m2 = m_major m \<and> m_minor m2 = m_minor m \<and> m_nr_devs m2 = m_nr_devs m \<and>
     m_p_nr_devs m2 = m_p_nr_devs m \<and> m_p_devno m2 = m_p_devno m \<and> m_a_firstdev m2 = m_a_firstdev m \<and>
     map_option (\<lambda>(a, ds). (a, length ds)) (m_devices m2) = map_option (\<lambda>(a, ds). (a, length ds)) (m_devices m) \<and>
     map_option (\<lambda>(a, ps). (a, length ps)) (m_p_devices m2) = map_option (\<lambda>(a, ps). (a, length ps)) (m_p_devices m) \<and>
     length (m_a_devices m2) = length (m_a_devices m)"

definition devices_wf :: "scull_module \<Rightarrow> bool" where
  "devices_wf m \<longleftrightarrow> (\<forall>a ds. m_devices m = Some (a, ds) \<longrightarrow> (\<forall>d \<in> set ds. scull_wf d)) \<and>
     (\<forall>d \<in> set (m_a_devices m). scull_wf d) \<and> (\<forall>l \<in> set (m_c_list m). scull_wf (li_device l))"

text \<open>All blocks that the module owns.\<close>

definition module_blocks :: "scull_module \<Rightarrow> addr list" where
  "module_blocks m =
     (case m_devices m of None \<Rightarrow> [] | Some (a, ds) \<Rightarrow> concat (map scull_blocks ds) @ [a]) @
     (case m_p_devices m of None \<Rightarrow> [] | Some (b, ps) \<Rightarrow> concat (map (\<lambda>p. owned_addr (sp_buffer p)) ps) @ [b]) @
     concat (map scull_blocks (m_a_devices m)) @
     concat (map (\<lambda>l. scull_blocks (li_device l) @ [li_addr l]) (m_c_list m))"

lemma cleanup_trace:
  assumes "m_devices m = Some (a, ds)" and "m_p_devices m = Some (b, ps)" and "length ps = nat (m_p_nr_devs m)"
    and "devices_wf m"
  shows "\<exists>m' t. scull_cleanup_module m = Done (m', t) \<and> select sel_free t = module_blocks m \<and>
    select sel_del t = map MainCdev [0..<length ds] @ map PipeCdev [0..<length ps] @ map AccessCdev [0..<length (m_a_devices m)] \<and>
    select sel_unreg t = [(MKDEV (m_major m) (m_minor m), m_nr_devs m), (m_p_devno m, m_p_nr_devs m), (m_a_firstdev m, SCULL_N_ADEVS)]"
proof -
  from assms(1,4) have wf: "\<forall>d \<in> set ds. scull_wf d" "\<forall>d \<in> set (m_a_devices m). scull_wf d"
    "\<forall>l \<in> set (m_c_list m). scull_wf (li_device l)" by (auto simp: devices_wf_def)
  from clean_main_trace [OF wf(1), of "m_params m" 0] obtain ds' t0 where
    m: "clean_main (m_params m) 0 ds = Done (ds', t0)" "select sel_free t0 = concat (map scull_blocks ds)"
    "select sel_del t0 = map MainCdev [0..<length ds]" "select sel_unreg t0 = []" by auto
  from clean_access_trace [OF wf(2), of "m_params m" 0] obtain as' t2 where
    x: "clean_access (m_params m) 0 (m_a_devices m) = Done (as', t2)"
    "select sel_free t2 = concat (map scull_blocks (m_a_devices m))"
    "select sel_del t2 = map AccessCdev [0..<length (m_a_devices m)]" "select sel_unreg t2 = []" by auto
  from clean_cloned_trace [OF wf(3), of "m_params m"] obtain t3 where
    c: "clean_cloned (m_params m) (m_c_list m) = Done t3"
    "select sel_free t3 = concat (map (\<lambda>l. scull_blocks (li_device l) @ [li_addr l]) (m_c_list m))"
    "select sel_del t3 = []" "select sel_unreg t3 = []" by blast
  let ?m = "m\<lparr>m_devices := Some (a, ds')\<rparr>"
  from p_cleanup_trace [of ?m b ps] assms(2,3) obtain t1 where
    p: "scull_p_cleanup ?m = (?m\<lparr>m_p_devices := None\<rparr>, t1)"
    "select sel_free t1 = concat (map (\<lambda>p. owned_addr (sp_buffer p)) ps) @ [b]"
    "select sel_del t1 = map PipeCdev [0..<length ps]" "select sel_unreg t1 = [(m_p_devno m, m_p_nr_devs m)]" by auto
  show ?thesis
    using assms(1,2) m x c p
    by (auto simp: scull_cleanup_module_def scull_access_cleanup_def module_blocks_def)
qed

text \<open>What a successful initialisation leaves, and the calls it made.\<close>

lemma init_trace:
  assumes "fresh_module m" and "m_major m \<noteq> 0" and "\<forall>f n. region_result e f n = None"
    and "main_array e = Some a" and "pipe_array e = Some b"
  defines "f \<equiv> MKDEV (m_major m) (m_minor m)"
  defines "cdevs \<equiv> map (\<lambda>i. (MainCdev i, f + int i)) [0..<nat (m_nr_devs m)] @
      map (\<lambda>i. (PipeCdev i, f + m_nr_devs m + int i)) [0..<nat (m_p_nr_devs m)] @
      map (\<lambda>i. (AccessCdev i, f + m_nr_devs m + m_p_nr_devs m + int i)) [0..<4]"
  shows "\<exists>m' t ds ps as. scull_init_module e m = Done (m', Inr (), t) \<and>
    m' = m\<lparr>m_devices := Some (a, ds), m_p_devno := f + m_nr_devs m, m_p_devices := Some (b, ps),
           m_a_firstdev := f + m_nr_devs m + m_p_nr_devs m, m_a_devices := as\<rparr> \<and>
    length ds = nat (m_nr_devs m) \<and> length ps = nat (m_p_nr_devs m) \<and> length as = 4 \<and>
    select sel_reg t = [(f, m_nr_devs m), (f + m_nr_devs m, m_p_nr_devs m), (f + m_nr_devs m + m_p_nr_devs m, 4)] \<and>
    select sel_tried t = cdevs \<and> ((\<forall>n. cdev_result e n = None) \<longrightarrow> select sel_add t = cdevs)"
proof -
  have cd: "scull_setup_cdev e x = (\<lambda>i. [cdev_add e (MainCdev i) (MKDEV (m_major x) (m_minor x + int i))])"
    "scull_p_setup_cdev e x = (\<lambda>i. [cdev_add e (PipeCdev i) (m_p_devno x + int i)])" for x
    by (simp_all add: fun_eq_iff scull_setup_cdev_def scull_p_setup_cdev_def)
  have mk: "MKDEV ma (mi + k) = MKDEV ma mi + k" for ma mi k by (simp add: MKDEV_def)
  let ?m = "m\<lparr>m_devices := Some (a, replicate (nat (m_nr_devs m))
      (zero_dev\<lparr>sd_quantum := scull_quantum (m_params m), sd_qset := scull_qset_p (m_params m)\<rparr>)),
    m_p_devno := f + m_nr_devs m, m_p_devices := Some (b, replicate (nat (m_p_nr_devs m)) zero_pipe),
    m_a_firstdev := f + m_nr_devs m + m_p_nr_devs m\<rparr>"
  let ?t1 = "concat (map (\<lambda>i. [cdev_add e (MainCdev i) (f + int i)]) [0..<nat (m_nr_devs m)])"
    and ?t2 = "concat (map (\<lambda>i. [cdev_add e (PipeCdev i) (f + m_nr_devs m + int i)]) [0..<nat (m_p_nr_devs m)])"
  obtain as t3 where as: "access_setups e (f + m_nr_devs m + m_p_nr_devs m) [0..<4] ?m = (?m\<lparr>m_a_devices := as\<rparr>, t3)"
    "length as = 4" "adds e (map (\<lambda>i. (AccessCdev i, f + m_nr_devs m + m_p_nr_devs m + int i)) [0..<4]) t3"
    using access_setups_trace [of e "f + m_nr_devs m + m_p_nr_devs m" "[0..<4]" ?m] assms(1)
    by (auto simp: fresh_module_def simp del: upt_rec_numeral)
  have run: "scull_init_module e m = Done (?m\<lparr>m_a_devices := as\<rparr>, Inr (),
     RegisterRegion f (m_nr_devs m) # ?t1 @ (RegisterRegion (f + m_nr_devs m) (m_p_nr_devs m) # ?t2) @
     (RegisterRegion (f + m_nr_devs m + m_p_nr_devs m) 4 # t3))"
    using assms(2-5) as(1)
    by (simp add: scull_init_module_def get_region_def Let_def scull_p_init_def scull_access_init_def
      cd mk f_def [symmetric] SCULL_N_ADEVS_def del: upt_rec_numeral)
  note t = as(3) adds_setups [of e MainCdev "\<lambda>i. f + int i" "[0..<nat (m_nr_devs m)]"]
    adds_setups [of e PipeCdev "\<lambda>i. f + m_nr_devs m + int i" "[0..<nat (m_p_nr_devs m)]"]
  show ?thesis
    by (intro exI conjI, rule run, rule refl)
      (use t in \<open>simp_all add: as(2) adds_def cdevs_def del: upt_rec_numeral\<close>)
qed

definition module_ex :: scull_module where
  "module_ex = \<lparr>m_params = scull_params_init, m_major = 42, m_minor = 0, m_nr_devs = 2, m_devices = None,
     m_p_nr_devs = 1, m_p_devno = 0, m_p_devices = None, m_a_firstdev = 0, m_a_devices = replicate 4 zero_dev, m_c_list = []\<rparr>"

definition env_ex :: init_env where
  "env_ex = \<lparr>region_result = (\<lambda>f n. None), alloc_major = Inl EBUSY, cdev_result = (\<lambda>n. None), main_array = Some 700, pipe_array = Some 800\<rparr>"

text \<open>
  Loading and unloading balance. When the regions and the arrays are granted, loading registers three
  consecutive regions of device numbers and calls \<open>cdev_add\<close> once for each number; unloading deletes exactly the
  devices of these calls, also those that could not be added, gives back exactly these regions, in the
  same order, and frees every block.
\<close>

lemma module_balanced:
  assumes "fresh_module m" and "m_major m \<noteq> 0" and "\<forall>f n. region_result e f n = None"
    and "main_array e = Some a" and "pipe_array e = Some b"
    and "scull_init_module e m = Done (m', r, t)" and "in_use m' m2" and "devices_wf m2"
  shows "r = Inr () \<and> (\<exists>m3 t'. scull_cleanup_module m2 = Done (m3, t') \<and>
    select sel_unreg t' = select sel_reg t \<and> select sel_del t' = map fst (select sel_tried t) \<and>
    ((\<forall>n. cdev_result e n = None) \<longrightarrow> select sel_add t = select sel_tried t) \<and>
    map snd (select sel_tried t) = map (\<lambda>i. MKDEV (m_major m) (m_minor m) + int i) [0..<nat (m_nr_devs m) + nat (m_p_nr_devs m) + 4] \<and>
    select sel_free t' = module_blocks m2)"
proof -
  let ?f = "MKDEV (m_major m) (m_minor m)" and ?n = "m_nr_devs m" and ?p = "m_p_nr_devs m"
  from init_trace [OF assms(1-5)] assms(6) obtain ds ps as where
    m': "m' = m\<lparr>m_devices := Some (a, ds), m_p_devno := ?f + ?n, m_p_devices := Some (b, ps),
           m_a_firstdev := ?f + ?n + ?p, m_a_devices := as\<rparr>" and r: "r = Inr ()" and
    len: "length ds = nat ?n" "length ps = nat ?p" "length as = 4" and
    reg: "select sel_reg t = [(?f, ?n), (?f + ?n, ?p), (?f + ?n + ?p, 4)]" and
    add: "select sel_tried t = map (\<lambda>i. (MainCdev i, ?f + int i)) [0..<nat ?n] @
      map (\<lambda>i. (PipeCdev i, ?f + ?n + int i)) [0..<nat ?p] @
      map (\<lambda>i. (AccessCdev i, ?f + ?n + ?p + int i)) [0..<4]" and
    ok: "(\<forall>n. cdev_result e n = None) \<longrightarrow> select sel_add t = select sel_tried t"
    by (auto simp del: upt_rec_numeral)
  have nn: "0 \<le> ?n" "0 \<le> ?p" using assms(1) by (simp_all add: fresh_module_def)
  from assms(7) m' obtain ds2 ps2 where m2: "m_devices m2 = Some (a, ds2)" "length ds2 = nat ?n"
    "m_p_devices m2 = Some (b, ps2)" "length ps2 = nat ?p" "length (m_a_devices m2) = 4"
    "m_major m2 = m_major m" "m_minor m2 = m_minor m" "m_nr_devs m2 = ?n" "m_p_nr_devs m2 = ?p"
    "m_p_devno m2 = ?f + ?n" "m_a_firstdev m2 = ?f + ?n + ?p"
    using len by (auto simp: in_use_def)
  from cleanup_trace [OF m2(1,3) _ assms(8)] m2 obtain m3 t' where
    c: "scull_cleanup_module m2 = Done (m3, t')" "select sel_free t' = module_blocks m2"
    "select sel_del t' = map MainCdev [0..<nat ?n] @ map PipeCdev [0..<nat ?p] @ map AccessCdev [0..<4]"
    "select sel_unreg t' = [(?f, ?n), (?f + ?n, ?p), (?f + ?n + ?p, 4)]"
    by (auto simp: SCULL_N_ADEVS_def simp del: upt_rec_numeral)
  have up: "[0..<i + j] = [0..<i] @ map (\<lambda>k. i + k) [0..<j]" for i j :: nat
    using upt_add_eq_append [of 0 i j] map_add_upt [of i j] by (simp add: add.commute)
  have "map snd (select sel_tried t) = map (\<lambda>i. ?f + int i) [0..<nat ?n + nat ?p + 4]"
    unfolding add up using nn by (simp add: o_def add.assoc del: upt_rec_numeral)
  moreover have "map fst (select sel_tried t) = select sel_del t'" by (simp add: add c(3) o_def del: upt_rec_numeral)
  ultimately show ?thesis using c r reg ok by auto
qed

text \<open>
  The comment over the cleanup says that it must work even if some of the items have not been
  initialised. When the array of devices cannot be allocated, the cleanup deletes the four character
  devices of \<^verbatim>\<open>access.c\<close> that were never added, and gives back a region, at device number
  \<open>scull_a_firstdev\<close>, that was never registered.
\<close>

theorem scull_init_fail_unbalanced:
  assumes "fresh_module m" and "main_array e = None" and "get_region e m = (m1, Inr u)"
  shows "\<exists>m' t. scull_init_module e m = Done (m', Inl ENOMEM, t) \<and> select sel_add t = [] \<and>
    select sel_del t = map AccessCdev [0..<4] \<and> select sel_reg t = [(MKDEV (m_major m1) (m_minor m1), m_nr_devs m1)] \<and>
    select sel_unreg t = [(MKDEV (m_major m1) (m_minor m1), m_nr_devs m1), (m_a_firstdev m1, 4)]"
proof -
  have m1: "m_a_devices m1 = replicate 4 zero_dev" "m_c_list m1 = []" "m_p_devices m1 = None"
    using assms(1,3) by (auto simp: fresh_module_def get_region_def split: if_splits option.splits sum.splits)
  have z: "scull_trim g zero_dev = Done (zero_dev\<lparr>sd_quantum := scull_quantum g, sd_qset := scull_qset_p g\<rparr>, [])" for g
    by (simp add: scull_trim_def zero_dev_def)
  show ?thesis using assms(2,3) m1
    by (simp add: scull_init_module_def scull_cleanup_module_def scull_p_cleanup_def scull_access_cleanup_def
      Let_def z numeral_eq_Suc SCULL_N_ADEVS_def)
qed

theorem scull_init_fail_unbalanced_witness:
  "\<exists>m' t. scull_init_module (env_ex\<lparr>main_array := None\<rparr>) module_ex = Done (m', Inl ENOMEM, t) \<and>
     select sel_add t = [] \<and> select sel_del t = map AccessCdev [0..<4]"
proof -
  have "fresh_module module_ex" "main_array (env_ex\<lparr>main_array := None\<rparr>) = None"
    "get_region (env_ex\<lparr>main_array := None\<rparr>) module_ex = (module_ex, Inr ())"
    by (simp_all add: fresh_module_def module_ex_def get_region_def env_ex_def)
  from scull_init_fail_unbalanced [OF this] show ?thesis by blast
qed

end
