(* ===== verification/Scull_System.thy ===== *)
theory Scull_System
  imports Scull_Module
begin

unbundle bit_operations_syntax

text \<open>
  The whole scull driver, as its users reach it: the character devices that \<open>scull_init_module\<close> has
  added, the open files, and the tables of file operations (\<open>scull_fops\<close>, \<open>scull_pipe_fops\<close>,
  \<open>scull_sngl_fops\<close>, \<open>scull_user_fops\<close>, \<open>scull_wusr_fops\<close>, \<open>scull_priv_fops\<close>) through which a call on a
  file reaches a method. A method finds its device behind \<open>private_data\<close>, a pointer without a type: the
  state typing below says that every open file leads to a structure of the kind its table expects. It holds
  after any calls. That the devices are well formed does not: the code lets a user set a geometry or a size of
  the pipe buffers with which it fails later. Every step therefore says whether it was within the limits for
  which the code is right, and the invariant has a weaker form for all runs and a stronger one for those.
\<close>

section \<open>Files, devices and the state of the driver\<close>

text \<open>
  What \<open>private_data\<close> may point at: a \<open>struct scull_dev\<close> in the main array, one of the four static ones,
  or the one of a terminal's list item; or a \<open>struct scull_pipe\<close>.
\<close>

datatype devref = MainDev nat | AccessDev nat | PrivDev int | PipeDev nat

text \<open>A \<open>struct file\<close>: the \<open>cdev\<close> of its inode, and the fields that the driver uses; \<open>None\<close> is \<open>NULL\<close>.\<close>

record struct_file =
  f_cdev :: cdev
  private_data :: "devref option"
  f_flags :: int
  f_pos :: int
  f_cred :: cred

text \<open>The mode that the kernel derives from the flags of an open: readable, writable.\<close>

definition f_mode :: "struct_file \<Rightarrow> fmode" where
  "f_mode f = \<lparr>fm_read = ((f_flags f + 1) AND 1 \<noteq> 0), fm_write = ((f_flags f + 1) AND 2 \<noteq> 0)\<rparr>"

definition O_NONBLOCK :: int where
  "O_NONBLOCK = 2048"

record scull_driver =
  dr_mod :: scull_module
  dr_s_available :: int
  dr_u_count :: int
  dr_u_owner :: int
  dr_w_count :: int
  dr_w_owner :: int
  dr_files :: "nat \<Rightarrow> struct_file option"

text \<open>
  What a call meets in the kernel: the allocator, a signal while it waits for a mutex, the bytes that
  cannot be copied, the memory and the rights of the caller, its terminal, the size of a list item, and
  the kernel's \<open>fasync_helper\<close>.
\<close>

record kenv =
  k_km :: kmalloc
  k_intr :: bool
  k_left :: nat
  k_ioctl :: ioctl_env
  k_cred :: cred
  k_tty :: "int option"
  k_item :: int
  k_fasync :: fasync_helper

datatype user_data = NoData | ToUser "byte list" | StoredInt int

datatype reply = Sleeps | Returns "int ret" user_data

text \<open>The value 0 of a method that only succeeds or fails.\<close>

definition zero_ret :: "'a ret \<Rightarrow> int ret" where
  "zero_ret r = (case r of Inl e \<Rightarrow> Inl e | Inr _ \<Rightarrow> Inr 0)"

subsection \<open>Following a pointer\<close>

fun dev_at :: "scull_module \<Rightarrow> devref \<Rightarrow> scull_dev option" where
  "dev_at m (MainDev i) =
     (case m_devices m of None \<Rightarrow> None | Some (a, ds) \<Rightarrow> if i < length ds then Some (ds ! i) else None)"
| "dev_at m (AccessDev i) = (if i < length (m_a_devices m) then Some (m_a_devices m ! i) else None)"
| "dev_at m (PrivDev key) = priv_dev (m_c_list m) key"
| "dev_at m (PipeDev i) = None"

fun put_at :: "scull_module \<Rightarrow> devref \<Rightarrow> scull_dev \<Rightarrow> scull_module" where
  "put_at m (MainDev i) d = m\<lparr>m_devices := map_option (\<lambda>(a, ds). (a, ds[i := d])) (m_devices m)\<rparr>"
| "put_at m (AccessDev i) d = m\<lparr>m_a_devices := (m_a_devices m)[i := d]\<rparr>"
| "put_at m (PrivDev key) d =
     (case find_key key (m_c_list m) of
        None \<Rightarrow> m
      | Some i \<Rightarrow> m\<lparr>m_c_list := (m_c_list m)[i := (m_c_list m ! i)\<lparr>li_device := d\<rparr>]\<rparr>)"
| "put_at m (PipeDev i) d = m"

definition pipe_at :: "scull_module \<Rightarrow> nat \<Rightarrow> scull_pipe option" where
  "pipe_at m i =
     (case m_p_devices m of None \<Rightarrow> None | Some (a, ps) \<Rightarrow> if i < length ps then Some (ps ! i) else None)"

definition put_pipe_at :: "scull_module \<Rightarrow> nat \<Rightarrow> scull_pipe \<Rightarrow> scull_module" where
  "put_pipe_at m i p = m\<lparr>m_p_devices := map_option (\<lambda>(a, ps). (a, ps[i := p])) (m_p_devices m)\<rparr>"

abbreviation dr_params :: "scull_driver \<Rightarrow> scull_params" where
  "dr_params s \<equiv> m_params (dr_mod s)"

definition put_dev :: "scull_driver \<Rightarrow> devref \<Rightarrow> scull_dev \<Rightarrow> scull_driver" where
  "put_dev s r d = s\<lparr>dr_mod := put_at (dr_mod s) r d\<rparr>"

definition put_pipe :: "scull_driver \<Rightarrow> nat \<Rightarrow> scull_pipe \<Rightarrow> scull_driver" where
  "put_pipe s i p = s\<lparr>dr_mod := put_pipe_at (dr_mod s) i p\<rparr>"

text \<open>A pointer that leads to no structure, or to one of another type, is a bug of the kernel.\<close>

definition dev_of :: "scull_driver \<Rightarrow> devref \<Rightarrow> scull_dev exec" where
  "dev_of s r = (case dev_at (dr_mod s) r of None \<Rightarrow> Oops KernelBug | Some d \<Rightarrow> Done d)"

definition pipe_of :: "scull_driver \<Rightarrow> nat \<Rightarrow> scull_pipe exec" where
  "pipe_of s i = (case pipe_at (dr_mod s) i of None \<Rightarrow> Oops KernelBug | Some p \<Rightarrow> Done p)"

text \<open>\<open>struct scull_dev *dev = filp->private_data\<close>, and the same for \<open>struct scull_pipe\<close>.\<close>

definition filp_dev :: "scull_driver \<Rightarrow> struct_file \<Rightarrow> (devref \<times> scull_dev) exec" where
  "filp_dev s f =
     (case private_data f of
        None \<Rightarrow> Oops NullDeref
      | Some r \<Rightarrow> kbind (dev_of s r) (\<lambda>d. Done (r, d)))"

definition filp_pipe :: "scull_driver \<Rightarrow> struct_file \<Rightarrow> (nat \<times> scull_pipe) exec" where
  "filp_pipe s f =
     (case private_data f of
        None \<Rightarrow> Oops NullDeref
      | Some (PipeDev i) \<Rightarrow> kbind (pipe_of s i) (\<lambda>p. Done (i, p))
      | Some r \<Rightarrow> Oops KernelBug)"

section \<open>The methods\<close>

type_synonym method_result = "(scull_driver \<times> struct_file \<times> reply) exec"

subsection \<open>The methods of the bare device\<close>

definition drv_read :: "kenv \<Rightarrow> scull_driver \<Rightarrow> struct_file \<Rightarrow> int \<Rightarrow> method_result" where
  "drv_read e s f n =
     kbind (filp_dev s f) (\<lambda>(r, d).
     kbind (scull_read (k_km e) (k_intr e) (k_left e) d n (f_pos f)) (\<lambda>(d, pos, v, bs).
       Done (put_dev s r d, f\<lparr>f_pos := pos\<rparr>, Returns v (ToUser bs))))"

definition drv_write :: "kenv \<Rightarrow> scull_driver \<Rightarrow> struct_file \<Rightarrow> byte list \<Rightarrow> method_result" where
  "drv_write e s f buf =
     kbind (filp_dev s f) (\<lambda>(r, d).
     kbind (scull_write (k_km e) (k_intr e) (k_left e) d buf (f_pos f)) (\<lambda>(d, pos, v).
       Done (put_dev s r d, f\<lparr>f_pos := pos\<rparr>, Returns v NoData)))"

definition drv_llseek :: "scull_driver \<Rightarrow> struct_file \<Rightarrow> int \<Rightarrow> int \<Rightarrow> (struct_file \<times> int ret) exec" where
  "drv_llseek s f off whence =
     kbind (filp_dev s f) (\<lambda>(r, d).
       case scull_llseek d (f_pos f) off whence of (pos, v) \<Rightarrow> Done (f\<lparr>f_pos := pos\<rparr>, v))"

definition drv_ioctl :: "kenv \<Rightarrow> scull_driver \<Rightarrow> ioc \<Rightarrow> int \<Rightarrow> scull_driver \<times> reply" where
  "drv_ioctl e s cmd arg =
     (case scull_ioctl (k_ioctl e) (dr_params s) cmd arg of
        (g, v, w) \<Rightarrow>
          (s\<lparr>dr_mod := (dr_mod s)\<lparr>m_params := g\<rparr>\<rparr>,
           Returns v (case w of None \<Rightarrow> NoData | Some i \<Rightarrow> StoredInt i)))"

text \<open>\<open>container_of(inode->i_cdev, struct scull_dev, cdev)\<close> is the device of the main array.\<close>

definition drv_open :: "kenv \<Rightarrow> scull_driver \<Rightarrow> struct_file \<Rightarrow> method_result" where
  "drv_open e s f =
     (case f_cdev f of
        MainCdev i \<Rightarrow>
          kbind (dev_of s (MainDev i)) (\<lambda>d.
          kbind (scull_open (dr_params s) (k_intr e) d (f_flags f)) (\<lambda>(d, v, freed).
            Done (put_dev s (MainDev i) d, f\<lparr>private_data := Some (MainDev i)\<rparr>, Returns (zero_ret v) NoData)))
      | _ \<Rightarrow> Oops KernelBug)"

definition drv_release :: "kenv \<Rightarrow> scull_driver \<Rightarrow> nat \<Rightarrow> struct_file \<Rightarrow> (scull_driver \<times> reply) exec" where
  "drv_release e s filp f = Done (s, Returns (Inr 0) NoData)"

subsection \<open>The methods of the pipe\<close>

definition p_reply :: "scull_driver \<Rightarrow> struct_file \<Rightarrow> nat \<Rightarrow> p_result \<Rightarrow> scull_driver \<times> struct_file \<times> reply" where
  "p_reply s f i res =
     (case res of
        Blocked p \<Rightarrow> (put_pipe s i p, f, Sleeps)
      | Returned p v bs nt \<Rightarrow> (put_pipe s i p, f, Returns v (ToUser bs)))"

definition drv_p_read :: "kenv \<Rightarrow> scull_driver \<Rightarrow> struct_file \<Rightarrow> int \<Rightarrow> method_result" where
  "drv_p_read e s f n =
     kbind (filp_pipe s f) (\<lambda>(i, p).
     kbind (scull_p_read (k_left e) (k_intr e) (f_flags f AND O_NONBLOCK \<noteq> 0) [] p n) (\<lambda>res. Done (p_reply s f i res)))"

definition drv_p_write :: "kenv \<Rightarrow> scull_driver \<Rightarrow> struct_file \<Rightarrow> byte list \<Rightarrow> method_result" where
  "drv_p_write e s f buf =
     kbind (filp_pipe s f) (\<lambda>(i, p).
     kbind (scull_p_write (k_left e) (k_intr e) (f_flags f AND O_NONBLOCK \<noteq> 0) [] p buf) (\<lambda>res. Done (p_reply s f i res)))"

definition drv_p_poll :: "scull_driver \<Rightarrow> struct_file \<Rightarrow> int exec" where
  "drv_p_poll s f = kbind (filp_pipe s f) (\<lambda>(i, p). scull_p_poll p)"

definition drv_p_open :: "kenv \<Rightarrow> scull_driver \<Rightarrow> struct_file \<Rightarrow> method_result" where
  "drv_p_open e s f =
     (case f_cdev f of
        PipeCdev i \<Rightarrow>
          kbind (pipe_of s i) (\<lambda>p.
            case scull_p_open (k_km e) (dr_params s) (k_intr e) (f_mode f) p of
              (p, v) \<Rightarrow> Done (put_pipe s i p, f\<lparr>private_data := Some (PipeDev i)\<rparr>, Returns (zero_ret v) NoData))
      | _ \<Rightarrow> Oops KernelBug)"

definition drv_p_release :: "kenv \<Rightarrow> scull_driver \<Rightarrow> nat \<Rightarrow> struct_file \<Rightarrow> (scull_driver \<times> reply) exec" where
  "drv_p_release e s filp f =
     kbind (filp_pipe s f) (\<lambda>(i, p).
       case scull_p_release (k_fasync e) filp (f_mode f) p of
         (p, v, freed) \<Rightarrow> Done (put_pipe s i p, Returns (zero_ret v) NoData))"

definition drv_p_fasync :: "kenv \<Rightarrow> scull_driver \<Rightarrow> int \<Rightarrow> nat \<Rightarrow> struct_file \<Rightarrow> int \<Rightarrow> (scull_driver \<times> reply) exec" where
  "drv_p_fasync e s fd filp f mode =
     kbind (filp_pipe s f) (\<lambda>(i, p).
       case scull_p_fasync (k_fasync e) fd filp mode p of
         (p, v) \<Rightarrow> Done (put_pipe s i p, Returns v NoData))"

subsection \<open>Opening and closing the access-controlled devices\<close>

text \<open>These methods set \<open>private_data\<close> only when they succeed.\<close>

definition set_private :: "struct_file \<Rightarrow> devref \<Rightarrow> 'a ret \<Rightarrow> struct_file" where
  "set_private f r v = (case v of Inl e \<Rightarrow> f | Inr _ \<Rightarrow> f\<lparr>private_data := Some r\<rparr>)"

definition drv_s_open :: "kenv \<Rightarrow> scull_driver \<Rightarrow> struct_file \<Rightarrow> method_result" where
  "drv_s_open e s f =
     kbind (dev_of s (AccessDev 0)) (\<lambda>d.
     kbind (scull_s_open (dr_params s) (f_flags f) \<lparr>scull_s_available = dr_s_available s, scull_s_device = d\<rparr>) (\<lambda>(t, v, freed).
       Done (put_dev (s\<lparr>dr_s_available := scull_s_available t\<rparr>) (AccessDev 0) (scull_s_device t),
             set_private f (AccessDev 0) v, Returns (zero_ret v) NoData)))"

definition drv_s_release :: "kenv \<Rightarrow> scull_driver \<Rightarrow> nat \<Rightarrow> struct_file \<Rightarrow> (scull_driver \<times> reply) exec" where
  "drv_s_release e s filp f =
     kbind (dev_of s (AccessDev 0)) (\<lambda>d.
       case scull_s_release \<lparr>scull_s_available = dr_s_available s, scull_s_device = d\<rparr> of
         (t, v) \<Rightarrow> Done (s\<lparr>dr_s_available := scull_s_available t\<rparr>, Returns (zero_ret v) NoData))"

definition dr_u :: "scull_driver \<Rightarrow> scull_dev \<Rightarrow> u_state" where
  "dr_u s d = \<lparr>scull_u_count = dr_u_count s, scull_u_owner = dr_u_owner s, scull_u_device = d\<rparr>"

definition drv_u_open :: "kenv \<Rightarrow> scull_driver \<Rightarrow> struct_file \<Rightarrow> method_result" where
  "drv_u_open e s f =
     kbind (dev_of s (AccessDev 1)) (\<lambda>d.
     kbind (scull_u_open (dr_params s) (k_cred e) (f_flags f) (dr_u s d)) (\<lambda>(t, v, freed).
       Done (put_dev (s\<lparr>dr_u_count := scull_u_count t, dr_u_owner := scull_u_owner t\<rparr>) (AccessDev 1) (scull_u_device t),
             set_private f (AccessDev 1) v, Returns (zero_ret v) NoData)))"

definition drv_u_release :: "kenv \<Rightarrow> scull_driver \<Rightarrow> nat \<Rightarrow> struct_file \<Rightarrow> (scull_driver \<times> reply) exec" where
  "drv_u_release e s filp f =
     kbind (dev_of s (AccessDev 1)) (\<lambda>d.
       case scull_u_release (dr_u s d) of
         (t, v) \<Rightarrow> Done (s\<lparr>dr_u_count := scull_u_count t, dr_u_owner := scull_u_owner t\<rparr>, Returns (zero_ret v) NoData))"

definition dr_w :: "scull_driver \<Rightarrow> scull_dev \<Rightarrow> w_state" where
  "dr_w s d = \<lparr>scull_w_count = dr_w_count s, scull_w_owner = dr_w_owner s, scull_w_device = d\<rparr>"

definition put_w :: "scull_driver \<Rightarrow> w_state \<Rightarrow> scull_driver" where
  "put_w s t = put_dev (s\<lparr>dr_w_count := scull_w_count t, dr_w_owner := scull_w_owner t\<rparr>) (AccessDev 2) (scull_w_device t)"

definition drv_w_open :: "kenv \<Rightarrow> scull_driver \<Rightarrow> struct_file \<Rightarrow> method_result" where
  "drv_w_open e s f =
     kbind (dev_of s (AccessDev 2)) (\<lambda>d.
     kbind (scull_w_open (dr_params s) (k_cred e) (f_flags f AND O_NONBLOCK \<noteq> 0) (f_flags f) [] (dr_w s d)) (\<lambda>res.
       Done (case res of
               WBlocked t \<Rightarrow> (put_w s t, f, Sleeps)
             | WReturned t v freed \<Rightarrow> (put_w s t, set_private f (AccessDev 2) v, Returns (zero_ret v) NoData))))"

definition drv_w_release :: "kenv \<Rightarrow> scull_driver \<Rightarrow> nat \<Rightarrow> struct_file \<Rightarrow> (scull_driver \<times> reply) exec" where
  "drv_w_release e s filp f =
     kbind (dev_of s (AccessDev 2)) (\<lambda>d.
       case scull_w_release (dr_w s d) of (t, v, woken) \<Rightarrow>
         Done (s\<lparr>dr_w_count := scull_w_count t, dr_w_owner := scull_w_owner t\<rparr>, Returns (zero_ret v) NoData))"

definition drv_c_open :: "kenv \<Rightarrow> scull_driver \<Rightarrow> struct_file \<Rightarrow> method_result" where
  "drv_c_open e s f =
     kbind (scull_c_open (k_km e) (k_item e) (dr_params s) (k_tty e) (f_flags f) (m_c_list (dr_mod s))) (\<lambda>(ls, v, freed).
       Done (s\<lparr>dr_mod := (dr_mod s)\<lparr>m_c_list := ls\<rparr>\<rparr>,
             (case v of Inl er \<Rightarrow> f | Inr i \<Rightarrow> set_private f (PrivDev (li_key (ls ! i))) v),
             Returns (zero_ret v) NoData))"

definition drv_c_release :: "kenv \<Rightarrow> scull_driver \<Rightarrow> nat \<Rightarrow> struct_file \<Rightarrow> (scull_driver \<times> reply) exec" where
  "drv_c_release e s filp f =
     (case scull_c_release (m_c_list (dr_mod s)) of
        (ls, v) \<Rightarrow> Done (s\<lparr>dr_mod := (dr_mod s)\<lparr>m_c_list := ls\<rparr>\<rparr>, Returns (zero_ret v) NoData))"

section \<open>The tables of file operations\<close>

text \<open>
  The methods of a \<open>struct file_operations\<close>. \<open>None\<close> is a method that the table does not have; for
  \<open>llseek\<close> it is the kernel's \<open>no_llseek\<close>, for a file that cannot seek.
\<close>

record file_operations =
  fo_llseek :: "(scull_driver \<Rightarrow> struct_file \<Rightarrow> int \<Rightarrow> int \<Rightarrow> (struct_file \<times> int ret) exec) option"
  fo_read :: "kenv \<Rightarrow> scull_driver \<Rightarrow> struct_file \<Rightarrow> int \<Rightarrow> method_result"
  fo_write :: "kenv \<Rightarrow> scull_driver \<Rightarrow> struct_file \<Rightarrow> byte list \<Rightarrow> method_result"
  fo_poll :: "(scull_driver \<Rightarrow> struct_file \<Rightarrow> int exec) option"
  fo_ioctl :: "kenv \<Rightarrow> scull_driver \<Rightarrow> ioc \<Rightarrow> int \<Rightarrow> scull_driver \<times> reply"
  fo_open :: "kenv \<Rightarrow> scull_driver \<Rightarrow> struct_file \<Rightarrow> method_result"
  fo_release :: "kenv \<Rightarrow> scull_driver \<Rightarrow> nat \<Rightarrow> struct_file \<Rightarrow> (scull_driver \<times> reply) exec"
  fo_fasync :: "(kenv \<Rightarrow> scull_driver \<Rightarrow> int \<Rightarrow> nat \<Rightarrow> struct_file \<Rightarrow> int \<Rightarrow> (scull_driver \<times> reply) exec) option"

definition scull_fops :: file_operations where
  "scull_fops = \<lparr>fo_llseek = Some drv_llseek, fo_read = drv_read, fo_write = drv_write, fo_poll = None,
     fo_ioctl = drv_ioctl, fo_open = drv_open, fo_release = drv_release, fo_fasync = None\<rparr>"

definition scull_pipe_fops :: file_operations where
  "scull_pipe_fops = \<lparr>fo_llseek = None, fo_read = drv_p_read, fo_write = drv_p_write, fo_poll = Some drv_p_poll,
     fo_ioctl = drv_ioctl, fo_open = drv_p_open, fo_release = drv_p_release, fo_fasync = Some drv_p_fasync\<rparr>"

definition scull_sngl_fops :: file_operations where
  "scull_sngl_fops = \<lparr>fo_llseek = Some drv_llseek, fo_read = drv_read, fo_write = drv_write, fo_poll = None,
     fo_ioctl = drv_ioctl, fo_open = drv_s_open, fo_release = drv_s_release, fo_fasync = None\<rparr>"

definition scull_user_fops :: file_operations where
  "scull_user_fops = \<lparr>fo_llseek = Some drv_llseek, fo_read = drv_read, fo_write = drv_write, fo_poll = None,
     fo_ioctl = drv_ioctl, fo_open = drv_u_open, fo_release = drv_u_release, fo_fasync = None\<rparr>"

definition scull_wusr_fops :: file_operations where
  "scull_wusr_fops = \<lparr>fo_llseek = Some drv_llseek, fo_read = drv_read, fo_write = drv_write, fo_poll = None,
     fo_ioctl = drv_ioctl, fo_open = drv_w_open, fo_release = drv_w_release, fo_fasync = None\<rparr>"

definition scull_priv_fops :: file_operations where
  "scull_priv_fops = \<lparr>fo_llseek = Some drv_llseek, fo_read = drv_read, fo_write = drv_write, fo_poll = None,
     fo_ioctl = drv_ioctl, fo_open = drv_c_open, fo_release = drv_c_release, fo_fasync = None\<rparr>"

lemmas fops_defs = scull_fops_def scull_pipe_fops_def scull_sngl_fops_def scull_user_fops_def
  scull_wusr_fops_def scull_priv_fops_def

text \<open>The table \<open>scull_access_devs\<close>: the name, the position of the device, the operations.\<close>

definition scull_access_devs :: "(string \<times> nat \<times> file_operations) list" where
  "scull_access_devs =
     [(''scullsingle'', 0, scull_sngl_fops), (''sculluid'', 1, scull_user_fops),
      (''scullwuid'', 2, scull_wusr_fops), (''scullpriv'', 3, scull_priv_fops)]"

text \<open>What \<open>cdev_init\<close> has tied to a device, and which devices there are.\<close>

fun fops_of :: "cdev \<Rightarrow> file_operations" where
  "fops_of (MainCdev i) = scull_fops"
| "fops_of (PipeCdev i) = scull_pipe_fops"
| "fops_of (AccessCdev i) = (case scull_access_devs ! i of (name, dev, fops) \<Rightarrow> fops)"

fun cdev_present :: "scull_module \<Rightarrow> cdev \<Rightarrow> bool" where
  "cdev_present m (MainCdev i) \<longleftrightarrow> dev_at m (MainDev i) \<noteq> None"
| "cdev_present m (PipeCdev i) \<longleftrightarrow> pipe_at m i \<noteq> None"
| "cdev_present m (AccessCdev i) \<longleftrightarrow> i < length scull_access_devs"

text \<open>A file that the kernel is about to open, and the operations behind it.\<close>

definition new_file :: "kenv \<Rightarrow> cdev \<Rightarrow> int \<Rightarrow> struct_file" where
  "new_file e c flags = \<lparr>f_cdev = c, private_data = None, f_flags = flags, f_pos = 0, f_cred = k_cred e\<rparr>"

abbreviation f_op :: "struct_file \<Rightarrow> file_operations" where
  "f_op f \<equiv> fops_of (f_cdev f)"

section \<open>Calls on files\<close>

text \<open>
  What a call does to the contents of the devices: an event of one device, of one pipe, or neither.
\<close>

datatype drv_event = OnDev devref store_event | OnPipe nat pipe_event | Quiet

definition open_event :: "struct_file \<Rightarrow> drv_event" where
  "open_event f =
     (case private_data f of
        None \<Rightarrow> Quiet
      | Some (PipeDev i) \<Rightarrow> OnPipe i PReset
      | Some r \<Rightarrow> if f_flags f AND O_ACCMODE = O_WRONLY then OnDev r Truncated else Quiet)"

definition read_event :: "struct_file \<Rightarrow> int ret \<Rightarrow> byte list \<Rightarrow> drv_event" where
  "read_event f v bs =
     (case private_data f of
        None \<Rightarrow> Quiet
      | Some (PipeDev i) \<Rightarrow> OnPipe i (case v of Inl er \<Rightarrow> PQuiet | Inr n \<Rightarrow> PRead bs)
      | Some r \<Rightarrow> OnDev r (Fetched (f_pos f) bs))"

definition wrote_event :: "scull_driver \<Rightarrow> struct_file \<Rightarrow> byte list \<Rightarrow> int ret \<Rightarrow> drv_event" where
  "wrote_event s f buf v =
     (case private_data f of
        None \<Rightarrow> Quiet
      | Some (PipeDev i) \<Rightarrow> OnPipe i (case v of Inl er \<Rightarrow> PQuiet | Inr n \<Rightarrow> PWrote (take (nat n) buf))
      | Some r \<Rightarrow> (case dev_at (dr_mod s) r of None \<Rightarrow> Quiet | Some d \<Rightarrow> OnDev r (write_event d buf (f_pos f) v)))"

text \<open>\<open>s\<close> is the state after the release.\<close>

definition release_event :: "scull_driver \<Rightarrow> struct_file \<Rightarrow> drv_event" where
  "release_event s f =
     (case private_data f of
        Some (PipeDev i) \<Rightarrow>
          (case pipe_at (dr_mod s) i of Some p \<Rightarrow> if sp_buffer p = None then OnPipe i PReset else Quiet | None \<Rightarrow> Quiet)
      | _ \<Rightarrow> Quiet)"

text \<open>
  The limits that the driver relies on and does not check. A device is read and written at positions that
  its arithmetic can represent. An open that gives a device its quantum and quantum set, because it empties
  the device or creates the one of a terminal, finds parameters in range; an open of a pipe finds a
  buffer size in range, and an existing buffer as large as the parameter says (\<open>open_fits\<close>).
\<close>

definition pos_fits :: "scull_driver \<Rightarrow> struct_file \<Rightarrow> bool" where
  "pos_fits s f \<longleftrightarrow> (\<forall>r d. private_data f = Some r \<longrightarrow> dev_at (dr_mod s) r = Some d \<longrightarrow> pos_ok d (f_pos f))"

definition pipe_fits :: "scull_driver \<Rightarrow> cdev \<Rightarrow> bool" where
  "pipe_fits s c \<longleftrightarrow> (\<forall>i p. c = PipeCdev i \<longrightarrow> pipe_at (dr_mod s) i = Some p \<longrightarrow> open_fits (dr_params s) p)"

definition open_in_range :: "scull_driver \<Rightarrow> cdev \<Rightarrow> int \<Rightarrow> bool" where
  "open_in_range s c flags \<longleftrightarrow> pipe_fits s c \<and>
     (empties flags \<and> (\<forall>i. c \<noteq> PipeCdev i) \<or> c = AccessCdev 3 \<longrightarrow> geometry_ok (dr_params s))"

definition set_file :: "scull_driver \<Rightarrow> nat \<Rightarrow> struct_file option \<Rightarrow> scull_driver" where
  "set_file s fd f = s\<lparr>dr_files := (dr_files s)(fd := f)\<rparr>"

text \<open>
  One step is one call that returns, with any arguments; calls take place one at a time, and a call that
  has to sleep makes its step when it can go on. A file is read and written in the modes it was opened with,
  and a file whose open fails is never released. The allocator returns blocks of the size asked for, and no
  request is longer than the kernel allows. The label of a step says whether the call was made within the
  limits, and what it did to the contents of the devices.
\<close>

inductive drv_step :: "scull_driver \<Rightarrow> bool \<times> drv_event \<Rightarrow> scull_driver \<Rightarrow> bool" where
  drv_opened: "dr_files s fd = None \<Longrightarrow> cdev_present (dr_mod s) c \<Longrightarrow> kmalloc_sized (k_km e) \<Longrightarrow>
    fo_open (fops_of c) e s (new_file e c flags) = Done (s', f', Returns (Inr n) out) \<Longrightarrow>
    drv_step s (open_in_range s c flags, open_event f') (set_file s' fd (Some f'))"
| drv_refused: "cdev_present (dr_mod s) c \<Longrightarrow> kmalloc_sized (k_km e) \<Longrightarrow>
    fo_open (fops_of c) e s (new_file e c flags) = Done (s', f', Returns (Inl er) out) \<Longrightarrow>
    drv_step s (open_in_range s c flags, Quiet) s'"
| drv_readed: "dr_files s fd = Some f \<Longrightarrow> fm_read (f_mode f) \<Longrightarrow> 0 \<le> n \<Longrightarrow> n < 2 ^ 63 \<Longrightarrow>
    fo_read (f_op f) e s f n = Done (s', f', Returns v (ToUser bs)) \<Longrightarrow>
    drv_step s (pos_fits s f, read_event f v bs) (set_file s' fd (Some f'))"
| drv_wrote: "dr_files s fd = Some f \<Longrightarrow> fm_write (f_mode f) \<Longrightarrow> kmalloc_sized (k_km e) \<Longrightarrow>
    fo_write (f_op f) e s f buf = Done (s', f', Returns v out) \<Longrightarrow>
    drv_step s (pos_fits s f, wrote_event s f buf v) (set_file s' fd (Some f'))"
| drv_seeked: "dr_files s fd = Some f \<Longrightarrow> fo_llseek (f_op f) = Some llseek \<Longrightarrow> llseek s f off whence = Done (f', v) \<Longrightarrow>
    drv_step s (True, Quiet) (set_file s fd (Some f'))"
| drv_controlled: "dr_files s fd = Some f \<Longrightarrow> fo_ioctl (f_op f) e s cmd arg = (s', rep) \<Longrightarrow>
    drv_step s (True, Quiet) s'"
| drv_released: "dr_files s fd = Some f \<Longrightarrow> fo_release (f_op f) e s fd f = Done (s', rep) \<Longrightarrow>
    drv_step s (True, release_event s' f) (set_file s' fd None)"
| drv_notified: "dr_files s fd = Some f \<Longrightarrow> fo_fasync (f_op f) = Some fasync \<Longrightarrow>
    fasync e s i fd f on = Done (s', rep) \<Longrightarrow> drv_step s (True, Quiet) s'"

inductive drv_run :: "scull_driver \<Rightarrow> (bool \<times> drv_event) list \<Rightarrow> scull_driver \<Rightarrow> bool" where
  drun_nil: "drv_run s [] s"
| drun_snoc: "drv_run s es s1 \<Longrightarrow> drv_step s1 ev s2 \<Longrightarrow> drv_run s (es @ [ev]) s2"

section \<open>Cells that are read and written\<close>

text \<open>The devices behind the pointers, and the pipes: a cell that exists can be replaced, and no other changes.\<close>

locale cell_array =
  fixes get :: "'s \<Rightarrow> 'i \<Rightarrow> 'd option"
    and put :: "'s \<Rightarrow> 'i \<Rightarrow> 'd \<Rightarrow> 's"
  assumes get_put: "get s i \<noteq> None \<Longrightarrow> get (put s i d) j = (if j = i then Some d else get s j)"
begin

lemma exists_put: "get s i \<noteq> None \<Longrightarrow> get (put s i d) j = None \<longleftrightarrow> get s j = None"
  by (simp add: get_put)

lemma all_put:
  assumes "get s i \<noteq> None" and "\<And>j x. get s j = Some x \<Longrightarrow> P x" and "P d"
  shows "get (put s i d) j = Some x \<Longrightarrow> P x"
  using assms by (auto simp: get_put split: if_splits)

lemma put_put: "get s i \<noteq> None \<Longrightarrow> get (put (put s i d) i d') j = get (put s i d') j"
  by (simp add: get_put)

lemma put_id: "get s i = Some d \<Longrightarrow> get (put s i d) j = get s j"
  by (simp add: get_put)

end

lemma dev_at_put_at: "dev_at m r \<noteq> None \<Longrightarrow> dev_at (put_at m r d) r' = (if r' = r then Some d else dev_at m r')"
proof (cases r)
  case (PrivDev key)
  assume "dev_at m r \<noteq> None"
  then obtain i where i: "find_key key (m_c_list m) = Some i" by (auto simp: PrivDev priv_dev_def)
  let ?ls = "(m_c_list m)[i := (m_c_list m ! i)\<lparr>li_device := d\<rparr>]"
  note ok = find_key_Some [OF i]
  have same: "find_key k ?ls = find_key k (m_c_list m)" for k using ok by (intro find_key_upd) auto
  have ne: "find_key k (m_c_list m) = Some j \<Longrightarrow> k \<noteq> key \<Longrightarrow> j \<noteq> i" for k j
    using find_key_Some [of k "m_c_list m" j] ok by auto
  show ?thesis
  proof (cases r')
    case r': (PrivDev k)
    then show ?thesis
      using PrivDev i ok ne [of k] same [of k] by (cases "find_key k (m_c_list m)") (auto simp: priv_dev_def)
  qed (simp_all add: PrivDev i)
qed (cases r'; auto split: option.splits prod.splits)+

interpretation devs: cell_array dev_at put_at
  by unfold_locales (rule dev_at_put_at)

interpretation pipes: cell_array pipe_at put_pipe_at
  by unfold_locales (auto simp: pipe_at_def put_pipe_at_def split: option.splits prod.splits if_splits)

lemma pipe_at_put_at [simp]: "pipe_at (put_at m r d) i = pipe_at m i"
  by (cases r) (auto simp: pipe_at_def split: option.splits)

lemma dev_at_put_pipe_at [simp]: "dev_at (put_pipe_at m i p) r = dev_at m r"
  by (cases r) (auto simp: put_pipe_at_def)

lemma put_at_fields [simp]:
  "m_params (put_at m r d) = m_params m" "length (m_a_devices (put_at m r d)) = length (m_a_devices m)"
  "m_params (put_pipe_at m i p) = m_params m" "m_a_devices (put_pipe_at m i p) = m_a_devices m"
  by (cases r; auto simp: put_pipe_at_def split: option.splits)+

lemma put_at_keys [simp]: "map li_key (m_c_list (put_at m r d)) = map li_key (m_c_list m)"
proof (cases r)
  case (PrivDev key)
  show ?thesis
  proof (cases "find_key key (m_c_list m)")
    case (Some i)
    then show ?thesis
      using find_key_Some [OF Some] by (auto simp: PrivDev map_update intro: list_update_same_conv [THEN iffD2])
  qed (simp add: PrivDev)
qed simp_all

lemma put_pipe_at_keys [simp]: "m_c_list (put_pipe_at m i p) = m_c_list m"
  by (simp add: put_pipe_at_def)

lemma in_use_put [simp]:
  "in_use m (put_at m r d)" "in_use m (put_pipe_at m i p)" "in_use m (m\<lparr>m_params := g\<rparr>)" "in_use m (m\<lparr>m_c_list := ls\<rparr>)" "in_use m m"
  by (cases r; auto simp: in_use_def put_pipe_at_def option.map_comp comp_def case_prod_unfold split: option.splits)+

lemma m_params_at [simp]:
  "dev_at (m\<lparr>m_params := g\<rparr>) r = dev_at m r" "pipe_at (m\<lparr>m_params := g\<rparr>) i = pipe_at m i"
  by (cases r; simp add: pipe_at_def)+

lemma put_at_same: "dev_at m r = Some d \<Longrightarrow> put_at m r d = m"
  by (cases r) (auto simp: priv_dev_def split: option.splits prod.splits if_splits)

declare dev_at.simps [simp del] put_at.simps [simp del]

lemma put_dev_fields [simp]:
  "dr_mod (put_dev s r d) = put_at (dr_mod s) r d" "dr_files (put_dev s r d) = dr_files s"
  "dr_s_available (put_dev s r d) = dr_s_available s"
  "dr_u_count (put_dev s r d) = dr_u_count s" "dr_u_owner (put_dev s r d) = dr_u_owner s"
  "dr_w_count (put_dev s r d) = dr_w_count s" "dr_w_owner (put_dev s r d) = dr_w_owner s"
  by (simp_all add: put_dev_def)

lemma put_pipe_fields [simp]:
  "dr_mod (put_pipe s i p) = put_pipe_at (dr_mod s) i p" "dr_files (put_pipe s i p) = dr_files s"
  "dr_s_available (put_pipe s i p) = dr_s_available s"
  "dr_u_count (put_pipe s i p) = dr_u_count s" "dr_u_owner (put_pipe s i p) = dr_u_owner s"
  "dr_w_count (put_pipe s i p) = dr_w_count s" "dr_w_owner (put_pipe s i p) = dr_w_owner s"
  by (simp_all add: put_pipe_def)

section \<open>Counting open files\<close>

definition num_files :: "(struct_file \<Rightarrow> bool) \<Rightarrow> (nat \<Rightarrow> struct_file option) \<Rightarrow> int" where
  "num_files P fs = int (card {fd. \<exists>f. fs fd = Some f \<and> P f})"

lemma num_files_finite: "finite (dom fs) \<Longrightarrow> finite {fd. \<exists>f. fs fd = Some f \<and> P f}"
  by (rule rev_finite_subset) auto

lemma num_files_nonneg [simp]: "0 \<le> num_files P fs"
  by (simp add: num_files_def)

lemma num_files_new:
  assumes "finite (dom fs)" and "fs fd = None"
  shows "num_files P (fs(fd \<mapsto> f)) = num_files P fs + (if P f then 1 else 0)"
proof -
  have "{x. \<exists>g. (fs(fd \<mapsto> f)) x = Some g \<and> P g} =
      (if P f then insert fd {x. \<exists>g. fs x = Some g \<and> P g} else {x. \<exists>g. fs x = Some g \<and> P g})"
    using assms(2) by auto
  then show ?thesis using assms num_files_finite [OF assms(1), of P] by (auto simp: num_files_def)
qed

lemma num_files_close:
  assumes "finite (dom fs)" and "fs fd = Some f"
  shows "num_files P (fs(fd := None)) = num_files P fs - (if P f then 1 else 0)"
proof -
  have "(fs(fd := None))(fd \<mapsto> f) = fs" using assms(2) by (auto simp: fun_eq_iff)
  then show ?thesis using num_files_new [of "fs(fd := None)" fd P f] assms(1) by simp
qed

lemma num_files_same:
  assumes "fs fd = Some f" and "P f' = P f"
  shows "num_files P (fs(fd \<mapsto> f')) = num_files P fs"
proof -
  have "{x. \<exists>g. (fs(fd \<mapsto> f')) x = Some g \<and> P g} = {x. \<exists>g. fs x = Some g \<and> P g}" using assms by auto
  then show ?thesis by (simp add: num_files_def)
qed

lemma num_files_pos: "finite (dom fs) \<Longrightarrow> fs fd = Some f \<Longrightarrow> P f \<Longrightarrow> 0 < num_files P fs"
  using num_files_finite [of fs P] by (auto simp: num_files_def card_gt_0_iff)

section \<open>The state typing and the invariant\<close>

text \<open>
  A file is well typed when its \<open>private_data\<close> leads to an existing structure of the type that the methods
  of its table cast the pointer to, and to the device that the file was opened on.
\<close>

definition well_typed :: "scull_module \<Rightarrow> struct_file \<Rightarrow> bool" where
  "well_typed m f \<longleftrightarrow>
     (case f_cdev f of
        MainCdev i \<Rightarrow> private_data f = Some (MainDev i) \<and> dev_at m (MainDev i) \<noteq> None
      | PipeCdev i \<Rightarrow> private_data f = Some (PipeDev i) \<and> pipe_at m i \<noteq> None
      | AccessCdev i \<Rightarrow>
          i < 3 \<and> private_data f = Some (AccessDev i) \<and> dev_at m (AccessDev i) \<noteq> None \<or>
          i = 3 \<and> (\<exists>key. private_data f = Some (PrivDev key) \<and> dev_at m (PrivDev key) \<noteq> None))"

text \<open>
  The invariant in two degrees: \<open>K\<close> says whether all calls so far were made within the limits. Only then
  are the devices well formed; the rest holds in any case.
\<close>

definition devs_ok :: "bool \<Rightarrow> scull_module \<Rightarrow> bool" where
  "devs_ok K m \<longleftrightarrow> length (m_a_devices m) = 4 \<and> distinct (map li_key (m_c_list m)) \<and>
     (\<forall>r d. dev_at m r = Some d \<longrightarrow> (K \<longrightarrow> scull_wf d) \<and> \<not> sd_lock d)"

definition files_ok :: "scull_module \<Rightarrow> (nat \<Rightarrow> struct_file option) \<Rightarrow> bool" where
  "files_ok m fs \<longleftrightarrow> finite (dom fs) \<and> (\<forall>fd f. fs fd = Some f \<longrightarrow> well_typed m f)"

definition reads_pipe :: "nat \<Rightarrow> struct_file \<Rightarrow> bool" where
  "reads_pipe i f \<longleftrightarrow> f_cdev f = PipeCdev i \<and> fm_read (f_mode f)"

definition writes_pipe :: "nat \<Rightarrow> struct_file \<Rightarrow> bool" where
  "writes_pipe i f \<longleftrightarrow> f_cdev f = PipeCdev i \<and> fm_write (f_mode f)"

text \<open>A pipe counts its readers and writers, and has a buffer as long as there are any.\<close>

definition pipe_counted :: "bool \<Rightarrow> (nat \<Rightarrow> struct_file option) \<Rightarrow> nat \<Rightarrow> scull_pipe \<Rightarrow> bool" where
  "pipe_counted K fs i p \<longleftrightarrow> (K \<longrightarrow> pipe_inv p) \<and> \<not> sp_lock p \<and>
     sp_nreaders p = num_files (reads_pipe i) fs \<and> sp_nwriters p = num_files (writes_pipe i) fs \<and>
     (sp_buffer p = None \<longrightarrow> sp_nreaders p = 0 \<and> sp_nwriters p = 0)"

definition pipes_ok :: "bool \<Rightarrow> scull_module \<Rightarrow> (nat \<Rightarrow> struct_file option) \<Rightarrow> bool" where
  "pipes_ok K m fs \<longleftrightarrow> (\<forall>i p. pipe_at m i = Some p \<longrightarrow> pipe_counted K fs i p)"

abbreviation on_cdev :: "cdev \<Rightarrow> struct_file \<Rightarrow> bool" where
  "on_cdev c f \<equiv> f_cdev f = c"

definition users_ok :: "scull_driver \<Rightarrow> bool" where
  "users_ok s \<longleftrightarrow>
     dr_s_available s = 1 - num_files (on_cdev (AccessCdev 0)) (dr_files s) \<and>
     num_files (on_cdev (AccessCdev 0)) (dr_files s) \<le> 1 \<and>
     dr_u_count s = num_files (on_cdev (AccessCdev 1)) (dr_files s) \<and>
     dr_w_count s = num_files (on_cdev (AccessCdev 2)) (dr_files s) \<and>
     (\<forall>fd f. dr_files s fd = Some f \<longrightarrow>
        (f_cdev f = AccessCdev 1 \<longrightarrow> admitted (f_cred f) (dr_u_owner s)) \<and>
        (f_cdev f = AccessCdev 2 \<longrightarrow> admitted (f_cred f) (dr_w_owner s)))"

definition drv_inv :: "bool \<Rightarrow> scull_driver \<Rightarrow> bool" where
  "drv_inv K s \<longleftrightarrow> devs_ok K (dr_mod s) \<and> files_ok (dr_mod s) (dr_files s) \<and> pipes_ok K (dr_mod s) (dr_files s) \<and> users_ok s"

section \<open>What a call changes\<close>

text \<open>The device behind \<open>r\<close> is replaced by a sound one, or created; nothing else of the module changes.\<close>

definition dev_change :: "bool \<Rightarrow> devref \<Rightarrow> scull_driver \<Rightarrow> scull_driver \<Rightarrow> bool" where
  "dev_change K r s s' \<longleftrightarrow>
     (\<forall>r'. r' \<noteq> r \<longrightarrow> dev_at (dr_mod s') r' = dev_at (dr_mod s) r') \<and>
     (\<exists>d. dev_at (dr_mod s') r = Some d \<and> (K \<longrightarrow> scull_wf d) \<and> \<not> sd_lock d) \<and>
     pipe_at (dr_mod s') = pipe_at (dr_mod s) \<and> dr_params s' = dr_params s \<and>
     (distinct (map li_key (m_c_list (dr_mod s))) \<longrightarrow> distinct (map li_key (m_c_list (dr_mod s')))) \<and>
     in_use (dr_mod s) (dr_mod s') \<and> dr_files s' = dr_files s"

definition same_users :: "scull_driver \<Rightarrow> scull_driver \<Rightarrow> bool" where
  "same_users s s' \<longleftrightarrow> dr_s_available s' = dr_s_available s \<and> dr_u_count s' = dr_u_count s \<and>
     dr_u_owner s' = dr_u_owner s \<and> dr_w_count s' = dr_w_count s \<and> dr_w_owner s' = dr_w_owner s"

lemma same_users_put [simp]: "same_users s (put_dev s r d)" "same_users s (put_pipe s i p)" "same_users s s"
  by (simp_all add: same_users_def)

lemma dev_change_put:
  "dev_at (dr_mod s) r \<noteq> None \<Longrightarrow> (K \<longrightarrow> scull_wf d) \<Longrightarrow> \<not> sd_lock d \<Longrightarrow> dev_change K r s (put_dev s r d)"
  by (auto simp: dev_change_def devs.get_put)

lemma dev_change_in_use: "dev_change K r s s' \<Longrightarrow> in_use (dr_mod s) (dr_mod s')"
  by (simp add: dev_change_def)

lemma dev_change_devs_ok: "devs_ok K (dr_mod s) \<Longrightarrow> dev_change K r s s' \<Longrightarrow> devs_ok K (dr_mod s')"
  unfolding devs_ok_def dev_change_def in_use_def by (metis option.inject)

lemma well_typed_mono:
  assumes "well_typed m f" and "\<And>r. dev_at m r \<noteq> None \<Longrightarrow> dev_at m' r \<noteq> None"
    and "\<And>i. pipe_at m i \<noteq> None \<Longrightarrow> pipe_at m' i \<noteq> None"
  shows "well_typed m' f"
  using assms(1) assms(2) [of "MainDev _"] assms(2) [of "AccessDev _"] assms(2) [of "PrivDev _"] assms(3)
  unfolding well_typed_def by (auto split: cdev.splits)

lemma dev_change_typed:
  assumes "dev_change K r s s'" and "well_typed (dr_mod s) f"
  shows "well_typed (dr_mod s') f"
proof (rule well_typed_mono [OF assms(2)])
  show "dev_at (dr_mod s') r' \<noteq> None" if "dev_at (dr_mod s) r' \<noteq> None" for r'
    using assms(1) that unfolding dev_change_def by (cases "r' = r") auto
qed (use assms(1) in \<open>simp add: dev_change_def\<close>)

lemma drv_inv_dev_change:
  assumes "drv_inv K s" and "dev_change K r s s'" and "same_users s s'"
  shows "drv_inv K s'"
proof -
  have "files_ok (dr_mod s') (dr_files s')" "pipes_ok K (dr_mod s') (dr_files s')" "users_ok s'"
    using assms dev_change_typed [OF assms(2)]
    by (auto simp: drv_inv_def files_ok_def pipes_ok_def users_ok_def dev_change_def same_users_def)
  then show ?thesis using assms(1) dev_change_devs_ok [OF _ assms(2)] by (simp add: drv_inv_def)
qed

text \<open>A new position of a file changes nothing that the invariant looks at.\<close>

lemma set_file_fields [simp]:
  "dr_mod (set_file s fd f) = dr_mod s" "dr_files (set_file s fd f) = (dr_files s)(fd := f)"
  "same_users s (set_file s fd f)"
  by (simp_all add: set_file_def same_users_def)

lemma f_mode_pos [simp]: "f_mode (f\<lparr>f_pos := p\<rparr>) = f_mode f" "f_mode (f\<lparr>private_data := q\<rparr>) = f_mode f"
  by (simp_all add: f_mode_def)

lemma pipe_counted_cong:
  "num_files (reads_pipe i) fs' = num_files (reads_pipe i) fs \<Longrightarrow>
   num_files (writes_pipe i) fs' = num_files (writes_pipe i) fs \<Longrightarrow> pipe_counted K fs' i p = pipe_counted K fs i p"
  by (simp add: pipe_counted_def)

lemma drv_inv_seek:
  assumes "drv_inv K s" and f: "dr_files s fd = Some f"
  shows "drv_inv K (set_file s fd (Some (f\<lparr>f_pos := p\<rparr>)))"
proof -
  let ?fs = "(dr_files s)(fd \<mapsto> f\<lparr>f_pos := p\<rparr>)"
  have n: "num_files P ?fs = num_files P (dr_files s)" if "P (f\<lparr>f_pos := p\<rparr>) = P f" for P
    using that by (rule num_files_same [where fs = "dr_files s" and fd = fd, OF f])
  have "well_typed (dr_mod s) (f\<lparr>f_pos := p\<rparr>) = well_typed (dr_mod s) f"
    by (simp add: well_typed_def cong: cdev.case_cong)
  then have "files_ok (dr_mod s) ?fs" using assms by (auto simp: drv_inv_def files_ok_def)
  moreover have "pipe_counted K ?fs = pipe_counted K (dr_files s)"
    by (intro ext pipe_counted_cong n) (simp_all add: reads_pipe_def writes_pipe_def)
  then have "pipes_ok K (dr_mod s) ?fs" using assms(1) by (simp add: drv_inv_def pipes_ok_def)
  moreover have "users_ok (set_file s fd (Some (f\<lparr>f_pos := p\<rparr>)))"
    using assms n [of "on_cdev _"] by (auto simp: drv_inv_def users_ok_def set_file_def)
  ultimately show ?thesis using assms(1) by (simp add: drv_inv_def)
qed

text \<open>A file on a device that keeps no count, and one on any device.\<close>

lemma files_ok_new:
  "files_ok m fs \<Longrightarrow> well_typed m f \<Longrightarrow> files_ok m (fs(fd \<mapsto> f))"
  by (auto simp: files_ok_def)

lemma files_ok_close: "files_ok m fs \<Longrightarrow> files_ok m (fs(fd := None))"
  by (auto simp: files_ok_def)

lemma pipes_ok_new:
  assumes "pipes_ok K m fs" and "finite (dom fs)" "fs fd = None" and "\<And>i. f_cdev f \<noteq> PipeCdev i"
  shows "pipes_ok K m (fs(fd \<mapsto> f))"
proof -
  have "pipe_counted K (fs(fd \<mapsto> f)) = pipe_counted K fs"
    by (intro ext pipe_counted_cong) (simp_all add: num_files_new [OF assms(2,3)] reads_pipe_def writes_pipe_def assms(4))
  then show ?thesis using assms(1) by (simp add: pipes_ok_def)
qed

lemma pipes_ok_close:
  assumes "pipes_ok K m fs" and "finite (dom fs)" "fs fd = Some f" and "\<And>i. f_cdev f \<noteq> PipeCdev i"
  shows "pipes_ok K m (fs(fd := None))"
proof -
  have "pipe_counted K (fs(fd := None)) = pipe_counted K fs"
    by (intro ext pipe_counted_cong) (simp_all add: num_files_close [OF assms(2,3)] reads_pipe_def writes_pipe_def assms(4))
  then show ?thesis using assms(1) by (simp add: pipes_ok_def)
qed

section \<open>Typing of the methods\<close>

text \<open>The pointer of a well-typed file, for the methods of the devices and for those of the pipe.\<close>

lemma typed_dev:
  assumes "well_typed m f" and "\<And>i. f_cdev f \<noteq> PipeCdev i"
  obtains r d where "private_data f = Some r" "dev_at m r = Some d"
  using assms unfolding well_typed_def by (auto split: cdev.splits)

lemma typed_pipe:
  assumes "well_typed m f" and "f_cdev f = PipeCdev i"
  obtains p where "private_data f = Some (PipeDev i)" "pipe_at m i = Some p"
  using assms that unfolding well_typed_def by auto

text \<open>The tables of all devices but the pipe share the methods of the bare device.\<close>

lemma fops_of_access [simp]:
  "fops_of (AccessCdev 0) = scull_sngl_fops" "fops_of (AccessCdev (Suc 0)) = scull_user_fops"
  "fops_of (AccessCdev 1) = scull_user_fops"
  "fops_of (AccessCdev 2) = scull_wusr_fops" "fops_of (AccessCdev 3) = scull_priv_fops"
  by (simp_all add: scull_access_devs_def)

declare fops_of.simps(3) [simp del]

lemma access_cases:
  assumes "cdev_present m (AccessCdev i)"
  obtains "i = 0" | "i = 1" | "i = 2" | "i = 3"
proof -
  from assms have "i < 4" by (simp add: scull_access_devs_def)
  then consider "i = 0" | "i = 1" | "i = 2" | "i = 3" by linarith
  then show thesis using that by cases auto
qed

lemma typed_present: "well_typed m f \<Longrightarrow> cdev_present m (f_cdev f)"
  by (auto simp: well_typed_def scull_access_devs_def split: cdev.splits)

lemma fops_shared:
  assumes "cdev_present m c" and "\<And>i. c \<noteq> PipeCdev i"
  shows "fo_read (fops_of c) = drv_read" "fo_write (fops_of c) = drv_write" "fo_llseek (fops_of c) = Some drv_llseek"
    "fo_fasync (fops_of c) = None" "fo_poll (fops_of c) = None"
proof -
  have "fops_of c \<in> {scull_fops, scull_sngl_fops, scull_user_fops, scull_wusr_fops, scull_priv_fops}"
  proof (cases c)
    case (AccessCdev i)
    then have "cdev_present m (AccessCdev i)" using assms(1) by simp
    then show ?thesis unfolding AccessCdev by (rule access_cases) simp_all
  qed (use assms(2) in auto)
  then show "fo_read (fops_of c) = drv_read" "fo_write (fops_of c) = drv_write"
    "fo_llseek (fops_of c) = Some drv_llseek" "fo_fasync (fops_of c) = None" "fo_poll (fops_of c) = None"
    by (auto simp: fops_defs)
qed

lemma fo_ioctl_shared: "cdev_present m c \<Longrightarrow> fo_ioctl (fops_of c) = drv_ioctl"
proof (cases c)
  case (AccessCdev i)
  assume "cdev_present m c"
  then have "cdev_present m (AccessCdev i)" using AccessCdev by simp
  then show ?thesis unfolding AccessCdev by (rule access_cases) (simp_all add: fops_defs)
qed (auto simp: fops_defs)

lemma dev_sound: "drv_inv K s \<Longrightarrow> dev_at (dr_mod s) r = Some d \<Longrightarrow> (K \<longrightarrow> scull_wf d) \<and> \<not> sd_lock d"
  by (simp add: drv_inv_def devs_ok_def)

lemma pipe_sound: "drv_inv K s \<Longrightarrow> pipe_at (dr_mod s) i = Some p \<Longrightarrow> pipe_counted K (dr_files s) i p"
  by (simp add: drv_inv_def pipes_ok_def)

lemma file_typed: "drv_inv K s \<Longrightarrow> dr_files s fd = Some f \<Longrightarrow> well_typed (dr_mod s) f"
  by (simp add: drv_inv_def files_ok_def)

lemma drv_inv_finite: "drv_inv K s \<Longrightarrow> finite (dom (dr_files s))"
  by (simp add: drv_inv_def files_ok_def)

text \<open>An open file that may read or write a pipe finds its buffer.\<close>

lemma open_pipe_buffer:
  assumes "drv_inv K s" and "dr_files s fd = Some f" and "f_cdev f = PipeCdev i" and "fm_read (f_mode f) \<or> fm_write (f_mode f)"
    and "pipe_at (dr_mod s) i = Some p"
  shows "sp_buffer p \<noteq> None" and "\<not> sp_lock p" and "K \<longrightarrow> pipe_wf p"
proof -
  have c: "pipe_counted K (dr_files s) i p" using pipe_sound [OF assms(1,5)] .
  have "0 < num_files (reads_pipe i) (dr_files s) \<or> 0 < num_files (writes_pipe i) (dr_files s)"
    using num_files_pos [OF drv_inv_finite [OF assms(1)] assms(2)] assms(3,4)
    by (auto simp: reads_pipe_def writes_pipe_def)
  then show "sp_buffer p \<noteq> None" using c by (auto simp: pipe_counted_def)
  then show "\<not> sp_lock p" "K \<longrightarrow> pipe_wf p" using c by (auto simp: pipe_counted_def pipe_inv_def)
qed

text \<open>Reading and writing a pipe terminate without a fault, and leave its counts alone.\<close>

lemma scull_p_read_total:
  assumes "pipe_wf p" and "0 \<le> n" "n < 2 ^ 63"
  shows "is_done (scull_p_read left intr nonblock [] p n)"
proof -
  let ?p = "p\<lparr>sp_lock := True\<rparr>"
  have wf: "pipe_wf ?p" using assms(1) by simp
  show ?thesis
    using p_read_data_run [OF wf _ assms(2,3), of left] by (simp add: scull_p_read_def)
qed

lemma scull_p_write_total:
  assumes "pipe_wf p"
  shows "is_done (scull_p_write left intr nonblock [] p buf)"
proof -
  let ?p = "p\<lparr>sp_lock := True\<rparr>"
  have wf: "pipe_wf ?p" using assms(1) by simp
  have "is_done (p_write_data left ?p buf)" by (rule p_write_data_run [OF wf, of left buf]) simp_all
  then show ?thesis by (simp add: scull_p_write_def spacefree_room(1) [OF wf])
qed

lemma p_read_wait_nil:
  "p_read_wait nonblock [] p =
     (if sp_rp p \<noteq> sp_wp p then Holding p else if nonblock then GaveUp (p_unlock p) EAGAIN else Asleep (p_unlock p))"
  by (subst p_read_wait.simps) (simp del: p_read_wait.simps)

lemma scull_p_read_counts:
  "scull_p_read left intr nonblock [] p n = Done (Returned p' v bs nt) \<Longrightarrow>
   sp_nreaders p' = sp_nreaders p \<and> sp_nwriters p' = sp_nwriters p \<and> sp_buffer p' = sp_buffer p \<and>
   (\<not> sp_lock p \<longrightarrow> \<not> sp_lock p')"
  by (auto simp: scull_p_read_def p_read_wait_nil p_read_data_def p_unlock_def Let_def copy_to_user_def exec_simps
    simp del: p_read_wait.simps split: if_splits option.splits)

lemma getwritespace_nil:
  "scull_getwritespace nonblock [] p = kbind (spacefree p) (\<lambda>free.
     Done (if free \<noteq> 0 then Holding p else if nonblock then GaveUp (p_unlock p) EAGAIN else Asleep (p_unlock p)))"
  by (subst scull_getwritespace.simps) (rule arg_cong [where f = "kbind (spacefree p)"], rule ext, simp del: scull_getwritespace.simps)

lemma p_write_data_counts:
  assumes "p_write_data left p buf = Done (Returned p' v bs nt)"
  shows "sp_nreaders p' = sp_nreaders p \<and> sp_nwriters p' = sp_nwriters p \<and> sp_buffer p' \<noteq> None \<and> \<not> sp_lock p'"
proof (cases "spacefree p"; cases "sp_buffer p")
  fix free b
  assume f: "spacefree p = Done free" and "sp_buffer p = Some b"
  then obtain a m where b: "sp_buffer p = Some (a, m)" by (cases b) auto
  define n where "n = (if sp_wp p \<ge> sp_rp p then min (min (int (length buf)) (u64 free)) (u64 (sp_end p - sp_wp p))
    else min (min (int (length buf)) (u64 free)) (u64 (sp_rp p - sp_wp p - 1)))"
  obtain uncopied cs where c: "copy_from_user left (take (nat n) buf) = (uncopied, cs)" by force
  note run = assms [unfolded p_write_data_def Let_def f b kbind.simps option.case prod.case, folded n_def, unfolded c prod.case]
  then obtain m' where "mem_write m (sp_wp p) cs = Done m'" by (cases "mem_write m (sp_wp p) cs") auto
  then show ?thesis using run b by (cases "uncopied = 0") (auto simp: p_unlock_def)
qed (use assms in \<open>simp_all add: p_write_data_def Let_def\<close>)

lemma scull_p_write_counts:
  assumes "scull_p_write left intr nonblock [] p buf = Done (Returned p' v bs nt)"
  shows "sp_nreaders p' = sp_nreaders p \<and> sp_nwriters p' = sp_nwriters p \<and> (sp_buffer p' = None \<longrightarrow> sp_buffer p = None) \<and>
    (\<not> sp_lock p \<longrightarrow> \<not> sp_lock p')"
  using assms p_write_data_counts [of left "p\<lparr>sp_lock := True\<rparr>" buf p' v bs nt]
  by (auto simp: scull_p_write_def getwritespace_nil p_unlock_def kbind_eq_Done
    simp del: scull_getwritespace.simps split: if_splits)

section \<open>The specification of the whole driver\<close>

text \<open>
  For every device a map from positions to bytes, for every pipe a queue. An event is accepted by the
  device it happens on, and changes nothing else.
\<close>

type_synonym drv_spec = "(devref \<Rightarrow> int \<Rightarrow> byte option) \<times> (nat \<Rightarrow> byte list)"

fun drv_spec_step :: "drv_event \<Rightarrow> drv_spec \<Rightarrow> drv_spec option" where
  "drv_spec_step Quiet \<sigma> = Some \<sigma>"
| "drv_spec_step (OnDev r ev) (A, Q) = (if spec_allows (A r) ev then Some (A(r := spec_step (A r) ev), Q) else None)"
| "drv_spec_step (OnPipe i ev) (A, Q) = map_option (\<lambda>q. (A, Q(i := q))) (queue_step ev (Q i))"

fun drv_spec_run :: "drv_event list \<Rightarrow> drv_spec \<Rightarrow> drv_spec option" where
  "drv_spec_run [] \<sigma> = Some \<sigma>"
| "drv_spec_run (ev # evs) \<sigma> = Option.bind (drv_spec_step ev \<sigma>) (drv_spec_run evs)"

lemma drv_spec_run_snoc: "drv_spec_run (evs @ [ev]) \<sigma> = Option.bind (drv_spec_run evs \<sigma>) (drv_spec_step ev)"
  by (induction evs arbitrary: \<sigma>) (auto simp: bind_eq_Some_conv split: Option.bind_split)

text \<open>A device holds at least what the specification knows; a device that does not exist holds nothing.\<close>

definition holds_map :: "(int \<Rightarrow> byte option) \<Rightarrow> scull_dev option \<Rightarrow> bool" where
  "holds_map a x \<longleftrightarrow> (case x of None \<Rightarrow> a = Map.empty | Some d \<Rightarrow> a \<subseteq>\<^sub>m scull_byte d)"

definition drv_abs :: "drv_spec \<Rightarrow> scull_module \<Rightarrow> bool" where
  "drv_abs \<sigma> m \<longleftrightarrow> (\<forall>r. holds_map (fst \<sigma> r) (dev_at m r)) \<and>
     (\<forall>i p. pipe_at m i = Some p \<longrightarrow> snd \<sigma> i = pipe_contents p)"

text \<open>The step is allowed by the specification, and the states correspond again.\<close>

definition drv_sim :: "scull_driver \<Rightarrow> drv_event \<Rightarrow> scull_driver \<Rightarrow> bool" where
  "drv_sim s ev s' \<longleftrightarrow>
     (\<forall>\<sigma>. drv_abs \<sigma> (dr_mod s) \<longrightarrow> (\<exists>\<sigma>'. drv_spec_step ev \<sigma> = Some \<sigma>' \<and> drv_abs \<sigma>' (dr_mod s')))"

lemma drv_sim_cong: "dr_mod s'' = dr_mod s' \<Longrightarrow> drv_sim s ev s'' = drv_sim s ev s'"
  by (simp add: drv_sim_def)

lemma drv_sim_set_file [simp]: "drv_sim s ev (set_file s' fd f) = drv_sim s ev s'"
  by (rule drv_sim_cong) simp

lemma drv_sim_quiet:
  assumes "\<And>r. dev_at (dr_mod s') r = dev_at (dr_mod s) r"
    and "\<And>i p'. pipe_at (dr_mod s') i = Some p' \<Longrightarrow> \<exists>p. pipe_at (dr_mod s) i = Some p \<and> pipe_contents p' = pipe_contents p"
  shows "drv_sim s Quiet s'"
  unfolding drv_sim_def drv_abs_def using assms by fastforce

text \<open>A step on one device, in terms of this device alone.\<close>

lemma drv_sim_on_dev:
  assumes "dev_change K r s s'"
    and "\<And>a. holds_map a (dev_at (dr_mod s) r) \<Longrightarrow>
      spec_allows a ev \<and> holds_map (spec_step a ev) (dev_at (dr_mod s') r)"
  shows "drv_sim s (OnDev r ev) s'"
  unfolding drv_sim_def
proof (intro allI impI)
  fix \<sigma> assume abs: "drv_abs \<sigma> (dr_mod s)"
  obtain A Q where \<sigma>: "\<sigma> = (A, Q)" by (cases \<sigma>)
  have "holds_map (A r) (dev_at (dr_mod s) r)" using abs by (simp add: drv_abs_def \<sigma>)
  note a = assms(2) [OF this]
  have "drv_abs (A(r := spec_step (A r) ev), Q) (dr_mod s')"
    using abs a assms(1) by (auto simp: drv_abs_def dev_change_def \<sigma>)
  then show "\<exists>\<sigma>'. drv_spec_step (OnDev r ev) \<sigma> = Some \<sigma>' \<and> drv_abs \<sigma>' (dr_mod s')" using a \<sigma> by auto
qed

lemma drv_sim_same_dev:
  assumes "dev_change K r s s'" and "\<And>a. holds_map a (dev_at (dr_mod s) r) \<Longrightarrow> holds_map a (dev_at (dr_mod s') r)"
  shows "drv_sim s Quiet s'"
  unfolding drv_sim_def
proof (intro allI impI)
  fix \<sigma> assume "drv_abs \<sigma> (dr_mod s)"
  then have "holds_map (fst \<sigma> r') (dev_at (dr_mod s') r')" for r'
    using assms by (cases "r' = r") (auto simp: drv_abs_def dev_change_def)
  with \<open>drv_abs \<sigma> (dr_mod s)\<close> show "\<exists>\<sigma>'. drv_spec_step Quiet \<sigma> = Some \<sigma>' \<and> drv_abs \<sigma>' (dr_mod s')"
    using assms(1) by (auto simp: drv_abs_def dev_change_def)
qed

text \<open>A step on one pipe, in terms of this pipe alone.\<close>

lemma drv_sim_on_pipe:
  assumes "pipe_at (dr_mod s) i = Some p" and "dr_mod s' = put_pipe_at (dr_mod s) i p'"
    and "queue_step ev (pipe_contents p) = Some (pipe_contents p')"
  shows "drv_sim s (OnPipe i ev) s'"
  unfolding drv_sim_def
proof (intro allI impI)
  fix \<sigma> assume abs: "drv_abs \<sigma> (dr_mod s)"
  obtain A Q where \<sigma>: "\<sigma> = (A, Q)" by (cases \<sigma>)
  have "Q i = pipe_contents p" using abs assms(1) by (simp add: drv_abs_def \<sigma>)
  moreover have "drv_abs (A, Q(i := pipe_contents p')) (dr_mod s')"
    using abs assms(1) by (auto simp: drv_abs_def \<sigma> assms(2) pipes.get_put split: if_splits)
  ultimately show "\<exists>\<sigma>'. drv_spec_step (OnPipe i ev) \<sigma> = Some \<sigma>' \<and> drv_abs \<sigma>' (dr_mod s')"
    using assms(3) \<sigma> by auto
qed

section \<open>Reading, writing and seeking a device\<close>

lemma scull_write_total_exec:
  assumes "scull_wf d" and "pos_ok d f" and "kmalloc_sized km"
  shows "is_done (scull_write km intr left d buf f)"
proof (cases intr)
  case False
  then have intr: "intr = False" by simp
  from assms show ?thesis unfolding intr by (rule scull_write_run [of d f km left buf]) simp_all
qed (simp add: scull_write_def)

text \<open>The methods that go through \<open>private_data\<close>, at a well-typed file.\<close>

lemma filp_dev_typed: "private_data f = Some r \<Longrightarrow> dev_at (dr_mod s) r = Some d \<Longrightarrow> filp_dev s f = Done (r, d)"
  by (simp add: filp_dev_def dev_of_def)

lemma filp_pipe_typed: "private_data f = Some (PipeDev i) \<Longrightarrow> pipe_at (dr_mod s) i = Some p \<Longrightarrow> filp_pipe s f = Done (i, p)"
  by (simp add: filp_pipe_def pipe_of_def)

lemma dev_not_pipe: "dev_at m r = Some d \<Longrightarrow> r \<noteq> PipeDev i"
  by (auto simp: dev_at.simps)

text \<open>The mutex is free when a call returns, whatever its arguments were.\<close>

lemma read_copy_unlocks: "read_copy left quantum n f d q_pos mem = Done (d', f', v, bs) \<Longrightarrow> \<not> sd_lock d'"
  by (auto simp: read_copy_def unlock_dev_def Let_def exec_simps split: if_split_asm prod.split_asm)

lemma scull_read_unlocks:
  assumes "scull_read km intr left d n f = Done (d', f', v, bs)" and "\<not> sd_lock d"
  shows "\<not> sd_lock d'"
proof (cases "intr \<or> sd_size d \<le> u64 f")
  case False
  with assms obtain item s_pos q_pos where loc: "scull_locate (sd_quantum d) (sd_qset d) f = Done (item, s_pos, q_pos)"
    by (auto simp: scull_read_def scull_read_locked_def Let_def kbind_eq_Done)
  obtain d1 k x where fol: "scull_follow km (d\<lparr>sd_lock := True\<rparr>) item = (d1, k, x)" by (metis prod_cases3)
  show ?thesis using assms(1) False loc fol
    by (auto simp: scull_read_def scull_read_locked_def unlock_dev_def Let_def kbind_eq_Done dest: read_copy_unlocks
      split: if_split_asm prod.split_asm option.split_asm)
qed (use assms in \<open>auto simp: scull_read_def scull_read_locked_def unlock_dev_def Let_def split: if_split_asm\<close>)

lemma write_copy_unlocks:
  "write_copy left quantum buf f d n a arr s_pos q_pos b mem = Done (d', f', v) \<Longrightarrow> \<not> sd_lock d'"
  by (auto simp: write_copy_def unlock_dev_def Let_def exec_simps split: if_split_asm prod.split_asm)

lemma scull_write_unlocks:
  assumes "scull_write km intr left d buf f = Done (d', f', v)" and "\<not> sd_lock d"
  shows "\<not> sd_lock d'"
proof (cases intr)
  case False
  with assms obtain item s_pos q_pos where loc: "scull_locate (sd_quantum d) (sd_qset d) f = Done (item, s_pos, q_pos)"
    by (auto simp: scull_write_def scull_write_locked_def Let_def kbind_eq_Done)
  obtain d1 k x where fol: "scull_follow km (d\<lparr>sd_lock := True\<rparr>) item = (d1, k, x)" by (metis prod_cases3)
  show ?thesis using assms(1) False loc fol
    by (auto simp: scull_write_def scull_write_locked_def unlock_dev_def Let_def kbind_eq_Done dest: write_copy_unlocks
      split: if_split_asm prod.split_asm option.split_asm)
qed (use assms in \<open>auto simp: scull_write_def\<close>)

lemma drv_read_done:
  assumes "scull_wf d" and r: "private_data f = Some r" "dev_at (dr_mod s) r = Some d" and "pos_fits s f" "0 \<le> n" "n < 2 ^ 63"
  shows "is_done (drv_read e s f n)"
proof -
  have "pos_ok d (f_pos f)" using assms by (simp add: pos_fits_def)
  from scull_read_effect [OF assms(1) this assms(5,6), of "k_km e" "k_intr e" "k_left e"] show ?thesis
    by (auto simp: drv_read_def filp_dev_typed [OF r])
qed

lemma drv_write_done:
  assumes "scull_wf d" and r: "private_data f = Some r" "dev_at (dr_mod s) r = Some d" and "pos_fits s f" "kmalloc_sized (k_km e)"
  shows "is_done (drv_write e s f buf)"
proof -
  have "pos_ok d (f_pos f)" using assms by (simp add: pos_fits_def)
  from scull_write_total_exec [OF assms(1) this assms(5), of "k_intr e" "k_left e" buf] show ?thesis
    by (auto simp: drv_write_def filp_dev_typed [OF r] is_done_iff)
qed

lemma drv_read_sim:
  assumes inv: "drv_inv K s" and r: "private_data f = Some r" "dev_at (dr_mod s) r = Some d"
    and pos: "K \<longrightarrow> pos_fits s f" and n: "0 \<le> n" "n < 2 ^ 63" and run: "drv_read e s f n = Done (s', f', rep)"
  obtains pos' v bs where "f' = f\<lparr>f_pos := pos'\<rparr>" "rep = Returns v (ToUser bs)"
    "dev_change K r s s'" "same_users s s'" "K \<longrightarrow> drv_sim s (read_event f v bs) s'"
proof -
  note ok = dev_sound [OF inv r(2)]
  from run obtain d' pos' v bs where
    rd: "scull_read (k_km e) (k_intr e) (k_left e) d n (f_pos f) = Done (d', pos', v, bs)" and
    s': "s' = put_dev s r d'" "f' = f\<lparr>f_pos := pos'\<rparr>" "rep = Returns v (ToUser bs)"
    by (auto simp: drv_read_def filp_dev_typed [OF r] exec_simps)
  have eff: "same_view d d'" "\<forall>i<length bs. scull_byte d (f_pos f + int i) = Some (bs ! i)" if K
  proof -
    have "pos_ok d (f_pos f)" using pos r that by (simp add: pos_fits_def)
    from scull_read_effect [OF _ this n, of "k_km e" "k_intr e" "k_left e"] ok that rd
    show "same_view d d'" "\<forall>i<length bs. scull_byte d (f_pos f + int i) = Some (bs ! i)" by auto
  qed
  have ok': "K \<longrightarrow> scull_wf d'" "\<not> sd_lock d'" using eff(1) ok scull_read_unlocks [OF rd] by (auto simp: same_view_def)
  have ch: "dev_change K r s s'" unfolding s' using r ok' by (intro dev_change_put) simp_all
  have ev: "read_event f v bs = OnDev r (Fetched (f_pos f) bs)"
    using r dev_not_pipe [OF r(2)] by (auto simp: read_event_def split: devref.splits)
  have "drv_sim s (read_event f v bs) s'" if K
    unfolding ev using ch
  proof (rule drv_sim_on_dev)
    fix a assume "holds_map a (dev_at (dr_mod s) r)"
    then show "spec_allows a (Fetched (f_pos f) bs) \<and>
        holds_map (spec_step a (Fetched (f_pos f) bs)) (dev_at (dr_mod s') r)"
      using r eff [OF that] scull_byte_same_view [OF eff(1) [OF that]]
      by (auto simp: s' holds_map_def devs.get_put map_le_def dom_def)
  qed
  then show thesis using ch s' by (intro that [of pos' v bs]) simp_all
qed

lemma drv_write_sim:
  assumes inv: "drv_inv K s" and r: "private_data f = Some r" "dev_at (dr_mod s) r = Some d"
    and pos: "K \<longrightarrow> pos_fits s f" and km: "kmalloc_sized (k_km e)" and run: "drv_write e s f buf = Done (s', f', rep)"
  obtains pos' v where "f' = f\<lparr>f_pos := pos'\<rparr>" "rep = Returns v NoData"
    "dev_change K r s s'" "same_users s s'" "K \<longrightarrow> drv_sim s (wrote_event s f buf v) s'"
proof -
  note ok = dev_sound [OF inv r(2)]
  from run obtain d' pos' v where
    w: "scull_write (k_km e) (k_intr e) (k_left e) d buf (f_pos f) = Done (d', pos', v)" and
    s': "s' = put_dev s r d'" "f' = f\<lparr>f_pos := pos'\<rparr>" "rep = Returns v NoData"
    by (auto simp: drv_write_def filp_dev_typed [OF r] exec_simps)
  have eff: "scull_wf d'" "a \<subseteq>\<^sub>m scull_byte d \<Longrightarrow> spec_step a (write_event d buf (f_pos f) v) \<subseteq>\<^sub>m scull_byte d'" if K for a
  proof -
    have p: "pos_ok d (f_pos f)" using pos r that by (simp add: pos_fits_def)
    have wf: "scull_wf d" using ok that by simp
    show "scull_wf d'" using scull_write_effect [OF wf p km w] wf by (auto split: if_splits)
    show "a \<subseteq>\<^sub>m scull_byte d \<Longrightarrow> spec_step a (write_event d buf (f_pos f) v) \<subseteq>\<^sub>m scull_byte d'"
      by (rule scull_write_refines [OF wf p km w])
  qed
  have ok': "K \<longrightarrow> scull_wf d'" "\<not> sd_lock d'" using eff(1) ok scull_write_unlocks [OF w] by auto
  have ch: "dev_change K r s s'" unfolding s' using r ok' by (intro dev_change_put) simp_all
  have ev: "wrote_event s f buf v = OnDev r (write_event d buf (f_pos f) v)"
    using r dev_not_pipe [OF r(2)] by (auto simp: wrote_event_def split: devref.splits)
  have "drv_sim s (wrote_event s f buf v) s'" if K
    unfolding ev using ch
  proof (rule drv_sim_on_dev)
    fix a assume "holds_map a (dev_at (dr_mod s) r)"
    moreover have "spec_allows a (write_event d buf (f_pos f) v)"
      by (auto simp: write_event_def split: sum.splits)
    ultimately show "spec_allows a (write_event d buf (f_pos f) v) \<and>
        holds_map (spec_step a (write_event d buf (f_pos f) v)) (dev_at (dr_mod s') r)"
      using r eff(2) [OF that] by (auto simp: s' holds_map_def devs.get_put)
  qed
  then show thesis using ch s' by (intro that [of pos' v]) simp_all
qed

section \<open>Opening a device\<close>

text \<open>
  What the open methods of the five kinds of \<open>struct scull_dev\<close> have in common: at most the device that
  the file will refer to changes, and only a successful open for writing only changes its contents.
\<close>

definition opens_dev :: "bool \<Rightarrow> scull_driver \<Rightarrow> struct_file \<Rightarrow> scull_driver \<Rightarrow> struct_file \<Rightarrow> int ret \<Rightarrow> bool" where
  "opens_dev K s f s' f' v \<longleftrightarrow>
     (case v of
        Inl er \<Rightarrow> dr_mod s' = dr_mod s \<and> dr_files s' = dr_files s \<and> same_users s s'
      | Inr n \<Rightarrow> (\<exists>r. f' = f\<lparr>private_data := Some r\<rparr> \<and> dev_change K r s s' \<and> well_typed (dr_mod s') f' \<and>
          (if f_flags f AND O_ACCMODE = O_WRONLY then True
           else \<forall>a. holds_map a (dev_at (dr_mod s) r) \<longrightarrow> holds_map a (dev_at (dr_mod s') r))))"

lemma opens_dev_sim:
  assumes "opens_dev K s f s' f' (Inr n)"
  shows "drv_sim s (open_event f') s'"
proof -
  from assms obtain r where f': "f' = f\<lparr>private_data := Some r\<rparr>" and ch: "dev_change K r s s'" and
    h: "f_flags f AND O_ACCMODE \<noteq> O_WRONLY \<Longrightarrow> holds_map a (dev_at (dr_mod s) r) \<Longrightarrow> holds_map a (dev_at (dr_mod s') r)" for a
    by (auto simp: opens_dev_def split: if_splits)
  from ch obtain d where d: "dev_at (dr_mod s') r = Some d" by (auto simp: dev_change_def)
  have ev: "open_event f' = (if f_flags f AND O_ACCMODE = O_WRONLY then OnDev r Truncated else Quiet)"
    using dev_not_pipe [OF d] by (auto simp: open_event_def f' split: devref.splits)
  show ?thesis
  proof (cases "f_flags f AND O_ACCMODE = O_WRONLY")
    case True
    have "spec_step a Truncated = Map.empty" for a by (rule ext) simp
    then show ?thesis unfolding ev using True ch d by (auto intro!: drv_sim_on_dev simp: holds_map_def)
  next
    case False
    then show ?thesis unfolding ev using drv_sim_same_dev [OF ch] h by simp
  qed
qed

lemma trim_if_wronly_effect:
  assumes "trim_if_wronly g flags d = Done (d', freed)" and "\<not> sd_lock d"
  shows "((empties flags \<longrightarrow> geometry_ok g) \<and> scull_wf d \<longrightarrow> scull_wf d') \<and> \<not> sd_lock d' \<and> (flags AND O_ACCMODE = O_WRONLY \<or> d' = d)"
proof (cases "empties flags")
  case True
  then have t: "scull_trim g d = Done (d', freed)" using assms(1) by (simp add: trim_if_wronly_def empties_def)
  then have "sd_lock d' = sd_lock d" by (auto simp: scull_trim_def exec_simps)
  then show ?thesis using trimmed_wf(1) [OF t] True assms(2) by (auto simp: empties_def)
qed (use assms in \<open>auto simp: trim_if_wronly_def empties_def\<close>)

lemma access_dev:
  assumes "drv_inv K s" and "i < 4"
  obtains d where "dev_at (dr_mod s) (AccessDev i) = Some d" "K \<longrightarrow> scull_wf d" "\<not> sd_lock d"
proof -
  have "dev_at (dr_mod s) (AccessDev i) = Some (m_a_devices (dr_mod s) ! i)"
    using assms by (simp add: drv_inv_def devs_ok_def dev_at.simps)
  then show thesis using that dev_sound [OF assms(1)] by blast
qed

lemma opens_dev_put:
  assumes r: "dev_at (dr_mod s) r = Some d" and d': "K \<longrightarrow> scull_wf d'" "\<not> sd_lock d'"
    and keep: "f_flags f AND O_ACCMODE = O_WRONLY \<or> d' = d"
    and s': "dr_mod s' = put_at (dr_mod s) r d'" "dr_files s' = dr_files s"
    and ty: "well_typed (put_at (dr_mod s) r d') (f\<lparr>private_data := Some r\<rparr>)"
  shows "opens_dev K s f s' (f\<lparr>private_data := Some r\<rparr>) (Inr 0)"
proof -
  have "dev_change K r s s'"
    using assms by (auto simp: dev_change_def devs.get_put)
  then show ?thesis using keep r ty s' by (auto simp: opens_dev_def devs.get_put intro: exI [of _ r])
qed

lemma scull_open_effect:
  assumes "scull_open g intr d flags = Done (d', v, freed)" and "\<not> sd_lock d"
  shows "((empties flags \<longrightarrow> geometry_ok g) \<and> scull_wf d \<longrightarrow> scull_wf d') \<and> \<not> sd_lock d' \<and>
    (flags AND O_ACCMODE = O_WRONLY \<or> d' = d) \<and> (\<forall>er. v = Inl er \<longrightarrow> d' = d)"
proof -
  have "\<not> sd_lock d' \<and> (flags AND O_ACCMODE = O_WRONLY \<or> d' = d) \<and> (\<forall>er. v = Inl er \<longrightarrow> d' = d)"
    using assms by (auto simp: scull_open_def exec_simps unlock_dev_def split: if_splits)
  then show ?thesis using scull_open_refines [OF assms(1) _ _ assms(2)] by blast
qed

lemma drv_open_effect:
  assumes inv: "drv_inv K s" and c: "f_cdev f = MainCdev i" and g: "K \<longrightarrow> empties (f_flags f) \<longrightarrow> geometry_ok (dr_params s)"
    and run: "drv_open e s f = Done (s', f', rep)"
  obtains v where "rep = Returns v NoData" "opens_dev K s f s' f' v" "same_users s s'"
proof -
  from run c obtain d where d: "dev_at (dr_mod s) (MainDev i) = Some d"
    by (auto simp: drv_open_def dev_of_def split: option.split_asm)
  with run c obtain d' v freed where o: "scull_open (dr_params s) (k_intr e) d (f_flags f) = Done (d', v, freed)" and
    s': "s' = put_dev s (MainDev i) d'" "f' = f\<lparr>private_data := Some (MainDev i)\<rparr>" "rep = Returns (zero_ret v) NoData"
    by (auto simp: drv_open_def dev_of_def exec_simps)
  note ok = dev_sound [OF inv d]
  note eff = scull_open_effect [OF o conjunct2 [OF ok]]
  show thesis
  proof (cases v)
    case (Inl er)
    then have "dr_mod s' = dr_mod s" using eff put_at_same [OF d] by (simp add: s')
    then show thesis using Inl by (intro that [OF s'(3)]) (simp_all add: opens_dev_def zero_ret_def s')
  next
    case (Inr u)
    have "opens_dev K s f s' (f\<lparr>private_data := Some (MainDev i)\<rparr>) (Inr 0)"
      using eff ok d c g by (intro opens_dev_put [OF d]) (auto simp: s' well_typed_def devs.get_put)
    then show thesis using Inr by (intro that [OF s'(3)]) (simp_all add: s' zero_ret_def)
  qed
qed

text \<open>
  The three devices that count their users: the state of the counters accounts for the new file.
\<close>

definition opens_counted :: "bool \<Rightarrow> scull_driver \<Rightarrow> struct_file \<Rightarrow> scull_driver \<Rightarrow> struct_file \<Rightarrow> int ret \<Rightarrow> bool" where
  "opens_counted K s f s' f' v \<longleftrightarrow> opens_dev K s f s' f' v \<and>
     (\<forall>fd n. v = Inr n \<longrightarrow> dr_files s fd = None \<longrightarrow> users_ok (set_file s' fd (Some f')))"

lemma opens_counted_error: "opens_counted K s f s' f' (Inl er) \<longleftrightarrow> opens_dev K s f s' f' (Inl er)"
  by (simp add: opens_counted_def)

lemma num_new_user:
  assumes "drv_inv K s" and "dr_files s fd = None"
  shows "num_files (on_cdev c) ((dr_files s)(fd \<mapsto> f)) = num_files (on_cdev c) (dr_files s) + (if f_cdev f = c then 1 else 0)"
  by (rule num_files_new [OF drv_inv_finite [OF assms(1)] assms(2)])

lemma num_files_none: "finite (dom fs) \<Longrightarrow> num_files P fs = 0 \<Longrightarrow> fs fd = Some f \<Longrightarrow> \<not> P f"
  using num_files_pos [of fs fd f P] by auto

lemma well_typed_access:
  "f_cdev f = AccessCdev i \<Longrightarrow> i < 3 \<Longrightarrow> dev_at m (AccessDev i) = Some d \<Longrightarrow>
   well_typed (put_at m (AccessDev i) d') (f\<lparr>private_data := Some (AccessDev i)\<rparr>)"
  by (simp add: well_typed_def devs.get_put)

lemma drv_s_open_effect:
  assumes inv: "drv_inv K s" and f: "f_cdev f = AccessCdev 0" and g: "K \<longrightarrow> empties (f_flags f) \<longrightarrow> geometry_ok (dr_params s)"
    and run: "drv_s_open e s f = Done (s', f', rep)"
  obtains v where "rep = Returns v NoData" "opens_counted K s f s' f' v"
proof -
  obtain d where d: "dev_at (dr_mod s) (AccessDev 0) = Some d" "K \<longrightarrow> scull_wf d" "\<not> sd_lock d"
    using access_dev [OF inv, of 0] by auto
  note unf = drv_s_open_def dev_of_def scull_s_open_def atomic_dec_and_test_def zero_ret_def set_private_def
  show thesis
  proof (cases "dr_s_available s = 1")
    case True
    let ?f = "f\<lparr>private_data := Some (AccessDev 0)\<rparr>"
    from run True d obtain d' freed where t: "trim_if_wronly (dr_params s) (f_flags f) d = Done (d', freed)" and
      s': "s' = put_dev (s\<lparr>dr_s_available := 0\<rparr>) (AccessDev 0) d'" "f' = ?f" "rep = Returns (Inr 0) NoData"
      by (auto simp: unf exec_simps)
    note eff = trim_if_wronly_effect [OF t d(3)]
    have "opens_dev K s f s' ?f (Inr 0)"
      using eff f d g by (intro opens_dev_put [OF d(1)] well_typed_access) (auto simp: s')
    moreover have "users_ok (set_file s' fd (Some ?f))" if "dr_files s fd = None" for fd
    proof -
      have "users_ok s" using inv by (simp add: drv_inv_def)
      then show ?thesis using that True f num_new_user [OF inv that] by (auto simp: s' users_ok_def set_file_def)
    qed
    ultimately show thesis by (intro that [OF s'(3)]) (auto simp: s'(2) opens_counted_def)
  next
    case False
    let ?s = "put_dev (s\<lparr>dr_s_available := atomic_inc (dr_s_available s - 1)\<rparr>) (AccessDev 0) d"
    have s': "s' = ?s" "f' = f" "rep = Returns (Inl EBUSY) NoData" using False run d by (simp_all add: unf)
    have "opens_dev K s f ?s f (Inl EBUSY)"
      using put_at_same [OF d(1)] by (simp add: opens_dev_def same_users_def atomic_inc_def)
    then show thesis by (intro that [OF s'(3)]) (simp add: s' opens_counted_error)
  qed
qed

text \<open>The owner that an admitted process finds or becomes admits all files, the old ones and its own.\<close>

lemma owner_admits_all:
  assumes "finite (dom fs)" and "\<forall>x g. fs x = Some g \<longrightarrow> f_cdev g = c \<longrightarrow> admitted (f_cred g) owner"
    and "num_files (on_cdev c) fs = 0 \<or> admitted (f_cred f) owner"
    and "owner' = (if num_files (on_cdev c) fs = 0 then c_uid (f_cred f) else owner)"
  shows "(fs(fd \<mapsto> f)) x = Some g \<Longrightarrow> f_cdev g = c \<Longrightarrow> admitted (f_cred g) owner'"
  using assms num_files_none [OF assms(1), of "on_cdev c" x g] by (auto simp: admitted_def split: if_splits)

lemma drv_u_open_effect:
  assumes inv: "drv_inv K s" and f: "f_cdev f = AccessCdev 1" "f_cred f = k_cred e"
    and g: "K \<longrightarrow> empties (f_flags f) \<longrightarrow> geometry_ok (dr_params s)" and run: "drv_u_open e s f = Done (s', f', rep)"
  obtains v where "rep = Returns v NoData" "opens_counted K s f s' f' v"
proof -
  obtain d where d: "dev_at (dr_mod s) (AccessDev 1) = Some d" "K \<longrightarrow> scull_wf d" "\<not> sd_lock d"
    using access_dev [OF inv, of 1] by auto
  from run d obtain u v freed where u: "scull_u_open (dr_params s) (k_cred e) (f_flags f) (dr_u s d) = Done (u, v, freed)" and
    s': "s' = put_dev (s\<lparr>dr_u_count := scull_u_count u, dr_u_owner := scull_u_owner u\<rparr>) (AccessDev 1) (scull_u_device u)"
      "f' = set_private f (AccessDev 1) v" "rep = Returns (zero_ret v) NoData"
    by (auto simp: drv_u_open_def dev_of_def exec_simps)
  show thesis
  proof (cases v)
    case (Inl er)
    then have "u = dr_u s d" using u by (auto simp: scull_u_open_def Let_def exec_simps split: if_splits)
    then have "opens_dev K s f s' f (Inl er)"
      using put_at_same [OF d(1)] by (simp add: s'(1) opens_dev_def same_users_def dr_u_def)
    then show thesis using Inl by (intro that [OF s'(3)]) (simp add: s'(2) opens_counted_error zero_ret_def set_private_def)
  next
    case (Inr x)
    let ?f = "f\<lparr>private_data := Some (AccessDev 1)\<rparr>"
    from u Inr have t: "trim_if_wronly (dr_params s) (f_flags f) d = Done (scull_u_device u, freed)"
      by (auto simp: scull_u_open_def dr_u_def Let_def exec_simps split: if_splits)
    note eff = trim_if_wronly_effect [OF t d(3)]
    have adm: "(dr_u_count s = 0 \<or> admitted (k_cred e) (dr_u_owner s)) \<and> scull_u_count u = dr_u_count s + 1 \<and>
        scull_u_owner u = (if dr_u_count s = 0 then c_uid (k_cred e) else dr_u_owner s)"
    proof -
      from u Inr have "\<exists>g flags freed. scull_u_open g (k_cred e) flags (dr_u s d) = Done (u, Inr (), freed)" by auto
      from u_dev.enter_admits [OF this] show ?thesis by (simp add: dr_u_def)
    qed
    have "opens_dev K s f s' ?f (Inr 0)"
      using eff f d g by (intro opens_dev_put [OF d(1)] well_typed_access) (auto simp: s'(1))
    moreover have "users_ok (set_file s' fd (Some ?f))" if "dr_files s fd = None" for fd
    proof -
      have ok: "users_ok s" using inv by (simp add: drv_inv_def)
      then have "((dr_files s)(fd \<mapsto> ?f)) x = Some g \<Longrightarrow> f_cdev g = AccessCdev 1 \<Longrightarrow> admitted (f_cred g) (scull_u_owner u)" for x g
        using adm f
        by (intro owner_admits_all [OF drv_inv_finite [OF inv], of "AccessCdev 1" "dr_u_owner s" ?f _ fd]) (auto simp: users_ok_def)
      then show ?thesis using ok that adm f num_new_user [OF inv that]
        by (auto simp: s'(1) users_ok_def set_file_def split: if_splits)
    qed
    ultimately show thesis using Inr
      by (intro that [OF s'(3)]) (auto simp: s'(2) opens_counted_def zero_ret_def set_private_def)
  qed
qed

lemma drv_w_open_effect:
  assumes inv: "drv_inv K s" and f: "f_cdev f = AccessCdev 2" "f_cred f = k_cred e"
    and g: "K \<longrightarrow> empties (f_flags f) \<longrightarrow> geometry_ok (dr_params s)" and run: "drv_w_open e s f = Done (s', f', rep)"
  obtains "rep = Sleeps" | v where "rep = Returns v NoData" "opens_counted K s f s' f' v"
proof -
  obtain d where d: "dev_at (dr_mod s) (AccessDev 2) = Some d" "K \<longrightarrow> scull_wf d" "\<not> sd_lock d"
    using access_dev [OF inv, of 2] by auto
  from run d obtain res where
    o: "scull_w_open (dr_params s) (k_cred e) (f_flags f AND O_NONBLOCK \<noteq> 0) (f_flags f) [] (dr_w s d) = Done res" and
    s': "(s', f', rep) = (case res of
               WBlocked t \<Rightarrow> (put_w s t, f, Sleeps)
             | WReturned t v freed \<Rightarrow> (put_w s t, set_private f (AccessDev 2) v, Returns (zero_ret v) NoData))"
    by (auto simp: drv_w_open_def dev_of_def exec_simps)
  show thesis
  proof (cases res)
    case (WBlocked t)
    then show thesis using s' that(1) by simp
  next
    case (WReturned u v freed)
    show thesis
    proof (cases v)
      case (Inl er)
      then have "u = dr_w s d"
        using o by (auto simp: WReturned scull_w_open_def Let_def exec_simps split: if_splits)
      then have "opens_dev K s f s' f (Inl er)"
        using put_at_same [OF d(1)] s' by (simp add: WReturned opens_dev_def same_users_def put_w_def dr_w_def)
      then show thesis using Inl s' WReturned
        by (intro that(2) [of "Inl er"]) (simp_all add: opens_counted_error zero_ret_def set_private_def)
    next
      case (Inr x)
      let ?f = "f\<lparr>private_data := Some (AccessDev 2)\<rparr>"
      from o Inr have t: "trim_if_wronly (dr_params s) (f_flags f) d = Done (scull_w_device u, freed)"
        by (auto simp: WReturned scull_w_open_def dr_w_def Let_def exec_simps split: if_splits)
      note eff = trim_if_wronly_effect [OF t d(3)]
      have adm: "(dr_w_count s = 0 \<or> admitted (k_cred e) (dr_w_owner s)) \<and> scull_w_count u = dr_w_count s + 1 \<and>
          scull_w_owner u = (if dr_w_count s = 0 then c_uid (k_cred e) else dr_w_owner s)"
      proof -
        from o Inr have "\<exists>g nonblock flags freed. scull_w_open g (k_cred e) nonblock flags [] (dr_w s d) =
            Done (WReturned u (Inr ()) freed)" by (auto simp: WReturned)
        from w_dev.enter_admits [OF this] show ?thesis by (simp add: dr_w_def)
      qed
      have "opens_dev K s f s' ?f (Inr 0)"
        using eff f d g s' by (intro opens_dev_put [OF d(1)] well_typed_access) (auto simp: WReturned put_w_def)
      moreover have "users_ok (set_file s' fd (Some ?f))" if "dr_files s fd = None" for fd
      proof -
        have ok: "users_ok s" using inv by (simp add: drv_inv_def)
        then have "((dr_files s)(fd \<mapsto> ?f)) x = Some g \<Longrightarrow> f_cdev g = AccessCdev 2 \<Longrightarrow> admitted (f_cred g) (scull_w_owner u)" for x g
          using adm f
          by (intro owner_admits_all [OF drv_inv_finite [OF inv], of "AccessCdev 2" "dr_w_owner s" ?f _ fd]) (auto simp: users_ok_def)
        then show ?thesis using ok that adm f s' num_new_user [OF inv that]
          by (auto simp: WReturned users_ok_def set_file_def put_w_def split: if_splits)
      qed
      ultimately show thesis using Inr s'
        by (intro that(2) [of "Inr 0"]) (auto simp: WReturned opens_counted_def zero_ret_def set_private_def)
    qed
  qed
qed

text \<open>The private device.\<close>

lemma scull_c_open_error:
  "scull_c_open km sizeof_item g tty flags ls = Done (ls', Inl er, freed) \<Longrightarrow> ls' = ls"
  by (auto simp: scull_c_open_def scull_c_lookfor_device_def exec_simps split: option.splits)

lemma c_list_at [simp]:
  "dev_at (m\<lparr>m_c_list := ls\<rparr>) r = (case r of PrivDev key \<Rightarrow> priv_dev ls key | _ \<Rightarrow> dev_at m r)"
  "pipe_at (m\<lparr>m_c_list := ls\<rparr>) = pipe_at m"
  by (auto simp: dev_at.simps pipe_at_def fun_eq_iff split: devref.splits)

lemma drv_c_open_effect:
  assumes inv: "drv_inv K s" and f: "f_cdev f = AccessCdev 3" and geo: "K \<longrightarrow> geometry_ok (dr_params s)"
    and o: "drv_c_open e s f = Done (s', f', rep)"
  obtains v where "rep = Returns v NoData" "opens_dev K s f s' f' v" "same_users s s'"
proof -
  let ?ls = "m_c_list (dr_mod s)" and ?g = "dr_params s"
  have wf: "(K \<longrightarrow> scull_wf d) \<and> \<not> sd_lock d" if "priv_dev ?ls key = Some d" for key d
    using dev_sound [OF inv, of "PrivDev key" d] that by (simp add: dev_at.simps)
  from o obtain ls v freed where run: "scull_c_open (k_km e) (k_item e) ?g (k_tty e) (f_flags f) ?ls = Done (ls, v, freed)" and
    s': "s' = s\<lparr>dr_mod := (dr_mod s)\<lparr>m_c_list := ls\<rparr>\<rparr>" "rep = Returns (zero_ret v) NoData"
      "f' = (case v of Inl er \<Rightarrow> f | Inr i \<Rightarrow> set_private f (PrivDev (li_key (ls ! i))) v)"
    by (auto simp: drv_c_open_def exec_simps)
  have su: "same_users s s'" by (simp add: s' same_users_def)
  show thesis
  proof (cases v)
    case (Inl er)
    have "ls = ?ls" using scull_c_open_error run Inl by blast
    then show thesis using su Inl by (intro that [OF s'(2)]) (simp_all add: s' opens_dev_def zero_ret_def)
  next
    case (Inr i)
    then obtain key where key: "k_tty e = Some key" using run by (auto simp: scull_c_open_def split: option.splits)
    note eff = scull_c_open_effect [OF run [unfolded key Inr]]
    let ?d = "li_device (ls ! i)" and ?f = "f\<lparr>private_data := Some (PrivDev key)\<rparr>"
    have new: "K \<longrightarrow> scull_wf (zero_dev\<lparr>sd_quantum := scull_quantum ?g, sd_qset := scull_qset_p ?g\<rparr>)"
      using geo by (simp add: scull_wf_def zero_dev_def geometry_ok_def)
    have d: "K \<longrightarrow> scull_wf ?d" "\<not> sd_lock ?d"
      using eff wf [of key] new geo
      by (auto simp: Let_def scull_wf_def geometry_ok_def zero_dev_def split: option.splits if_splits)
    have "dev_change K (PrivDev key) s s'"
      using eff d by (auto simp: s' dev_change_def dev_at.simps split: devref.splits)
    moreover have "well_typed (dr_mod s') ?f" using eff f by (simp add: s' well_typed_def)
    moreover have "holds_map a (dev_at (dr_mod s') (PrivDev key))"
      if "holds_map a (dev_at (dr_mod s) (PrivDev key))" "f_flags f AND O_ACCMODE \<noteq> O_WRONLY" for a
      using that eff by (auto simp: s' holds_map_def dev_at.simps Let_def split: option.splits)
    ultimately have "opens_dev K s f s' ?f (Inr 0)" by (auto simp: opens_dev_def intro!: exI [of _ "PrivDev key"])
    moreover have "f' = ?f" using Inr eff by (simp add: s' set_private_def)
    ultimately show thesis using su Inr by (intro that [OF s'(2)]) (simp_all add: zero_ret_def)
  qed
qed

section \<open>The pipe\<close>

text \<open>Files that no counter of \<open>access.c\<close> is about.\<close>

abbreviation counted_cdevs :: "cdev set" where
  "counted_cdevs \<equiv> {AccessCdev 0, AccessCdev 1, AccessCdev 2}"

lemma users_ok_new:
  assumes "users_ok s" and "finite (dom (dr_files s))" "dr_files s fd = None" and "f_cdev f \<notin> counted_cdevs"
    and "same_users s s'" "dr_files s' = dr_files s"
  shows "users_ok (set_file s' fd (Some f))"
proof -
  have "num_files (on_cdev c) ((dr_files s)(fd \<mapsto> f)) = num_files (on_cdev c) (dr_files s)" if "c \<in> counted_cdevs" for c
    using that assms(4) by (auto simp: num_files_new [OF assms(2,3)])
  then show ?thesis using assms by (auto simp: users_ok_def set_file_def same_users_def split: if_splits)
qed

lemma users_ok_close:
  assumes "users_ok s" and "finite (dom (dr_files s))" "dr_files s fd = Some f" and "f_cdev f \<notin> counted_cdevs"
    and "same_users s s'" "dr_files s' = dr_files s"
  shows "users_ok (set_file s' fd None)"
proof -
  have "num_files (on_cdev c) ((dr_files s)(fd := None)) = num_files (on_cdev c) (dr_files s)" if "c \<in> counted_cdevs" for c
    using that assms(4) by (auto simp: num_files_close [OF assms(2,3)])
  then show ?thesis using assms by (auto simp: users_ok_def set_file_def same_users_def split: if_splits)
qed

lemma pipes_ok_put:
  assumes "pipes_ok K m fs" and "pipe_at m i \<noteq> None" and "pipe_counted K fs' i p"
    and "\<And>j. j \<noteq> i \<Longrightarrow> num_files (reads_pipe j) fs' = num_files (reads_pipe j) fs \<and>
      num_files (writes_pipe j) fs' = num_files (writes_pipe j) fs"
  shows "pipes_ok K (put_pipe_at m i p) fs'"
  unfolding pipes_ok_def
proof (intro allI impI)
  fix j q assume q: "pipe_at (put_pipe_at m i p) j = Some q"
  show "pipe_counted K fs' j q"
  proof (cases "j = i")
    case False
    then have "pipe_counted K fs j q" using q assms(1,2) by (simp add: pipes_ok_def pipes.get_put)
    then show ?thesis using assms(4) [OF False] pipe_counted_cong [of j fs' fs K q] by simp
  qed (use q assms(2,3) in \<open>simp add: pipes.get_put\<close>)
qed

text \<open>A pipe is replaced, under the old files and under new ones.\<close>

lemma drv_inv_put_pipe:
  assumes "drv_inv K s" and i: "pipe_at (dr_mod s) i = Some p" and "K \<longrightarrow> pipe_inv p'" "\<not> sp_lock p'"
    and "sp_nreaders p' = sp_nreaders p" "sp_nwriters p' = sp_nwriters p" and "sp_buffer p' = None \<longrightarrow> sp_buffer p = None"
  shows "drv_inv K (put_pipe s i p')"
proof -
  have "pipe_counted K (dr_files s) i p'" using pipe_sound [OF assms(1) i] assms(3-) by (auto simp: pipe_counted_def)
  then have "pipes_ok K (put_pipe_at (dr_mod s) i p') (dr_files s)"
    using assms(1) i by (intro pipes_ok_put) (simp_all add: drv_inv_def)
  moreover have "well_typed (put_pipe_at (dr_mod s) i p') f" if "well_typed (dr_mod s) f" for f
    using that by (rule well_typed_mono) (use i in \<open>auto simp: pipes.get_put\<close>)
  ultimately show ?thesis
    using assms(1) by (auto simp: drv_inv_def devs_ok_def files_ok_def users_ok_def)
qed

lemma drv_inv_pipe_files:
  assumes inv: "drv_inv K s" and i: "pipe_at (dr_mod s) i = Some p"
    and "files_ok (put_pipe_at (dr_mod s) i p') fs'" and "pipe_counted K fs' i p'"
    and "\<And>j. j \<noteq> i \<Longrightarrow> num_files (reads_pipe j) fs' = num_files (reads_pipe j) (dr_files s) \<and>
      num_files (writes_pipe j) fs' = num_files (writes_pipe j) (dr_files s)"
    and "users_ok s'" and s': "dr_mod s' = put_pipe_at (dr_mod s) i p'" "dr_files s' = fs'"
  shows "drv_inv K s'"
proof -
  have "pipes_ok K (put_pipe_at (dr_mod s) i p') fs'"
    using inv i assms(4,5) by (intro pipes_ok_put) (simp_all add: drv_inv_def)
  then show ?thesis using assms by (auto simp: drv_inv_def devs_ok_def)
qed

lemma files_ok_put_pipe: "files_ok m fs \<Longrightarrow> pipe_at m i = Some p \<Longrightarrow> files_ok (put_pipe_at m i p') fs"
  unfolding files_ok_def by (auto intro!: well_typed_mono [of m _ "put_pipe_at m i p'"] simp: pipes.get_put)

lemma scull_p_open_error:
  "scull_p_open km g intr fm p = (p', Inl er) \<Longrightarrow> \<not> sp_lock p \<Longrightarrow> p' = p"
  by (auto simp: scull_p_open_def Let_def p_unlock_def split: if_splits option.splits)

lemma scull_p_open_counts:
  "scull_p_open km g intr fm p = (p', Inr u) \<Longrightarrow> sp_buffer p' \<noteq> None \<and>
   sp_nreaders p' = sp_nreaders p + (if fm_read fm then 1 else 0) \<and>
   sp_nwriters p' = sp_nwriters p + (if fm_write fm then 1 else 0) \<and> \<not> sp_lock p'"
  by (auto simp: scull_p_open_def Let_def p_unlock_def split: if_splits option.splits)

lemma put_pipe_same: "pipe_at m i = Some p \<Longrightarrow> put_pipe_at m i p = m"
  by (auto simp: pipe_at_def put_pipe_at_def split: option.splits if_splits)

text \<open>What an error of an open leaves, and what a success leaves once the file is installed.\<close>

definition open_sound :: "bool \<Rightarrow> scull_driver \<Rightarrow> scull_driver \<Rightarrow> struct_file \<Rightarrow> int ret \<Rightarrow> bool" where
  "open_sound K s s' f' v \<longleftrightarrow>
     (case v of
        Inl er \<Rightarrow> dr_mod s' = dr_mod s \<and> dr_files s' = dr_files s \<and> same_users s s'
      | Inr n \<Rightarrow> (K \<longrightarrow> drv_sim s (open_event f') s') \<and> in_use (dr_mod s) (dr_mod s') \<and>
          (\<forall>fd. dr_files s fd = None \<longrightarrow> drv_inv K (set_file s' fd (Some f'))))"

lemma drv_p_open_effect:
  assumes inv: "drv_inv K s" and f: "f_cdev f = PipeCdev i"
    and fits: "K \<longrightarrow> pipe_fits s (PipeCdev i)" and km: "kmalloc_sized (k_km e)" and o: "drv_p_open e s f = Done (s', f', rep)"
  obtains v where "rep = Returns v NoData" "open_sound K s s' f' v"
proof -
  let ?f = "f\<lparr>private_data := Some (PipeDev i)\<rparr>"
  from o f obtain p where i: "pipe_at (dr_mod s) i = Some p"
    by (auto simp: drv_p_open_def pipe_of_def split: option.split_asm)
  obtain p' v where run: "scull_p_open (k_km e) (dr_params s) (k_intr e) (f_mode f) p = (p', v)" by force
  have s': "s' = put_pipe s i p'" "f' = ?f" "rep = Returns (zero_ret v) NoData"
    using o run i by (simp_all add: drv_p_open_def f pipe_of_def)
  have c: "pipe_counted K (dr_files s) i p" using pipe_sound [OF inv i] .
  then have p: "K \<longrightarrow> pipe_inv p" "\<not> sp_lock p" by (simp_all add: pipe_counted_def)
  have eff: "pipe_inv p' \<and> (case v of Inl e \<Rightarrow> pipe_contents p' = pipe_contents p | Inr u \<Rightarrow> pipe_contents p' = [] \<and> pipe_wf p')" if K
    using scull_p_open_effect [OF _ _ km run] p(1) fits i that by (simp add: pipe_fits_def)
  show thesis
  proof (cases v)
    case (Inl er)
    then have "p' = p" using scull_p_open_error run p(2) by blast
    then show thesis using Inl put_pipe_same [OF i]
      by (intro that [OF s'(3)]) (simp add: s' zero_ret_def open_sound_def)
  next
    case (Inr u)
    note cnt = scull_p_open_counts [OF run [unfolded Inr]]
    have "K \<longrightarrow> drv_sim s (OnPipe i PReset) s'" using eff Inr by (intro impI drv_sim_on_pipe [OF i]) (auto simp: s')
    then have sim: "K \<longrightarrow> drv_sim s (open_event ?f) s'" by (simp add: open_event_def)
    have "drv_inv K (set_file s' fd (Some ?f))" if fd: "dr_files s fd = None" for fd
    proof (rule drv_inv_pipe_files [OF inv i])
      note n = num_files_new [OF drv_inv_finite [OF inv] fd, of _ ?f]
      show "files_ok (put_pipe_at (dr_mod s) i p') ((dr_files s)(fd \<mapsto> ?f))"
        using inv i f by (intro files_ok_new files_ok_put_pipe) (auto simp: drv_inv_def well_typed_def pipes.get_put)
      show "pipe_counted K ((dr_files s)(fd \<mapsto> ?f)) i p'"
        using c eff cnt by (auto simp: pipe_counted_def n reads_pipe_def writes_pipe_def f)
      show "num_files (reads_pipe j) ((dr_files s)(fd \<mapsto> ?f)) = num_files (reads_pipe j) (dr_files s) \<and>
          num_files (writes_pipe j) ((dr_files s)(fd \<mapsto> ?f)) = num_files (writes_pipe j) (dr_files s)" if "j \<noteq> i" for j
        using that by (simp add: n reads_pipe_def writes_pipe_def f)
      show "users_ok (set_file s' fd (Some ?f))"
        using inv fd f by (intro users_ok_new [of s]) (auto simp: s' drv_inv_def files_ok_def)
    qed (simp_all add: s')
    then show thesis using sim Inr by (intro that [OF s'(3)]) (simp add: s' zero_ret_def open_sound_def)
  qed
qed

text \<open>The two cases of a call on a pipe that returned: it sleeps, or it has replaced the pipe.\<close>

lemma p_reply_sound:
  assumes inv: "drv_inv K s" and p: "private_data f = Some (PipeDev i)" "pipe_at (dr_mod s) i = Some p"
    and run: "p_reply s f i res = (s', f', rep)" and "sp_buffer p \<noteq> None" "\<not> sp_lock p"
    and cnt: "\<forall>p' v bs nt. res = Returned p' v bs nt \<longrightarrow>
      sp_nreaders p' = sp_nreaders p \<and> sp_nwriters p' = sp_nwriters p \<and> (sp_buffer p' = None \<longrightarrow> sp_buffer p = None) \<and>
      (\<not> sp_lock p \<longrightarrow> \<not> sp_lock p') \<and> (K \<longrightarrow> pipe_inv p')"
  obtains "rep = Sleeps"
  | p' v bs nt where "res = Returned p' v bs nt" "rep = Returns v (ToUser bs)" "f' = f" "drv_inv K s'" "dr_files s' = dr_files s"
      "s' = put_pipe s i p'" "in_use (dr_mod s) (dr_mod s')"
proof (cases res)
  case (Blocked p')
  then show thesis using run that(1) by (simp add: p_reply_def)
next
  case (Returned p' v bs nt)
  then have s': "s' = put_pipe s i p'" "f' = f" "rep = Returns v (ToUser bs)" using run by (simp_all add: p_reply_def)
  have "drv_inv K (put_pipe s i p')" using cnt [rule_format, OF Returned] assms(5,6) by (intro drv_inv_put_pipe [OF inv p(2)]) auto
  then show thesis using Returned s' by (intro that(2)) simp_all
qed

lemma drv_p_read_done:
  assumes "pipe_wf p" and p: "private_data f = Some (PipeDev i)" "pipe_at (dr_mod s) i = Some p" and n: "0 \<le> n" "n < 2 ^ 63"
  shows "is_done (drv_p_read e s f n)"
  using scull_p_read_total [OF assms(1) n, of "k_left e" "k_intr e" "f_flags f AND O_NONBLOCK \<noteq> 0"]
  unfolding is_done_iff [of "scull_p_read _ _ _ _ _ _"] by (auto simp: drv_p_read_def filp_pipe_typed [OF p])

lemma drv_p_write_done:
  assumes "pipe_wf p" and p: "private_data f = Some (PipeDev i)" "pipe_at (dr_mod s) i = Some p"
  shows "is_done (drv_p_write e s f buf)"
  using scull_p_write_total [OF assms(1), of "k_left e" "k_intr e" "f_flags f AND O_NONBLOCK \<noteq> 0" buf]
  unfolding is_done_iff [of "scull_p_write _ _ _ _ _ _"] by (auto simp: drv_p_write_def filp_pipe_typed [OF p])

lemma drv_p_read_sim:
  assumes inv: "drv_inv K s" and f: "dr_files s fd = Some f" "f_cdev f = PipeCdev i" "fm_read (f_mode f)"
    and n: "0 \<le> n" "n < 2 ^ 63" and run: "drv_p_read e s f n = Done (s', f', rep)"
  obtains "rep = Sleeps"
  | v bs where "rep = Returns v (ToUser bs)" "f' = f" "drv_inv K s'" "dr_files s' = dr_files s"
      "K \<longrightarrow> drv_sim s (read_event f v bs) s'" "in_use (dr_mod s) (dr_mod s')"
proof -
  obtain p where p: "private_data f = Some (PipeDev i)" "pipe_at (dr_mod s) i = Some p"
    using typed_pipe [OF file_typed [OF inv f(1)] f(2)] .
  have wf: "sp_buffer p \<noteq> None" "\<not> sp_lock p" "K \<longrightarrow> pipe_wf p" using open_pipe_buffer [OF inv f(1,2) _ p(2)] f(3) by auto
  from run obtain res where
    rd: "scull_p_read (k_left e) (k_intr e) (f_flags f AND O_NONBLOCK \<noteq> 0) [] p n = Done res" "p_reply s f i res = (s', f', rep)"
    by (auto simp: drv_p_read_def filp_pipe_typed [OF p] exec_simps)
  note eff = scull_p_read_effect [OF _ n wf(2)]
  have "sp_nreaders p' = sp_nreaders p \<and> sp_nwriters p' = sp_nwriters p \<and> (sp_buffer p' = None \<longrightarrow> sp_buffer p = None) \<and>
      (\<not> sp_lock p \<longrightarrow> \<not> sp_lock p') \<and> (K \<longrightarrow> pipe_inv p')" if "res = Returned p' v bs nt" for p' v bs nt
    using scull_p_read_counts [OF rd(1) [unfolded that]] eff [OF _ rd(1) [unfolded that]] wf(3) by (auto simp: pipe_inv_def)
  then have cnt: "\<forall>p' v bs nt. res = Returned p' v bs nt \<longrightarrow>
      sp_nreaders p' = sp_nreaders p \<and> sp_nwriters p' = sp_nwriters p \<and> (sp_buffer p' = None \<longrightarrow> sp_buffer p = None) \<and>
      (\<not> sp_lock p \<longrightarrow> \<not> sp_lock p') \<and> (K \<longrightarrow> pipe_inv p')" by blast
  from inv p rd(2) wf(1,2) cnt show thesis
  proof (cases rule: p_reply_sound)
    case (2 p' v bs nt)
    have "queue_step (case v of Inl er \<Rightarrow> PQuiet | Inr n \<Rightarrow> PRead bs) (pipe_contents p) = Some (pipe_contents p')" if K
      using eff [OF _ rd(1) [unfolded 2(1)]] wf(3) that by (auto split: sum.splits)
    then have "K \<longrightarrow> drv_sim s (read_event f v bs) s'"
      by (simp add: 2(6) read_event_def p(1) drv_sim_on_pipe [OF p(2)])
    then show thesis using 2 by (intro that(2))
  qed (rule that(1))
qed

lemma drv_p_write_sim:
  assumes inv: "drv_inv K s" and f: "dr_files s fd = Some f" "f_cdev f = PipeCdev i" "fm_write (f_mode f)"
    and run: "drv_p_write e s f buf = Done (s', f', rep)"
  obtains "rep = Sleeps"
  | v bs where "rep = Returns v (ToUser bs)" "f' = f" "drv_inv K s'" "dr_files s' = dr_files s"
      "K \<longrightarrow> drv_sim s (wrote_event s f buf v) s'" "in_use (dr_mod s) (dr_mod s')"
proof -
  obtain p where p: "private_data f = Some (PipeDev i)" "pipe_at (dr_mod s) i = Some p"
    using typed_pipe [OF file_typed [OF inv f(1)] f(2)] .
  have wf: "sp_buffer p \<noteq> None" "\<not> sp_lock p" "K \<longrightarrow> pipe_wf p" using open_pipe_buffer [OF inv f(1,2) _ p(2)] f(3) by auto
  from run obtain res where
    wr: "scull_p_write (k_left e) (k_intr e) (f_flags f AND O_NONBLOCK \<noteq> 0) [] p buf = Done res" "p_reply s f i res = (s', f', rep)"
    by (auto simp: drv_p_write_def filp_pipe_typed [OF p] exec_simps)
  note eff = scull_p_write_effect [OF _ wf(2)]
  have "sp_nreaders p' = sp_nreaders p \<and> sp_nwriters p' = sp_nwriters p \<and> (sp_buffer p' = None \<longrightarrow> sp_buffer p = None) \<and>
      (\<not> sp_lock p \<longrightarrow> \<not> sp_lock p') \<and> (K \<longrightarrow> pipe_inv p')" if "res = Returned p' v bs nt" for p' v bs nt
    using scull_p_write_counts [OF wr(1) [unfolded that]] eff [OF _ wr(1) [unfolded that]] wf(3) by (auto simp: pipe_inv_def)
  then have cnt: "\<forall>p' v bs nt. res = Returned p' v bs nt \<longrightarrow>
      sp_nreaders p' = sp_nreaders p \<and> sp_nwriters p' = sp_nwriters p \<and> (sp_buffer p' = None \<longrightarrow> sp_buffer p = None) \<and>
      (\<not> sp_lock p \<longrightarrow> \<not> sp_lock p') \<and> (K \<longrightarrow> pipe_inv p')" by blast
  from inv p wr(2) wf(1,2) cnt show thesis
  proof (cases rule: p_reply_sound)
    case (2 p' v bs nt)
    have "queue_step (case v of Inl er \<Rightarrow> PQuiet | Inr n \<Rightarrow> PWrote (take (nat n) buf)) (pipe_contents p) = Some (pipe_contents p')" if K
      using eff [OF _ wr(1) [unfolded 2(1)]] wf(3) that by (auto split: sum.splits)
    then have "K \<longrightarrow> drv_sim s (wrote_event s f buf v) s'"
      by (simp add: 2(6) wrote_event_def p(1) drv_sim_on_pipe [OF p(2)])
    then show thesis using 2 by (intro that(2))
  qed (rule that(1))
qed

lemma scull_p_release_counts:
  "scull_p_release fah filp fm p = (p', v, freed) \<Longrightarrow>
   sp_nreaders p' = sp_nreaders p - (if fm_read fm then 1 else 0) \<and>
   sp_nwriters p' = sp_nwriters p - (if fm_write fm then 1 else 0) \<and> \<not> sp_lock p' \<and>
   (sp_buffer p' = None \<longrightarrow> sp_nreaders p' + sp_nwriters p' = 0 \<or> sp_buffer p = None)"
  by (auto simp: scull_p_release_def scull_p_fasync_def Let_def p_unlock_def split: prod.splits if_splits)

lemma drv_p_release_sim:
  assumes inv: "drv_inv K s" and f: "dr_files s fd = Some f" "f_cdev f = PipeCdev i"
  obtains s' rep where "drv_p_release e s fd f = Done (s', rep)" "drv_inv K (set_file s' fd None)"
    "K \<longrightarrow> drv_sim s (release_event s' f) s'" "in_use (dr_mod s) (dr_mod s')"
proof -
  obtain p where p: "private_data f = Some (PipeDev i)" "pipe_at (dr_mod s) i = Some p"
    using typed_pipe [OF file_typed [OF inv f(1)] f(2)] .
  obtain p' v freed where run: "scull_p_release (k_fasync e) fd (f_mode f) p = (p', v, freed)" by (metis prod_cases3)
  let ?s = "put_pipe s i p'" and ?fs = "(dr_files s)(fd := None)"
  have r: "drv_p_release e s fd f = Done (?s, Returns (zero_ret v) NoData)"
    by (simp add: drv_p_release_def filp_pipe_typed [OF p] run)
  have c: "pipe_counted K (dr_files s) i p" using pipe_sound [OF inv p(2)] .
  have eff: "K \<longrightarrow> pipe_inv p' \<and> (sp_buffer p' = None \<or> pipe_contents p' = pipe_contents p)"
    using scull_p_release_effect [OF _ run] c by (simp add: pipe_counted_def)
  note cnt = scull_p_release_counts [OF run]
  note n = num_files_close [OF drv_inv_finite [OF inv] f(1)]
  have "drv_inv K (set_file ?s fd None)"
  proof (rule drv_inv_pipe_files [OF inv p(2)])
    show "files_ok (put_pipe_at (dr_mod s) i p') ?fs"
      using inv p by (intro files_ok_close files_ok_put_pipe) (auto simp: drv_inv_def)
    have "sp_nreaders p' = num_files (reads_pipe i) ?fs" "sp_nwriters p' = num_files (writes_pipe i) ?fs"
      using c cnt by (auto simp: pipe_counted_def n reads_pipe_def writes_pipe_def f)
    moreover have "0 \<le> num_files (reads_pipe i) ?fs" "0 \<le> num_files (writes_pipe i) ?fs" by simp_all
    moreover have "sp_buffer p = None \<Longrightarrow> sp_nreaders p' \<le> 0 \<and> sp_nwriters p' \<le> 0" using c cnt by (auto simp: pipe_counted_def)
    ultimately show "pipe_counted K ?fs i p'" using eff cnt unfolding pipe_counted_def by linarith
    show "num_files (reads_pipe j) ?fs = num_files (reads_pipe j) (dr_files s) \<and>
        num_files (writes_pipe j) ?fs = num_files (writes_pipe j) (dr_files s)" if "j \<noteq> i" for j
      using that by (simp add: n reads_pipe_def writes_pipe_def f)
    show "users_ok (set_file ?s fd None)"
      using inv f by (intro users_ok_close [of s]) (auto simp: drv_inv_def files_ok_def)
  qed simp_all
  moreover have "K \<longrightarrow> drv_sim s (release_event ?s f) ?s"
  proof (cases "sp_buffer p' = None")
    case True
    then have "queue_step PReset (pipe_contents p) = Some (pipe_contents p')" by (simp add: pipe_contents_closed)
    then show ?thesis using True p by (simp add: release_event_def pipes.get_put drv_sim_on_pipe [OF p(2)])
  next
    case False
    have "K \<longrightarrow> drv_sim s Quiet ?s"
      using eff False p(2) by (intro impI drv_sim_quiet) (auto simp: pipes.get_put split: if_splits)
    then show ?thesis using False p by (auto simp: release_event_def pipes.get_put)
  qed
  ultimately show thesis by (intro that [OF r]) simp_all
qed

section \<open>Any device\<close>

lemma new_file_fields [simp]:
  "f_cdev (new_file e c flags) = c" "private_data (new_file e c flags) = None" "f_cred (new_file e c flags) = k_cred e"
  "f_flags (new_file e c flags) = flags"
  by (simp_all add: new_file_def)

lemma opens_counted_sound:
  assumes inv: "drv_inv K s" and o: "opens_counted K s f s' f' v" and f: "\<And>i. f_cdev f \<noteq> PipeCdev i"
  shows "open_sound K s s' f' v"
proof (cases v)
  case (Inl er)
  then show ?thesis using o by (simp add: opens_counted_def opens_dev_def open_sound_def)
next
  case (Inr n)
  from o Inr obtain r where r: "f' = f\<lparr>private_data := Some r\<rparr>" "dev_change K r s s'" "well_typed (dr_mod s') f'"
    by (auto simp: opens_counted_def opens_dev_def)
  have files: "dr_files s' = dr_files s" "pipe_at (dr_mod s') = pipe_at (dr_mod s)" using r(2) by (simp_all add: dev_change_def)
  have "drv_inv K (set_file s' fd (Some f'))" if fd: "dr_files s fd = None" for fd
  proof -
    have "files_ok (dr_mod s') (dr_files s)"
      using inv dev_change_typed [OF r(2)] by (auto simp: drv_inv_def files_ok_def)
    then have "files_ok (dr_mod s') ((dr_files s)(fd \<mapsto> f'))" using r(3) by (rule files_ok_new)
    moreover have "pipes_ok K (dr_mod s') ((dr_files s)(fd \<mapsto> f'))"
      using inv fd f r(1) files(2) by (intro pipes_ok_new) (auto simp: drv_inv_def pipes_ok_def files_ok_def)
    moreover have "users_ok (set_file s' fd (Some f'))" using o Inr fd by (auto simp: opens_counted_def)
    moreover have "devs_ok K (dr_mod s')" using inv dev_change_devs_ok [OF _ r(2)] by (simp add: drv_inv_def)
    ultimately show ?thesis by (simp add: drv_inv_def files(1))
  qed
  moreover have "drv_sim s (open_event f') s'" using o Inr opens_dev_sim by (auto simp: opens_counted_def)
  ultimately show ?thesis using r(2) by (simp add: open_sound_def Inr dev_change_def)
qed

lemma opens_dev_counted:
  assumes inv: "drv_inv K s" and o: "opens_dev K s f s' f' v" and "same_users s s'" and "f_cdev f \<notin> counted_cdevs"
  shows "opens_counted K s f s' f' v"
proof -
  have "users_ok (set_file s' fd (Some f'))" if "v = Inr n" "dr_files s fd = None" for n fd
    using assms that by (intro users_ok_new [of s]) (auto simp: drv_inv_def files_ok_def opens_dev_def dev_change_def)
  then show ?thesis using o by (simp add: opens_counted_def)
qed

lemma drv_any_open:
  assumes inv: "drv_inv K s" and c: "cdev_present (dr_mod s) c" and km: "kmalloc_sized (k_km e)"
    and lim: "K \<longrightarrow> open_in_range s c flags" and run: "fo_open (fops_of c) e s (new_file e c flags) = Done (s', f', rep)"
  obtains "rep = Sleeps" | v where "rep = Returns v NoData" "open_sound K s s' f' v"
proof (cases c)
  case (MainCdev i)
  let ?f = "new_file e c flags"
  from drv_open_effect [OF inv, of ?f i e s' f' rep] run MainCdev lim obtain v where
    o: "rep = Returns v NoData" "opens_dev K s ?f s' f' v" "same_users s s'"
    by (auto simp: open_in_range_def fops_defs)
  have "open_sound K s s' f' v"
    using MainCdev by (intro opens_counted_sound [OF inv opens_dev_counted [OF inv o(2,3)]]) simp_all
  then show thesis using o(1) by (rule that(2) [rotated])
next
  case (PipeCdev i)
  let ?f = "new_file e c flags"
  have "K \<longrightarrow> pipe_fits s (PipeCdev i)" using lim PipeCdev by (simp add: open_in_range_def)
  from drv_p_open_effect [OF inv _ this km, of ?f s' f' rep] run PipeCdev show thesis
    using that(2) by (auto simp: fops_defs)
next
  case (AccessCdev i)
  let ?f = "new_file e c flags"
  note snd = opens_counted_sound [OF inv, of ?f]
  have g: "K \<longrightarrow> empties (f_flags ?f) \<longrightarrow> geometry_ok (dr_params s)" using lim AccessCdev by (simp add: open_in_range_def)
  from c have "cdev_present (dr_mod s) (AccessCdev i)" by (simp add: AccessCdev)
  then show thesis
  proof (cases rule: access_cases)
    case 1
    with drv_s_open_effect [OF inv _ g, of e s' f' rep] run AccessCdev obtain v where
      o: "rep = Returns v NoData" "opens_counted K s ?f s' f' v" by (auto simp: fops_defs)
    then show thesis using snd [OF o(2)] AccessCdev by (intro that(2)) simp_all
  next
    case 2
    with drv_u_open_effect [OF inv _ _ g, of e s' f' rep] run AccessCdev obtain v where
      o: "rep = Returns v NoData" "opens_counted K s ?f s' f' v" by (auto simp: fops_defs)
    then show thesis using snd [OF o(2)] AccessCdev by (intro that(2)) simp_all
  next
    case 3
    have "drv_w_open e s ?f = Done (s', f', rep)" "f_cdev ?f = AccessCdev 2" using run AccessCdev 3 by (simp_all add: fops_defs)
    from inv this(2) new_file_fields(3) g this(1) show thesis
    proof (cases rule: drv_w_open_effect)
      case (2 v)
      then show thesis using snd [OF 2(2)] AccessCdev by (intro that(2)) simp_all
    qed (simp_all add: that(1))
  next
    case 4
    then have "K \<longrightarrow> geometry_ok (dr_params s)" using lim AccessCdev by (simp add: open_in_range_def)
    from drv_c_open_effect [OF inv _ this, of ?f e s' f' rep] run AccessCdev 4 obtain v where
      o: "rep = Returns v NoData" "opens_dev K s ?f s' f' v" "same_users s s'" by (auto simp: fops_defs)
    then have "open_sound K s s' f' v"
      using AccessCdev 4 by (intro opens_counted_sound [OF inv opens_dev_counted [OF inv o(2,3)]]) simp_all
    then show thesis using o(1) by (rule that(2) [rotated])
  qed
qed

end
