(* ===== verification/Scull_Life.thy ===== *)
theory Scull_Life
  imports Scull_System
begin

text \<open>
  The life of the scull driver: loaded, used by any number of processes through open files, unloaded.
  Every call preserves the invariant of \<open>Scull_System\<close>, in its weaker form whatever the arguments, and in
  its stronger form as long as the calls stay within the limits of \<open>drv_step\<close>; then it is also a step of the
  specification. From this follow the type safety of the methods, the accounting of users, and that
  unloading gives back everything that loading and use have taken.
\<close>

section \<open>Closing a file\<close>

lemma release_frame:
  assumes inv: "drv_inv K s" and f: "dr_files s fd = Some f" "\<And>i. f_cdev f \<noteq> PipeCdev i"
    and s': "dr_mod s' = dr_mod s" "dr_files s' = dr_files s" and "users_ok (set_file s' fd None)"
  shows "drv_inv K (set_file s' fd None) \<and> drv_sim s (release_event s' f) s'"
proof -
  have "private_data f \<noteq> Some (PipeDev i)" for i
    using typed_dev [OF file_typed [OF inv f(1)] f(2)] dev_not_pipe by (metis option.inject)
  then have "release_event s' f = Quiet" by (auto simp: release_event_def split: option.splits devref.splits)
  moreover have "drv_sim s Quiet s'" by (rule drv_sim_quiet) (simp_all add: s'(1))
  moreover have "pipes_ok K (dr_mod s) ((dr_files s)(fd := None))"
    using inv f by (intro pipes_ok_close) (auto simp: drv_inv_def files_ok_def)
  ultimately show ?thesis
    using assms files_ok_close [of "dr_mod s" "dr_files s" fd] by (simp add: drv_inv_def)
qed

lemma num_close_user:
  assumes "drv_inv K s" and "dr_files s fd = Some f"
  shows "num_files (on_cdev c) ((dr_files s)(fd := None)) = num_files (on_cdev c) (dr_files s) - (if f_cdev f = c then 1 else 0)"
  by (rule num_files_close [OF drv_inv_finite [OF assms(1)] assms(2)])

text \<open>Closing a file of an access-controlled device.\<close>

lemma drv_access_release:
  assumes inv: "drv_inv K s" and f: "dr_files s fd = Some f" and c: "f_cdev f = AccessCdev i"
  obtains s' rep where "fo_release (f_op f) e s fd f = Done (s', rep)" "drv_inv K (set_file s' fd None)"
    "K \<longrightarrow> drv_sim s (release_event s' f) s'" "in_use (dr_mod s) (dr_mod s')"
proof -
  have u: "users_ok s" using inv by (simp add: drv_inv_def)
  note n = num_close_user [OF inv f] and rf = release_frame [OF inv f]
  from typed_present [OF file_typed [OF inv f]] c have "cdev_present (dr_mod s) (AccessCdev i)" by simp
  then show thesis
  proof (cases rule: access_cases)
    case 1
    obtain d where d: "dev_at (dr_mod s) (AccessDev 0) = Some d" using access_dev [OF inv, of 0] by auto
    let ?s = "s\<lparr>dr_s_available := atomic_inc (dr_s_available s)\<rparr>"
    have "users_ok (set_file ?s fd None)" using u 1 c n by (auto simp: users_ok_def set_file_def atomic_inc_def)
    with rf [of ?s] show thesis using d 1 c
      by (intro that [of ?s]) (auto simp: fops_defs drv_s_release_def scull_s_release_def dev_of_def)
  next
    case 2
    obtain d where d: "dev_at (dr_mod s) (AccessDev 1) = Some d" using access_dev [OF inv, of 1] by auto
    let ?s = "s\<lparr>dr_u_count := dr_u_count s - 1, dr_u_owner := dr_u_owner s\<rparr>"
    have "users_ok (set_file ?s fd None)" using u 2 c n by (auto simp: users_ok_def set_file_def)
    with rf [of ?s] show thesis using d 2 c
      by (intro that [of ?s]) (auto simp: fops_defs drv_u_release_def scull_u_release_def dr_u_def dev_of_def)
  next
    case 3
    obtain d where d: "dev_at (dr_mod s) (AccessDev 2) = Some d" using access_dev [OF inv, of 2] by auto
    let ?s = "s\<lparr>dr_w_count := dr_w_count s - 1, dr_w_owner := dr_w_owner s\<rparr>"
    have "users_ok (set_file ?s fd None)" using u 3 c n by (auto simp: users_ok_def set_file_def)
    with rf [of ?s] show thesis using d 3 c
      by (intro that [of ?s]) (auto simp: fops_defs drv_w_release_def scull_w_release_def dr_w_def dev_of_def Let_def)
  next
    case 4
    have "users_ok (set_file s fd None)" if "f_cdev f \<notin> counted_cdevs"
      using that u f drv_inv_finite [OF inv] by (intro users_ok_close [of s]) simp_all
    then show thesis using 4 rf c
      by (intro that [of s]) (auto simp: fops_defs drv_c_release_def scull_c_release_def)
  qed
qed

lemma drv_any_release:
  assumes inv: "drv_inv K s" and f: "dr_files s fd = Some f"
  obtains s' rep where "fo_release (f_op f) e s fd f = Done (s', rep)" "drv_inv K (set_file s' fd None)"
    "K \<longrightarrow> drv_sim s (release_event s' f) s'" "in_use (dr_mod s) (dr_mod s')"
proof (cases "f_cdev f")
  case (MainCdev i)
  have "users_ok (set_file s fd None)" if "f_cdev f \<notin> counted_cdevs"
    using that inv f drv_inv_finite [OF inv] by (intro users_ok_close [of s]) (simp_all add: drv_inv_def)
  then show thesis using MainCdev release_frame [OF inv f]
    by (intro that [of s]) (auto simp: fops_defs drv_release_def)
next
  case (PipeCdev i)
  show thesis
  proof (rule drv_p_release_sim [OF inv f PipeCdev])
    fix s' rep assume r: "drv_p_release e s fd f = Done (s', rep)"
      "drv_inv K (set_file s' fd None)" "K \<longrightarrow> drv_sim s (release_event s' f) s'" "in_use (dr_mod s) (dr_mod s')"
    then show thesis using PipeCdev by (intro that) (simp_all add: fops_defs)
  qed
next
  case (AccessCdev i)
  from drv_access_release [OF inv f this, of e] that show thesis .
qed

section \<open>Reading and writing a file\<close>

lemma drv_any_read:
  assumes inv: "drv_inv K s" and f: "dr_files s fd = Some f" "fm_read (f_mode f)" and pos: "K \<longrightarrow> pos_fits s f"
    and n: "0 \<le> n" "n < 2 ^ 63" and run: "fo_read (f_op f) e s f n = Done (s', f', rep)"
  obtains "rep = Sleeps"
  | v bs where "rep = Returns v (ToUser bs)" "drv_inv K (set_file s' fd (Some f'))" "K \<longrightarrow> drv_sim s (read_event f v bs) s'"
      "in_use (dr_mod s) (dr_mod s')"
proof (cases "\<exists>i. f_cdev f = PipeCdev i")
  case True
  then obtain i where i: "f_cdev f = PipeCdev i" ..
  then have "drv_p_read e s f n = Done (s', f', rep)" using run by (simp add: fops_defs)
  from inv f(1) i f(2) n this show thesis
  proof (cases rule: drv_p_read_sim)
    case (2 v bs)
    then have "drv_inv K (set_file s' fd (Some (f\<lparr>f_pos := f_pos f\<rparr>)))" using f(1) by (intro drv_inv_seek) simp_all
    then show thesis using 2 by (intro that(2)) simp_all
  qed (rule that(1))
next
  case False
  then have np: "\<And>i. f_cdev f \<noteq> PipeCdev i" by simp
  have ty: "well_typed (dr_mod s) f" using file_typed [OF inv f(1)] .
  obtain r d where r: "private_data f = Some r" "dev_at (dr_mod s) r = Some d" using typed_dev [OF ty np] .
  have "drv_read e s f n = Done (s', f', rep)" using run by (simp add: fops_shared [OF typed_present [OF ty] np])
  from drv_read_sim [OF inv r pos n this] obtain pos v bs where
    o: "f' = f\<lparr>f_pos := pos\<rparr>" "rep = Returns v (ToUser bs)" and ch: "dev_change K r s s'" "same_users s s'"
      "K \<longrightarrow> drv_sim s (read_event f v bs) s'" .
  have "drv_inv K (set_file s' fd (Some f'))" unfolding o(1)
    using ch(1) f(1) drv_inv_dev_change [OF inv ch(1,2)] by (intro drv_inv_seek) (simp_all add: dev_change_def)
  then show thesis using o(2) ch(3) dev_change_in_use [OF ch(1)] by (intro that(2))
qed

lemma drv_any_write:
  assumes inv: "drv_inv K s" and f: "dr_files s fd = Some f" "fm_write (f_mode f)" and pos: "K \<longrightarrow> pos_fits s f"
    and km: "kmalloc_sized (k_km e)" and run: "fo_write (f_op f) e s f buf = Done (s', f', rep)"
  obtains "rep = Sleeps"
  | v out where "rep = Returns v out" "drv_inv K (set_file s' fd (Some f'))" "K \<longrightarrow> drv_sim s (wrote_event s f buf v) s'"
      "in_use (dr_mod s) (dr_mod s')"
proof (cases "\<exists>i. f_cdev f = PipeCdev i")
  case True
  then obtain i where i: "f_cdev f = PipeCdev i" ..
  then have "drv_p_write e s f buf = Done (s', f', rep)" using run by (simp add: fops_defs)
  from inv f(1) i f(2) this show thesis
  proof (cases rule: drv_p_write_sim)
    case (2 v bs)
    then have "drv_inv K (set_file s' fd (Some (f\<lparr>f_pos := f_pos f\<rparr>)))" using f(1) by (intro drv_inv_seek) simp_all
    then show thesis using 2 by (intro that(2)) simp_all
  qed (rule that(1))
next
  case False
  then have np: "\<And>i. f_cdev f \<noteq> PipeCdev i" by simp
  have ty: "well_typed (dr_mod s) f" using file_typed [OF inv f(1)] .
  obtain r d where r: "private_data f = Some r" "dev_at (dr_mod s) r = Some d" using typed_dev [OF ty np] .
  have "drv_write e s f buf = Done (s', f', rep)" using run by (simp add: fops_shared [OF typed_present [OF ty] np])
  from drv_write_sim [OF inv r pos km this] obtain pos v where
    o: "f' = f\<lparr>f_pos := pos\<rparr>" "rep = Returns v NoData" and ch: "dev_change K r s s'" "same_users s s'"
      "K \<longrightarrow> drv_sim s (wrote_event s f buf v) s'" .
  have "drv_inv K (set_file s' fd (Some f'))" unfolding o(1)
    using ch(1) f(1) drv_inv_dev_change [OF inv ch(1,2)] by (intro drv_inv_seek) (simp_all add: dev_change_def)
  then show thesis using o(2) ch(3) dev_change_in_use [OF ch(1)] by (intro that(2))
qed

text \<open>Within the limits, no call of a method faults.\<close>

lemma drv_any_read_done:
  assumes inv: "drv_inv True s" and f: "dr_files s fd = Some f" "fm_read (f_mode f)" and "pos_fits s f" and n: "0 \<le> n" "n < 2 ^ 63"
  shows "is_done (fo_read (f_op f) e s f n)"
proof (cases "\<exists>i. f_cdev f = PipeCdev i")
  case True
  then obtain i where i: "f_cdev f = PipeCdev i" ..
  obtain p where p: "private_data f = Some (PipeDev i)" "pipe_at (dr_mod s) i = Some p"
    using typed_pipe [OF file_typed [OF inv f(1)] i] .
  from open_pipe_buffer(3) [OF inv f(1) i _ p(2)] f(2) drv_p_read_done [OF _ p n] show ?thesis by (simp add: i fops_defs)
next
  case False
  then have np: "\<And>i. f_cdev f \<noteq> PipeCdev i" by simp
  have ty: "well_typed (dr_mod s) f" using file_typed [OF inv f(1)] .
  obtain r d where r: "private_data f = Some r" "dev_at (dr_mod s) r = Some d" using typed_dev [OF ty np] .
  from drv_read_done [OF _ r assms(4) n] dev_sound [OF inv r(2)] show ?thesis
    by (simp add: fops_shared [OF typed_present [OF ty] np])
qed

lemma drv_any_write_done:
  assumes inv: "drv_inv True s" and f: "dr_files s fd = Some f" "fm_write (f_mode f)" and "pos_fits s f" "kmalloc_sized (k_km e)"
  shows "is_done (fo_write (f_op f) e s f buf)"
proof (cases "\<exists>i. f_cdev f = PipeCdev i")
  case True
  then obtain i where i: "f_cdev f = PipeCdev i" ..
  obtain p where p: "private_data f = Some (PipeDev i)" "pipe_at (dr_mod s) i = Some p"
    using typed_pipe [OF file_typed [OF inv f(1)] i] .
  from open_pipe_buffer(3) [OF inv f(1) i _ p(2)] f(2) drv_p_write_done [OF _ p] show ?thesis by (simp add: i fops_defs)
next
  case False
  then have np: "\<And>i. f_cdev f \<noteq> PipeCdev i" by simp
  have ty: "well_typed (dr_mod s) f" using file_typed [OF inv f(1)] .
  obtain r d where r: "private_data f = Some r" "dev_at (dr_mod s) r = Some d" using typed_dev [OF ty np] .
  from drv_write_done [OF _ r assms(4,5)] dev_sound [OF inv r(2)] show ?thesis
    by (simp add: fops_shared [OF typed_present [OF ty] np])
qed

lemma scull_c_open_done:
  assumes "\<And>flags key d. priv_dev ls key = Some d \<Longrightarrow> is_done (trim_if_wronly g flags d)"
  shows "is_done (scull_c_open km sizeof_item g tty flags ls)"
proof (cases tty)
  case (Some key)
  let ?z = "zero_dev\<lparr>sd_quantum := scull_quantum g, sd_qset := scull_qset_p g\<rparr>"
  have new: "scull_trim g zero_dev = Done (?z, [])" by (simp add: scull_trim_def zero_dev_def)
  have z: "is_done (trim_if_wronly g flags ?z)" "is_done (trim_if_wronly g flags (?z\<lparr>sd_lock := b\<rparr>))" for b
    by (simp_all add: trim_if_wronly_def scull_trim_def zero_dev_def)
  have "is_done (trim_if_wronly g flags (li_device (ls ! i)))" if "find_key key ls = Some i" for i
    using assms [of key] that by (simp add: priv_dev_def)
  then show ?thesis
    using z by (auto simp: Some scull_c_open_def scull_c_lookfor_device_def new is_done_kbind is_done_iff split: option.splits)
qed (simp add: scull_c_open_def)

lemma drv_access_open_done:
  assumes inv: "drv_inv True s" and "cdev_present (dr_mod s) (AccessCdev i)"
  shows "is_done (fo_open (fops_of (AccessCdev i)) e s f)"
proof -
  have t: "is_done (trim_if_wronly g flags d)" if "dev_at (dr_mod s) r = Some d" for g flags d r
    using dev_sound [OF inv that] by (intro trim_if_wronly_unlocked) simp
  have dev: "\<exists>d. dev_at (dr_mod s) (AccessDev j) = Some d" if "j < 4" for j
    using access_dev [OF inv that] by blast
  have c: "is_done (scull_c_open (k_km e) (k_item e) (dr_params s) (k_tty e) (f_flags f) (m_c_list (dr_mod s)))"
  proof (rule scull_c_open_done)
    show "is_done (trim_if_wronly g flags d)" if "priv_dev (m_c_list (dr_mod s)) key = Some d" for g flags key d
      by (rule t [of "PrivDev key"]) (simp add: dev_at.simps that)
  qed
  from assms(2) show ?thesis
  proof (cases rule: access_cases)
    case 1
    obtain d where "dev_at (dr_mod s) (AccessDev 0) = Some d" using dev [of 0] by auto
    with t [OF this, of "dr_params s" "f_flags f"] 1 show ?thesis
      by (auto simp: fops_defs drv_s_open_def dev_of_def scull_s_open_def atomic_dec_and_test_def is_done_iff)
  next
    case 2
    obtain d where "dev_at (dr_mod s) (AccessDev 1) = Some d" using dev [of 1] by auto
    with t [OF this, of "dr_params s" "f_flags f"] 2 show ?thesis
      by (auto simp: fops_defs drv_u_open_def dev_of_def scull_u_open_def dr_u_def Let_def is_done_iff)
  next
    case 3
    obtain d where "dev_at (dr_mod s) (AccessDev 2) = Some d" using dev [of 2] by auto
    with t [OF this, of "dr_params s" "f_flags f"] 3 show ?thesis
      by (auto simp: fops_defs drv_w_open_def dev_of_def scull_w_open_def dr_w_def Let_def is_done_iff)
  next
    case 4
    then show ?thesis using c by (auto simp: fops_defs drv_c_open_def is_done_iff)
  qed
qed

lemma drv_seek_fasync_done:
  assumes inv: "drv_inv K s" and f: "dr_files s fd = Some f"
  shows "(\<forall>llseek. fo_llseek (f_op f) = Some llseek \<longrightarrow> is_done (llseek s f off whence)) \<and>
    (\<forall>fasync. fo_fasync (f_op f) = Some fasync \<longrightarrow> is_done (fasync e s i fd f on))"
proof (cases "\<exists>k. f_cdev f = PipeCdev k")
  case True
  then obtain k where k: "f_cdev f = PipeCdev k" ..
  obtain p where p: "private_data f = Some (PipeDev k)" "pipe_at (dr_mod s) k = Some p"
    using typed_pipe [OF file_typed [OF inv f] k] .
  then show ?thesis by (auto simp: k fops_defs drv_p_fasync_def filp_pipe_typed [OF p] case_prod_unfold)
next
  case False
  then have np: "\<And>k. f_cdev f \<noteq> PipeCdev k" by simp
  have ty: "well_typed (dr_mod s) f" using file_typed [OF inv f] .
  obtain r d where r: "private_data f = Some r" "dev_at (dr_mod s) r = Some d" using typed_dev [OF ty np] .
  have "is_done (drv_llseek s f off whence)" by (simp add: drv_llseek_def filp_dev_typed [OF r] case_prod_unfold)
  then show ?thesis by (simp add: fops_shared [OF typed_present [OF ty] np])
qed

lemma drv_poll_done:
  assumes inv: "drv_inv True s" and f: "dr_files s fd = Some f"
  shows "\<forall>poll. fo_poll (f_op f) = Some poll \<longrightarrow> fm_read (f_mode f) \<or> fm_write (f_mode f) \<longrightarrow> is_done (poll s f)"
proof (cases "\<exists>k. f_cdev f = PipeCdev k")
  case True
  then obtain k where k: "f_cdev f = PipeCdev k" ..
  obtain p where p: "private_data f = Some (PipeDev k)" "pipe_at (dr_mod s) k = Some p"
    using typed_pipe [OF file_typed [OF inv f] k] .
  have "is_done (scull_p_poll p)" if "fm_read (f_mode f) \<or> fm_write (f_mode f)"
    using spacefree_room(1) [of p] open_pipe_buffer(3) [OF inv f k that p(2)] by (simp add: scull_p_poll_def Let_def)
  then show ?thesis by (auto simp: k fops_defs drv_p_poll_def filp_pipe_typed [OF p] case_prod_unfold)
next
  case False
  then show ?thesis using fops_shared(5) [OF typed_present [OF file_typed [OF inv f]]] by simp
qed

lemma drv_any_open_done:
  assumes inv: "drv_inv True s" and c: "cdev_present (dr_mod s) c"
  shows "is_done (fo_open (fops_of c) e s (new_file e c flags))"
proof (cases c)
  case (MainCdev i)
  with c obtain d where d: "dev_at (dr_mod s) (MainDev i) = Some d" by auto
  have "is_done (scull_open (dr_params s) (k_intr e) d flags)"
    using trim_items_blocks dev_sound [OF inv d] by (auto simp: scull_open_def scull_trim_def scull_wf_def is_done_iff)
  then show ?thesis using d by (fastforce simp: MainCdev fops_defs drv_open_def dev_of_def is_done_kbind is_done_iff)
next
  case (PipeCdev i)
  with c show ?thesis by (auto simp: fops_defs drv_p_open_def pipe_of_def case_prod_unfold)
next
  case (AccessCdev i)
  then show ?thesis using drv_access_open_done [OF inv] c by simp
qed

section \<open>One call\<close>

lemma drv_llseek_pos: "drv_llseek s f off whence = Done (f', v) \<Longrightarrow> \<exists>pos. f' = f\<lparr>f_pos := pos\<rparr>"
  by (auto simp: drv_llseek_def exec_simps case_prod_unfold)

text \<open>A call of \<open>ioctl\<close> changes the module parameters only, and \<open>fasync\<close> the list of a pipe's readers to notify.\<close>

lemma drv_ioctl_sound:
  assumes inv: "drv_inv K s" and f: "dr_files s fd = Some f" and run: "fo_ioctl (f_op f) e s cmd arg = (s', rep)"
  shows "drv_inv K s' \<and> drv_sim s Quiet s' \<and> in_use (dr_mod s) (dr_mod s')"
proof -
  note ty = file_typed [OF inv f]
  from run obtain g where s': "s' = s\<lparr>dr_mod := (dr_mod s)\<lparr>m_params := g\<rparr>\<rparr>"
    unfolding fo_ioctl_shared [OF typed_present [OF ty]] by (auto simp: drv_ioctl_def split: prod.split_asm)
  have "well_typed (dr_mod s') = well_typed (dr_mod s)"
    by (auto simp: fun_eq_iff s' well_typed_def split: cdev.splits)
  then show ?thesis using inv
    by (auto simp: s' drv_inv_def devs_ok_def files_ok_def pipes_ok_def users_ok_def intro!: drv_sim_quiet)
qed

lemma drv_fasync_sound:
  assumes inv: "drv_inv K s" and f: "dr_files s fd = Some f" and m: "fo_fasync (f_op f) = Some fasync"
    and run: "fasync e s i fd f on = Done (s', rep)"
  shows "drv_inv K s' \<and> drv_sim s Quiet s' \<and> in_use (dr_mod s) (dr_mod s')"
proof -
  note ty = file_typed [OF inv f]
  obtain k where k: "f_cdev f = PipeCdev k"
    using m fops_shared(4) [OF typed_present [OF ty]] by auto
  obtain p where p: "private_data f = Some (PipeDev k)" "pipe_at (dr_mod s) k = Some p"
    using typed_pipe [OF ty k] .
  have "fasync = drv_p_fasync" using m k by (simp add: fops_defs)
  then obtain q where s': "s' = put_pipe s k (p\<lparr>sp_async := q\<rparr>)"
    using run by (auto simp: drv_p_fasync_def filp_pipe_typed [OF p] scull_p_fasync_def split: prod.split_asm)
  have "(K \<longrightarrow> pipe_inv (p\<lparr>sp_async := q\<rparr>)) \<and> \<not> sp_lock (p\<lparr>sp_async := q\<rparr>)"
    using pipe_sound [OF inv p(2)] by (simp add: pipe_counted_def pipe_inv_def pipe_fields_simps)
  then have "drv_inv K s'" unfolding s' by (intro drv_inv_put_pipe [OF inv p(2)]) simp_all
  then show ?thesis using p(2)
    by (auto simp: s' pipes.get_put pipe_fields_simps intro!: drv_sim_quiet split: if_splits)
qed

text \<open>
  Every call keeps the invariant and replaces no array of devices; as long as the calls stay within the
  limits, it is a step of the specification.
\<close>

lemma drv_step_sound:
  assumes "drv_step s (ok, ev) s'" and inv: "drv_inv K s" and lim: "K \<longrightarrow> ok"
  shows "drv_inv K s' \<and> (K \<longrightarrow> drv_sim s ev s') \<and> in_use (dr_mod s) (dr_mod s')"
  using assms(1)
proof (cases rule: drv_step.cases)
  case (drv_opened fd c e flags s1 f1 n out)
  have ok: "K \<longrightarrow> open_in_range s c flags" using lim drv_opened(1) by simp
  from inv drv_opened(5,6) ok drv_opened(7) show ?thesis
  proof (cases rule: drv_any_open)
    case (2 v)
    then have "open_sound K s s1 f1 (Inr n)" by simp
    then show ?thesis using drv_opened(2,3,4) by (simp add: open_sound_def)
  qed simp_all
next
  case (drv_refused c e flags f1 er out)
  have ok: "K \<longrightarrow> open_in_range s c flags" using lim drv_refused(1) by simp
  from inv drv_refused(3,4) ok drv_refused(5) show ?thesis
  proof (cases rule: drv_any_open)
    case (2 v)
    then have "dr_mod s' = dr_mod s" "dr_files s' = dr_files s" "same_users s s'"
      by (auto simp: open_sound_def)
    then show ?thesis using inv drv_refused(2)
      by (auto simp: drv_inv_def users_ok_def same_users_def intro!: drv_sim_quiet)
  qed simp_all
next
  case (drv_readed fd f n e s1 f1 v bs)
  have ok: "K \<longrightarrow> pos_fits s f" using lim drv_readed(1) by simp
  from inv drv_readed(4,5) ok drv_readed(6,7,8) show ?thesis
  proof (cases rule: drv_any_read)
    case (2 w cs)
    then show ?thesis using drv_readed(2,3) by simp
  qed simp_all
next
  case (drv_wrote fd f e buf s1 f1 v out)
  have ok: "K \<longrightarrow> pos_fits s f" using lim drv_wrote(1) by simp
  from inv drv_wrote(4,5) ok drv_wrote(6,7) show ?thesis
  proof (cases rule: drv_any_write)
    case (2 w cs)
    then show ?thesis using drv_wrote(2,3) by simp
  qed simp_all
next
  case (drv_seeked fd f llseek off whence f1 v)
  note ty = file_typed [OF inv drv_seeked(4)]
  have np: "f_cdev f \<noteq> PipeCdev i" for i using drv_seeked(5) by (auto simp: fops_defs)
  have "llseek = drv_llseek" using drv_seeked(5) fops_shared(3) [OF typed_present [OF ty] np] by simp
  then obtain pos where "f1 = f\<lparr>f_pos := pos\<rparr>" using drv_seeked(6) drv_llseek_pos by blast
  then show ?thesis using drv_inv_seek [OF inv drv_seeked(4)] drv_seeked(2,3) by (auto intro: drv_sim_quiet)
next
  case (drv_controlled fd f e cmd arg rep)
  then show ?thesis using drv_ioctl_sound [OF inv] by simp
next
  case (drv_released fd f e s1 rep)
  from inv drv_released(4) show ?thesis
    by (rule drv_any_release [of K s fd f e]) (use drv_released in simp)
next
  case (drv_notified fd f fasync e i on rep)
  then show ?thesis using drv_fasync_sound [OF inv] by simp
qed

lemma drv_run_sound:
  assumes "drv_run s es s'" and "drv_inv K s" and "K \<longrightarrow> in_limits es" and "K \<longrightarrow> drv_abs \<sigma> (dr_mod s)"
  shows "drv_inv K s' \<and> (K \<longrightarrow> (\<exists>\<sigma>'. drv_spec_run (map snd es) \<sigma> = Some \<sigma>' \<and> drv_abs \<sigma>' (dr_mod s'))) \<and> in_use (dr_mod s) (dr_mod s')"
  using assms
proof (induction rule: drv_run.induct)
  case (drun_snoc s es s1 ev s2)
  then have r: "drv_inv K s1" "K \<longrightarrow> (\<exists>\<sigma>1. drv_spec_run (map snd es) \<sigma> = Some \<sigma>1 \<and> drv_abs \<sigma>1 (dr_mod s1))" "in_use (dr_mod s) (dr_mod s1)"
    by auto
  have "drv_step s1 (fst ev, snd ev) s2" "K \<longrightarrow> fst ev" using drun_snoc.hyps(2) drun_snoc.prems(2) by auto
  note st = drv_step_sound [OF this(1) r(1) this(2)]
  have "\<exists>\<sigma>2. drv_spec_run (map snd (es @ [ev])) \<sigma> = Some \<sigma>2 \<and> drv_abs \<sigma>2 (dr_mod s2)" if K
    using st r(2) that by (fastforce simp: drv_spec_run_snoc drv_sim_def)
  then show ?case using st r(1,3) by (auto simp: in_use_def)
qed simp

section \<open>The driver after loading\<close>

text \<open>The static variables of \<^verbatim>\<open>access.c\<close> as they are initialised, and no file open.\<close>

definition loaded :: "scull_module \<Rightarrow> scull_driver" where
  "loaded m = \<lparr>dr_mod = m, dr_s_available = 1, dr_u_count = 0, dr_u_owner = 0, dr_w_count = 0, dr_w_owner = 0,
     dr_files = (\<lambda>_. None)\<rparr>"

text \<open>
  The kernel grants the resources: the regions of device numbers (with a major number of its own
  choice if none was given) and the memory for the two arrays.
\<close>

definition granted :: "init_env \<Rightarrow> scull_module \<Rightarrow> bool" where
  "granted e m \<longleftrightarrow> (\<forall>f n. region_result e f n = None) \<and> main_array e \<noteq> None \<and> pipe_array e \<noteq> None \<and>
     (m_major m = 0 \<longrightarrow> (\<exists>ma. alloc_major e = Inr ma \<and> ma \<noteq> 0))"

text \<open>A major number that the kernel has chosen works as one that was given.\<close>

lemma init_major:
  assumes "granted e m"
  obtains ma where "ma \<noteq> 0" "scull_init_module e m = scull_init_module e (m\<lparr>m_major := ma\<rparr>)"
proof (cases "m_major m = 0")
  case True
  with assms obtain ma where "alloc_major e = Inr ma" "ma \<noteq> 0" by (auto simp: granted_def)
  then show thesis using True assms by (intro that [of ma]) (simp_all add: granted_def scull_init_module_def get_region_def)
next
  case False
  then show thesis using that [of "m_major m"] by simp
qed

lemma init_devices:
  assumes fresh: "fresh_module m" and gr: "granted e m" and init: "scull_init_module e m = Done (m', r, t)"
  shows "m_params m' = m_params m \<and> length (m_a_devices m') = 4 \<and> m_c_list m' = [] \<and>
    (\<forall>r d. dev_at m' r = Some d \<longrightarrow> d = zero_dev\<lparr>sd_quantum := scull_quantum (m_params m), sd_qset := scull_qset_p (m_params m)\<rparr>) \<and>
    (\<forall>i p. pipe_at m' i = Some p \<longrightarrow> p = zero_pipe)"
proof -
  from init_major [OF gr] obtain ma where ma: "ma \<noteq> 0" "scull_init_module e m = scull_init_module e (m\<lparr>m_major := ma\<rparr>)" .
  from gr obtain a b where ab: "main_array e = Some a" "pipe_array e = Some b" and reg: "\<forall>f n. region_result e f n = None"
    by (auto simp: granted_def)
  let ?d = "zero_dev\<lparr>sd_quantum := scull_quantum (m_params m), sd_qset := scull_qset_p (m_params m)\<rparr>"
  have four: "replicate 4 x = [x, x, x, x]" "[0..<4] = [0, 1, 2, 3::nat]" for x :: scull_dev
    by (simp_all add: numeral_eq_Suc upt_rec)
  have setups: "\<exists>t. access_setups e f [0..<4] x = (x\<lparr>m_a_devices := [?d, ?d, ?d, ?d]\<rparr>, t)"
    if "m_a_devices x = replicate 4 zero_dev" "m_params x = m_params m" for f x
    unfolding four(2) using that by (simp add: four(1) scull_access_setup_def zero_dev_def numeral_2_eq_2 numeral_3_eq_3)
  have n: "nat SCULL_N_ADEVS = 4" by (simp add: SCULL_N_ADEVS_def)
  define dev where "dev = MKDEV ma (m_minor m + m_nr_devs m)"
  let ?x = "m\<lparr>m_major := ma, m_devices := Some (a, replicate (nat (m_nr_devs m)) ?d), m_p_devno := dev,
    m_p_devices := Some (b, replicate (nat (m_p_nr_devs m)) zero_pipe), m_a_firstdev := dev + m_p_nr_devs m\<rparr>"
  have "m_a_devices ?x = replicate 4 zero_dev" using fresh by (simp add: fresh_module_def)
  with setups [of ?x "dev + m_p_nr_devs m"] obtain t' where
    "access_setups e (dev + m_p_nr_devs m) [0..<4] ?x = (?x\<lparr>m_a_devices := [?d, ?d, ?d, ?d]\<rparr>, t')" by auto
  with init ma(1) ab reg have "m' = ?x\<lparr>m_a_devices := [?d, ?d, ?d, ?d]\<rparr>"
    unfolding ma(2) dev_def
    by (simp add: scull_init_module_def get_region_def scull_p_init_def scull_access_init_def Let_def n del: upt_rec_numeral)
  moreover have "m_c_list m = []" using fresh by (simp add: fresh_module_def)
  moreover have "d = ?d" if "dev_at (?x\<lparr>m_a_devices := [?d, ?d, ?d, ?d]\<rparr>) r = Some d" for r d
    using that \<open>m_c_list m = []\<close> by (cases r) (auto simp: dev_at.simps priv_dev_def nth_Cons' split: if_splits)
  ultimately show ?thesis by (auto simp: pipe_at_def split: if_splits)
qed

lemma loaded_inv:
  assumes "fresh_module m" "granted e m" "scull_init_module e m = Done (m', r, t)" and "K \<longrightarrow> geometry_ok (m_params m)"
  shows "drv_inv K (loaded m')" and "drv_abs (\<lambda>_. Map.empty, \<lambda>_. []) m'"
proof -
  note i = init_devices [OF assms(1-3)]
  have wf: "K \<longrightarrow> scull_wf (zero_dev\<lparr>sd_quantum := scull_quantum (m_params m), sd_qset := scull_qset_p (m_params m)\<rparr>)"
    using assms(4) by (simp add: scull_wf_def zero_dev_def geometry_ok_def)
  have "devs_ok K m'" using i wf by (fastforce simp: devs_ok_def zero_dev_def)
  moreover have "pipe_counted K (\<lambda>_. None) j zero_pipe" for j
    by (simp add: pipe_counted_def pipe_inv_def zero_pipe_def num_files_def)
  then have "pipes_ok K m' (\<lambda>_. None)" using i unfolding pipes_ok_def by blast
  ultimately show "drv_inv K (loaded m')"
    by (simp add: drv_inv_def loaded_def files_ok_def users_ok_def num_files_def)
  have "pipe_contents zero_pipe = []" by (simp add: pipe_contents_closed zero_pipe_def)
  then show "drv_abs (\<lambda>_. Map.empty, \<lambda>_. []) m'"
    using i by (fastforce simp: drv_abs_def holds_map_def split: option.splits)
qed

lemma loaded_run:
  assumes "fresh_module m" "granted e m" "scull_init_module e m = Done (m', r, t)" "drv_run (loaded m') es s"
    and "K \<longrightarrow> geometry_ok (m_params m) \<and> in_limits es"
  shows "drv_inv K s" and "in_use m' (dr_mod s)"
    and "K \<longrightarrow> (\<exists>\<sigma>. drv_spec_run (map snd es) (\<lambda>_. Map.empty, \<lambda>_. []) = Some \<sigma> \<and> drv_abs \<sigma> (dr_mod s))"
proof -
  note l = loaded_inv [OF assms(1-3), of K]
  have "drv_abs (\<lambda>_. Map.empty, \<lambda>_. []) (dr_mod (loaded m'))" using l(2) assms(5) by (simp add: loaded_def)
  with drv_run_sound [OF assms(4) l(1), of "(\<lambda>_. Map.empty, \<lambda>_. [])"] assms(5)
  show "drv_inv K s" "in_use m' (dr_mod s)"
    "K \<longrightarrow> (\<exists>\<sigma>. drv_spec_run (map snd es) (\<lambda>_. Map.empty, \<lambda>_. []) = Some \<sigma> \<and> drv_abs \<sigma> (dr_mod s))"
    by (simp_all add: loaded_def)
qed

section \<open>What is true of the driver in use\<close>

text \<open>
  C1. The driver as a whole refines its specification. It is loaded with a quantum and a quantum set in
  range, and processes open, read, write, seek, control and close its devices, one call at a time and
  in any order; within the limits, that is, reads and writes of a device are made at positions in range, the
  parameters are in range (whatever ioctls have set in between) when an open empties a device or creates one,
  and an open of a pipe finds a buffer size in range and no smaller buffer. Then a byte that a read delivers
  from a position of a device that was written since the device was last emptied is the last one written
  there; the bytes that a read delivers from a pipe are the oldest ones not yet delivered since the pipe was
  last emptied by an open or by its last close; and no call on one device changes what another one holds.
  A byte from a position that was not written is not specified: the driver hands out what the allocator left
  there. What happens beyond the limits is shown by \<open>scull_ioctl_fault_oops\<close> and \<open>scull_p_open_grows\<close>, and
  inside a call by \<open>scull_write_stale_geometry\<close>.
\<close>

theorem scull_driver_refines:
  assumes "fresh_module m" and "geometry_ok (m_params m)" and "granted e m"
    and "scull_init_module e m = Done (m', r, t)" and "drv_run (loaded m') es s" and "in_limits es"
  shows "\<exists>\<sigma>. drv_spec_run (map snd es) (\<lambda>_. Map.empty, \<lambda>_. []) = Some \<sigma> \<and> drv_abs \<sigma> (dr_mod s)"
  using loaded_run(3) [OF assms(1,3,4,5), of True] assms(2,6) by simp

text \<open>
  C2. The driver is type safe. After any calls whatever, within the limits or not, the untyped
  \<open>private_data\<close> of an open file leads to an existing structure of the type that the methods of the file's
  table cast it to, and seeking, asking for notification and closing return without a fault. As long
  as all calls were made within the limits (positions in range at reads and writes, parameters and buffer size
  in range at opens), reading and writing the file, in the mode that it was opened with and at a
  position in range, polling it, and opening any device return without a fault, too.
\<close>

theorem scull_driver_type_safe:
  assumes "fresh_module m" and "granted e m" and "scull_init_module e m = Done (m', r, t)"
    and "drv_run (loaded m') es s" and "dr_files s fd = Some f"
  shows "well_typed (dr_mod s) f \<and>
    (\<forall>llseek. fo_llseek (f_op f) = Some llseek \<longrightarrow> is_done (llseek s f off whence)) \<and>
    (\<forall>fasync. fo_fasync (f_op f) = Some fasync \<longrightarrow> is_done (fasync ke s i fd f on)) \<and>
    is_done (fo_release (f_op f) ke s fd f) \<and>
    (geometry_ok (m_params m) \<and> in_limits es \<longrightarrow>
      (\<forall>poll. fo_poll (f_op f) = Some poll \<longrightarrow> fm_read (f_mode f) \<or> fm_write (f_mode f) \<longrightarrow> is_done (poll s f)) \<and>
      (\<forall>c flags. cdev_present (dr_mod s) c \<longrightarrow> is_done (fo_open (fops_of c) ke s (new_file ke c flags))) \<and>
      (pos_fits s f \<and> 0 \<le> n \<and> n < 2 ^ 63 \<and> fm_read (f_mode f) \<longrightarrow> is_done (fo_read (f_op f) ke s f n)) \<and>
      (pos_fits s f \<and> kmalloc_sized (k_km ke) \<and> fm_write (f_mode f) \<longrightarrow> is_done (fo_write (f_op f) ke s f buf)))"
proof -
  have inv: "drv_inv False s" using loaded_run(1) [OF assms(1-4)] by simp
  note ty = file_typed [OF inv assms(5)]
  have "is_done (fo_release (f_op f) ke s fd f)"
    by (rule drv_any_release [OF inv assms(5), of ke]) simp
  moreover have "(\<forall>llseek. fo_llseek (f_op f) = Some llseek \<longrightarrow> is_done (llseek s f off whence)) \<and>
    (\<forall>fasync. fo_fasync (f_op f) = Some fasync \<longrightarrow> is_done (fasync ke s i fd f on))"
    by (rule drv_seek_fasync_done [OF inv assms(5)])
  moreover have "(\<forall>poll. fo_poll (f_op f) = Some poll \<longrightarrow> fm_read (f_mode f) \<or> fm_write (f_mode f) \<longrightarrow> is_done (poll s f)) \<and>
      (\<forall>c flags. cdev_present (dr_mod s) c \<longrightarrow> is_done (fo_open (fops_of c) ke s (new_file ke c flags))) \<and>
      (pos_fits s f \<and> 0 \<le> n \<and> n < 2 ^ 63 \<and> fm_read (f_mode f) \<longrightarrow> is_done (fo_read (f_op f) ke s f n)) \<and>
      (pos_fits s f \<and> kmalloc_sized (k_km ke) \<and> fm_write (f_mode f) \<longrightarrow> is_done (fo_write (f_op f) ke s f buf))"
    if "geometry_ok (m_params m) \<and> in_limits es"
  proof -
    have inv: "drv_inv True s" using loaded_run(1) [OF assms(1-4), of True] that by simp
    show ?thesis
      using drv_poll_done [OF inv assms(5)] drv_any_open_done [OF inv] drv_any_read_done [OF inv assms(5)]
        drv_any_write_done [OF inv assms(5)] by simp
  qed
  ultimately show ?thesis using ty by blast
qed


lemma drv_inv_devices_wf:
  assumes "drv_inv True s"
  shows "devices_wf (dr_mod s)"
proof -
  note ok = dev_sound [OF assms]
  have "scull_wf d" if "m_devices (dr_mod s) = Some (a, ds)" "d \<in> set ds" for a ds d
  proof -
    from that(2) obtain k where "k < length ds" "d = ds ! k" by (auto simp: in_set_conv_nth)
    then show ?thesis using ok [of "MainDev k" d] that(1) by (simp add: dev_at.simps)
  qed
  moreover have "scull_wf d" if "d \<in> set (m_a_devices (dr_mod s))" for d
  proof -
    from that obtain k where "k < length (m_a_devices (dr_mod s))" "d = m_a_devices (dr_mod s) ! k" by (auto simp: in_set_conv_nth)
    then show ?thesis using ok [of "AccessDev k" d] by (simp add: dev_at.simps)
  qed
  moreover have "scull_wf (li_device l)" if "l \<in> set (m_c_list (dr_mod s))" for l
  proof -
    have "find_key (li_key l) (m_c_list (dr_mod s)) \<noteq> None" using that by (auto simp: find_key_None)
    then obtain i where i: "find_key (li_key l) (m_c_list (dr_mod s)) = Some i" by auto
    have "distinct (map li_key (m_c_list (dr_mod s)))" using assms by (simp add: drv_inv_def devs_ok_def)
    then have "m_c_list (dr_mod s) ! i = l"
      using find_key_Some [OF i] that by (metis distinct_map inj_onD nth_mem)
    then show ?thesis using ok [of "PrivDev (li_key l)"] i by (simp add: dev_at.simps priv_dev_def)
  qed
  ultimately show ?thesis by (auto simp: devices_wf_def)
qed

text \<open>
  C3. The life of the driver. The regions of device numbers and the two arrays are granted, and the
  parameters are in range. Loading registers three regions of device numbers and calls \<open>cdev_add\<close> for every device.
  Whatever the users of the devices do in between, one call at a time and within the limits (positions in
  range at reads and writes, parameters and buffer size in range at opens), unloading meets no fault, deletes
  exactly the devices that loading has tried to add, gives back exactly the registered regions, in the
  same order, and frees every block that any device, pipe or terminal holds at that time. If every
  \<open>cdev_add\<close> succeeded, the deleted devices are the added ones; otherwise the driver also deletes those
  that could not be added.
\<close>

theorem scull_driver_life:
  assumes "fresh_module m" and "geometry_ok (m_params m)" and "granted e m"
    and "scull_init_module e m = Done (m1, r, t)" and "drv_run (loaded m1) es s" and "in_limits es"
  shows "r = Inr () \<and> (\<exists>m2 t'. scull_cleanup_module (dr_mod s) = Done (m2, t') \<and>
    select sel_unreg t' = select sel_reg t \<and> select sel_del t' = map fst (select sel_tried t) \<and>
    ((\<forall>n. cdev_result e n = None) \<longrightarrow> select sel_del t' = map fst (select sel_add t)) \<and>
    select sel_free t' = module_blocks (dr_mod s))"
proof -
  have inv: "drv_inv True s" and use: "in_use m1 (dr_mod s)"
    using loaded_run [OF assms(1,3,4,5), of True] assms(2,6) by simp_all
  from init_major [OF assms(3)] obtain ma where ma: "ma \<noteq> 0" "scull_init_module e m = scull_init_module e (m\<lparr>m_major := ma\<rparr>)" .
  from assms(3) obtain a b where "main_array e = Some a" "pipe_array e = Some b" "\<forall>f n. region_result e f n = None"
    by (auto simp: granted_def)
  moreover have "fresh_module (m\<lparr>m_major := ma\<rparr>)" using assms(1) by (simp add: fresh_module_def)
  ultimately show ?thesis
    using module_balanced [of "m\<lparr>m_major := ma\<rparr>" e a b m1 r t "dr_mod s"] ma assms(4) use drv_inv_devices_wf [OF inv] by simp metis
qed

section \<open>Witnesses\<close>

text \<open>
  A module with quanta of four bytes is loaded; a process opens \<^verbatim>\<open>scull0\<close> for writing and writes two bytes.
\<close>

definition life_ex :: scull_module where
  "life_ex = module_ex\<lparr>m_params := \<lparr>scull_quantum = 4, scull_qset_p = 2, scull_p_buffer = 16\<rparr>\<rparr>"

definition kenv_ex :: kenv where
  "kenv_ex = \<lparr>k_km = km_ex, k_intr = False, k_left = 0,
     k_ioctl = \<lparr>capable = False, access_ok = True, user_int = None, put_ok = True\<rparr>, k_cred = alice,
     k_tty = Some 4, k_item = 200, k_fasync = (\<lambda>fd filp on q. (q, Inr 0))\<rparr>"

lemma life_ex_ok: "fresh_module life_ex" "geometry_ok (m_params life_ex)" "granted env_ex life_ex"
  by (simp_all add: life_ex_def module_ex_def env_ex_def fresh_module_def geometry_ok_def granted_def)

abbreviation quad_dev :: scull_dev where
  "quad_dev \<equiv> \<lparr>sd_data = [], sd_quantum = 4, sd_qset = 2, sd_size = 0, sd_access_key = 0, sd_lock = False\<rparr>"

lemma life_ex_loaded:
  "\<exists>m' t. scull_init_module env_ex life_ex = Done (m', Inr (), t) \<and> dev_at m' (MainDev 0) = Some quad_dev"
  by (simp add: life_ex_def module_ex_def env_ex_def scull_init_module_def get_region_def scull_p_init_def scull_access_init_def
      scull_access_setup_def Let_def SCULL_N_ADEVS_def scull_setup_cdev_def scull_p_setup_cdev_def cdev_add_def dev_at.simps
      zero_dev_def numeral_eq_Suc)

definition life_file :: struct_file where
  "life_file = \<lparr>f_cdev = MainCdev 0, private_data = Some (MainDev 0), f_flags = O_WRONLY, f_pos = 0, f_cred = alice\<rparr>"

abbreviation life_events :: "(bool \<times> drv_event) list" where
  "life_events \<equiv> [(True, OnDev (MainDev 0) Truncated), (True, OnDev (MainDev 0) (Wrote 0 [5, 6]))]"

lemma life_ex_used:
  obtains m' t s where "scull_init_module env_ex life_ex = Done (m', Inr (), t)"
    "drv_run (loaded m') life_events s"
    "dr_files s 3 = Some (life_file\<lparr>f_pos := 2\<rparr>)" "pos_fits s (life_file\<lparr>f_pos := 2\<rparr>)"
proof -
  from life_ex_loaded obtain m' t where i: "scull_init_module env_ex life_ex = Done (m', Inr (), t)"
    and d: "dev_at m' (MainDev 0) = Some quad_dev" by auto
  let ?s0 = "loaded m'" and ?g = "m_params m'"
  have g: "?g = \<lparr>scull_quantum = 4, scull_qset_p = 2, scull_p_buffer = 16\<rparr>"
    using init_devices [OF life_ex_ok(1,3) i] by (simp add: life_ex_def)
  have km: "kmalloc_sized (k_km kenv_ex)" by (simp add: kenv_ex_def)
  let ?s1 = "set_file (put_dev ?s0 (MainDev 0) quad_dev) 3 (Some life_file)"
  have o: "drv_open kenv_ex ?s0 (new_file kenv_ex (MainCdev 0) O_WRONLY) =
      Done (put_dev ?s0 (MainDev 0) quad_dev, life_file, Returns (Inr 0) NoData)"
    using d g by (simp add: drv_open_def dev_of_def loaded_def kenv_ex_def scull_open_def O_WRONLY_def O_ACCMODE_def
      scull_trim_def unlock_dev_def zero_ret_def new_file_def life_file_def)
  have "open_in_range ?s0 (MainCdev 0) O_WRONLY" by (simp add: open_in_range_def pipe_fits_def loaded_def g geometry_ok_def)
  then have s1: "drv_step ?s0 (True, OnDev (MainDev 0) Truncated) ?s1"
    using drv_opened [of ?s0 3 "MainCdev 0" kenv_ex O_WRONLY "put_dev ?s0 (MainDev 0) quad_dev" life_file 0 NoData] o km d
    by (simp add: loaded_def open_event_def life_file_def fops_defs O_WRONLY_def O_ACCMODE_def)
  define d1 where "d1 = \<lparr>sd_data = [\<lparr>qs_addr = 100, qs_data = Some (101, [Some (102, [5, 6, 7, 7]), None])\<rparr>],
     sd_quantum = 4, sd_qset = 2, sd_size = 2, sd_access_key = 0, sd_lock = False\<rparr>"
  have w: "scull_write km_ex False 0 quad_dev [5, 6] 0 = Done (d1, 2, Inr 2)"
    by (simp add: d1_def scull_write_def scull_write_locked_def scull_locate_def scull_follow_def write_array_def
      arr_get_def write_quantum_def write_copy_def km_ex_def width_simps mem_write_def Let_def new_qset_def
      set_quantum_def unlock_dev_def numeral_2_eq_2 numeral_eq_Suc)
  have d1: "dev_at (dr_mod ?s1) (MainDev 0) = Some quad_dev" using d by (simp add: loaded_def devs.get_put)
  let ?s2 = "put_dev ?s1 (MainDev 0) d1"
  have wr: "drv_write kenv_ex ?s1 life_file [5, 6] = Done (?s2, life_file\<lparr>f_pos := 2\<rparr>, Returns (Inr 2) NoData)"
    using filp_dev_typed [of life_file "MainDev 0" ?s1, OF _ d1] w
    by (simp add: drv_write_def life_file_def kenv_ex_def del: set_file_fields)
  have p: "pos_fits ?s1 life_file" "pos_fits ?s2 (life_file\<lparr>f_pos := 2\<rparr>)"
    using d1 by (simp_all add: pos_fits_def life_file_def pos_ok_def devs.get_put d1_def)
  have s2: "drv_step ?s1 (True, OnDev (MainDev 0) (Wrote 0 [5, 6])) (set_file ?s2 3 (Some (life_file\<lparr>f_pos := 2\<rparr>)))"
    using drv_wrote [of ?s1 3 life_file kenv_ex "[5, 6]" ?s2 "life_file\<lparr>f_pos := 2\<rparr>" "Inr 2" NoData] wr km d1 p
    by (simp add: life_file_def fops_defs wrote_event_def write_event_def f_mode_def O_WRONLY_def
      numeral_2_eq_2)
  have run: "drv_run ?s0 life_events
      (set_file ?s2 3 (Some (life_file\<lparr>f_pos := 2\<rparr>)))"
    using drun_snoc [OF drun_snoc [OF drun_nil s1] s2] by simp
  then show thesis using p(2) by (intro that [OF i run]) (simp_all add: pos_fits_def)
qed

theorem scull_driver_refines_witness:
  "\<exists>m' t s \<sigma>. scull_init_module env_ex life_ex = Done (m', Inr (), t) \<and>
     drv_run (loaded m') life_events s \<and>
     drv_abs \<sigma> (dr_mod s) \<and> fst \<sigma> (MainDev 0) 1 = Some 6 \<and> fst \<sigma> (MainDev 1) 1 = None"
proof (rule life_ex_used)
  fix m' t s
  assume a: "scull_init_module env_ex life_ex = Done (m', Inr (), t)"
    "drv_run (loaded m') life_events s"
  from scull_driver_refines [OF life_ex_ok a] obtain \<sigma> where
    \<sigma>: "drv_spec_run (map snd life_events) (\<lambda>_. Map.empty, \<lambda>_. []) = Some \<sigma>" "drv_abs \<sigma> (dr_mod s)" by auto
  then have "fst \<sigma> (MainDev 0) 1 = Some 6" "fst \<sigma> (MainDev 1) 1 = None" by auto
  with a \<sigma>(2) show ?thesis by blast
qed

theorem scull_driver_type_safe_witness:
  "\<exists>m' t s f. scull_init_module env_ex life_ex = Done (m', Inr (), t) \<and> drv_run (loaded m') life_events s \<and>
     dr_files s 3 = Some f \<and> well_typed (dr_mod s) f \<and> fm_write (f_mode f) \<and> is_done (fo_write (f_op f) kenv_ex s f [9])"
proof (rule life_ex_used)
  fix m' t s
  assume a: "scull_init_module env_ex life_ex = Done (m', Inr (), t)" "drv_run (loaded m') life_events s"
    "dr_files s 3 = Some (life_file\<lparr>f_pos := 2\<rparr>)" "pos_fits s (life_file\<lparr>f_pos := 2\<rparr>)"
  have "fm_write (f_mode (life_file\<lparr>f_pos := 2\<rparr>))" by (simp add: life_file_def f_mode_def O_WRONLY_def)
  moreover have "kmalloc_sized (k_km kenv_ex)" by (simp add: kenv_ex_def)
  ultimately show ?thesis
    using scull_driver_type_safe [OF life_ex_ok(1,3) a(1,2,3), of 0 0 kenv_ex 0 0 1 "[9]"] a life_ex_ok(2) by auto
qed


theorem scull_driver_life_witness:
  "\<exists>m' t s m2 t'. scull_init_module env_ex life_ex = Done (m', Inr (), t) \<and>
     drv_run (loaded m') life_events s \<and>
     scull_cleanup_module (dr_mod s) = Done (m2, t') \<and> select sel_unreg t' = select sel_reg t"
proof (rule life_ex_used)
  fix m' t s
  assume a: "scull_init_module env_ex life_ex = Done (m', Inr (), t)"
    "drv_run (loaded m') life_events s"
  from scull_driver_life [OF life_ex_ok a] a show ?thesis by auto
qed

end
