(* ===== verification/Scullp.thy ===== *)
theory Scullp
  imports Scull_Module
begin

text \<open>
  The page-based sibling of scull (\<^verbatim>\<open>ldd/scullp/main.c\<close>, \<^verbatim>\<open>ldd/scullp/mmap.c\<close>,
  \<^verbatim>\<open>ldd/scull-shared/scull-async.c\<close>). Its operations are modelled from their own source; for a device of
  order 0 they are then shown to be those of a scull device with quanta of one page, so that the contract
  \<open>byte_store\<close> carries over. A fault in a mapping is shown to find the page that \<open>read\<close> reads.
\<close>

section \<open>Data\<close>

text \<open>
  The chain of list items through \<open>next\<close>. Every item is a whole \<open>struct scullp_dev\<close>, but of the items
  behind the first only \<open>data\<close> and \<open>order\<close> are used; the first item is the device itself, which also
  holds the other fields.
\<close>

record scullp_item =
  pi_addr :: addr
  pi_data :: "byte list owned list owned"
  pi_order :: int

record scullp_dev =
  pd_items :: "scullp_item list"
  pd_vmas :: int
  pd_qset :: int
  pd_size :: int
  pd_mutex :: bool

record scullp_params =
  scullp_qset :: int
  scullp_order :: int

definition SCULLP_ORDER :: int where "SCULLP_ORDER = 0"
definition SCULLP_QSET :: int where "SCULLP_QSET = 500"

text \<open>
  \<open>PAGE_SIZE << order\<close>; the machine takes the shift count modulo 64. \<open>quantum_of\<close> is the value stored in
  an \<open>int\<close>.
\<close>

definition page_shl :: "int \<Rightarrow> int" where
  "page_shl order = u64 (push_bit (nat (order mod 64)) PAGE_SIZE)"

definition quantum_of :: "int \<Rightarrow> int" where
  "quantum_of order = s32 (page_shl order)"

definition pd_order :: "scullp_dev \<Rightarrow> int" where
  "pd_order p = pi_order (hd (pd_items p))"

definition p_up :: "scullp_dev \<Rightarrow> scullp_dev" where
  "p_up p = p\<lparr>pd_mutex := False\<rparr>"

text \<open>
  Everything scullp allocates is cleared at once. So the allocator is a parameter that only gives the
  address of the \<open>k\<close>-th block that an operation asks for, or \<open>NULL\<close>.
\<close>

type_synonym page_alloc = "nat \<Rightarrow> addr option"

section \<open>Trim and open\<close>

text \<open>The addresses that are freed: the pages of an item, its array, and the item unless it is the first.\<close>

fun scullp_trim_items :: "int \<Rightarrow> bool \<Rightarrow> scullp_item list \<Rightarrow> addr list exec" where
  "scullp_trim_items qset first [] = Done []"
| "scullp_trim_items qset first (i # is) =
     kbind (case pi_data i of
              None \<Rightarrow> Done []
            | Some (a, arr) \<Rightarrow> kbind (free_quanta qset arr) (\<lambda>fs. Done (fs @ [a])))
       (\<lambda>fs. kbind (scullp_trim_items qset False is) (\<lambda>rest.
          Done (fs @ (if first then [] else [pi_addr i]) @ rest)))"

definition scullp_trim :: "scullp_params \<Rightarrow> scullp_dev \<Rightarrow> (scullp_dev \<times> unit ret \<times> addr list) exec" where
  "scullp_trim g p =
     (if pd_vmas p \<noteq> 0 then Done (p, Inl EBUSY, [])
      else kbind (scullp_trim_items (pd_qset p) True (pd_items p)) (\<lambda>freed.
        Done (p\<lparr>pd_items := [\<lparr>pi_addr = pi_addr (hd (pd_items p)), pi_data = None, pi_order = scullp_order g\<rparr>],
                pd_size := 0, pd_qset := scullp_qset g\<rparr>, Inr (), freed)))"

definition scullp_open :: "scullp_params \<Rightarrow> bool \<Rightarrow> scullp_dev \<Rightarrow> int \<Rightarrow> (scullp_dev \<times> unit ret \<times> addr list) exec" where
  "scullp_open g intr p f_flags =
     (if f_flags AND O_ACCMODE = O_WRONLY
      then if intr then Done (p, Inl ERESTARTSYS, [])
           else kbind (scullp_trim g (p\<lparr>pd_mutex := True\<rparr>)) (\<lambda>(p, r, freed). Done (p_up p, Inr (), freed))
      else Done (p, Inr (), []))"

definition scullp_release :: "scullp_dev \<Rightarrow> scullp_dev \<times> unit ret" where
  "scullp_release p = (p, Inr ())"

section \<open>Read and write\<close>

text \<open>\<open>scullp_follow\<close> from the head of the list; a block that is not there is cleared all the same.\<close>

fun scullp_follow_items :: "page_alloc \<Rightarrow> nat \<Rightarrow> scullp_item list \<Rightarrow> nat \<Rightarrow> (scullp_item list \<times> nat) exec" where
  "scullp_follow_items al k items 0 = Done (items, k)"
| "scullp_follow_items al k [] (Suc n) = Oops NullDeref"
| "scullp_follow_items al k [i] (Suc n) =
     (case al k of
        None \<Rightarrow> Oops NullDeref
      | Some a \<Rightarrow>
          kbind (scullp_follow_items al (Suc k) [\<lparr>pi_addr = a, pi_data = None, pi_order = 0\<rparr>] n)
            (\<lambda>(r, k'). Done (i # r, k')))"
| "scullp_follow_items al k (i # i' # is) (Suc n) =
     kbind (scullp_follow_items al k (i' # is) n) (\<lambda>(r, k'). Done (i # r, k'))"

definition scullp_follow :: "page_alloc \<Rightarrow> scullp_dev \<Rightarrow> int \<Rightarrow> (scullp_dev \<times> nat \<times> nat) exec" where
  "scullp_follow al p n =
     (let steps = nat (u32 n) in
      kbind (scullp_follow_items al 0 (pd_items p) steps) (\<lambda>(items, k).
        Done (p\<lparr>pd_items := items\<rparr>, k, steps)))"

definition scullp_read_copy ::
  "nat \<Rightarrow> int \<Rightarrow> int \<Rightarrow> int \<Rightarrow> scullp_dev \<Rightarrow> int \<Rightarrow> byte list \<Rightarrow> (scullp_dev \<times> int \<times> int ret \<times> byte list) exec"
where
  "scullp_read_copy left quantum count f_pos p q_pos mem =
     (let room = u64 (s32 (quantum - q_pos));
          count = (if count > room then room else count) in
      kbind (mem_read mem q_pos count) (\<lambda>bs.
        case copy_to_user left bs of
          (uncopied, out) \<Rightarrow>
            if uncopied \<noteq> 0 then Done (p_up p, f_pos, Inl EFAULT, out)
            else Done (p_up p, s64 (f_pos + count), Inr count, out)))"

definition scullp_read ::
  "page_alloc \<Rightarrow> bool \<Rightarrow> nat \<Rightarrow> scullp_dev \<Rightarrow> int \<Rightarrow> int \<Rightarrow> (scullp_dev \<times> int \<times> int ret \<times> byte list) exec"
where
  "scullp_read al intr left p count f_pos =
     (let quantum = quantum_of (pd_order p); qset = pd_qset p in
      if intr then Done (p, f_pos, Inl ERESTARTSYS, [])
      else let p = p\<lparr>pd_mutex := True\<rparr> in
      if u64 f_pos > pd_size p then Done (p_up p, f_pos, Inr 0, [])
      else let count = (if u64 (f_pos + count) > pd_size p then u64 (pd_size p - f_pos) else count) in
      kbind (scull_locate quantum qset f_pos) (\<lambda>(item, s_pos, q_pos).
      kbind (scullp_follow al p item) (\<lambda>(p, k, n).
        case pi_data (pd_items p ! n) of
          None \<Rightarrow> Done (p_up p, f_pos, Inr 0, [])
        | Some (_, arr) \<Rightarrow>
            kbind (arr_get arr s_pos) (\<lambda>pg.
              case pg of
                None \<Rightarrow> Done (p_up p, f_pos, Inr 0, [])
              | Some (_, mem) \<Rightarrow> scullp_read_copy left quantum count f_pos p q_pos mem))))"

definition set_item :: "scullp_dev \<Rightarrow> nat \<Rightarrow> byte list owned list owned \<Rightarrow> scullp_dev" where
  "set_item p n d = p\<lparr>pd_items := (pd_items p)[n := (pd_items p ! n)\<lparr>pi_data := d\<rparr>]\<rparr>"

text \<open>The three stages of \<open>scullp_write\<close>: the array of the item, the page, the copy.\<close>

definition scullp_write_array ::
  "page_alloc \<Rightarrow> nat \<Rightarrow> int \<Rightarrow> scullp_dev \<Rightarrow> nat \<Rightarrow> (scullp_dev \<times> nat \<times> addr \<times> byte list owned list) option"
where
  "scullp_write_array al k qset p n =
     (case pi_data (pd_items p ! n) of
        Some (a, arr) \<Rightarrow> Some (p, k, a, arr)
      | None \<Rightarrow>
          (case al k of
             None \<Rightarrow> None
           | Some a \<Rightarrow> let arr = replicate (nat qset) None in Some (set_item p n (Some (a, arr)), Suc k, a, arr)))"

definition scullp_write_page :: "page_alloc \<Rightarrow> nat \<Rightarrow> int \<Rightarrow> byte list owned \<Rightarrow> byte list owned" where
  "scullp_write_page al k order pg =
     (case pg of
        Some bm \<Rightarrow> Some bm
      | None \<Rightarrow> map_option (\<lambda>b. (b, replicate (nat (page_shl order)) 0)) (al k))"

definition scullp_write_copy ::
  "nat \<Rightarrow> int \<Rightarrow> byte list \<Rightarrow> int \<Rightarrow> scullp_dev \<Rightarrow> nat \<Rightarrow> addr \<Rightarrow> byte list owned list \<Rightarrow> int \<Rightarrow> int \<Rightarrow>
     addr \<Rightarrow> byte list \<Rightarrow> (scullp_dev \<times> int \<times> int ret) exec"
where
  "scullp_write_copy left quantum buf f_pos p n a arr s_pos q_pos b mem =
     (let count = int (length buf);
          room = u64 (s32 (quantum - q_pos));
          count = (if count > room then room else count) in
      case copy_from_user left (take (nat count) buf) of
        (uncopied, bs) \<Rightarrow>
          kbind (mem_write mem q_pos bs) (\<lambda>mem.
            let p = set_item p n (Some (a, arr[nat s_pos := Some (b, mem)])) in
            if uncopied \<noteq> 0 then Done (p_up p, f_pos, Inl EFAULT)
            else let f_pos = s64 (f_pos + count) in
            Done (p_up (if pd_size p < u64 f_pos then p\<lparr>pd_size := u64 f_pos\<rparr> else p),
                  f_pos, Inr count)))"

definition scullp_write ::
  "page_alloc \<Rightarrow> bool \<Rightarrow> nat \<Rightarrow> scullp_dev \<Rightarrow> byte list \<Rightarrow> int \<Rightarrow> (scullp_dev \<times> int \<times> int ret) exec"
where
  "scullp_write al intr left p buf f_pos =
     (let quantum = quantum_of (pd_order p); qset = pd_qset p in
      if intr then Done (p, f_pos, Inl ERESTARTSYS)
      else let p = p\<lparr>pd_mutex := True\<rparr> in
      kbind (scull_locate quantum qset f_pos) (\<lambda>(item, s_pos, q_pos).
      kbind (scullp_follow al p item) (\<lambda>(p, k, n).
        case scullp_write_array al k qset p n of
          None \<Rightarrow> Done (p_up p, f_pos, Inl ENOMEM)
        | Some (p, k, a, arr) \<Rightarrow>
            kbind (arr_get arr s_pos) (\<lambda>pg.
              case scullp_write_page al k (pi_order (pd_items p ! n)) pg of
                None \<Rightarrow> Done (p_up p, f_pos, Inl ENOMEM)
              | Some (b, mem) \<Rightarrow>
                  scullp_write_copy left quantum buf f_pos p n a arr s_pos q_pos b mem))))"

definition scullp_llseek :: "scullp_dev \<Rightarrow> int \<Rightarrow> int \<Rightarrow> int \<Rightarrow> int \<times> int ret" where
  "scullp_llseek p f_pos off whence =
     (let finish = (\<lambda>newpos. if newpos < 0 then (f_pos, Inl EINVAL) else (newpos, Inr newpos)) in
      if whence = 0 then finish off
      else if whence = 1 then finish (s64 (f_pos + off))
      else if whence = 2 then finish (s64 (u64 (pd_size p + off)))
      else (f_pos, Inl EINVAL))"

section \<open>The ioctl method\<close>

definition SCULLP_IOC_MAGIC :: char where "SCULLP_IOC_MAGIC = CHR ''K''"
definition SCULLP_IOC_MAXNR :: int where "SCULLP_IOC_MAXNR = 12"
definition SCULLP_IOCRESET :: ioc where "SCULLP_IOCRESET = IO SCULLP_IOC_MAGIC 0"
definition SCULLP_IOCSORDER :: ioc where "SCULLP_IOCSORDER = IOW SCULLP_IOC_MAGIC 1 4"
definition SCULLP_IOCTORDER :: ioc where "SCULLP_IOCTORDER = IO SCULLP_IOC_MAGIC 2"
definition SCULLP_IOCGORDER :: ioc where "SCULLP_IOCGORDER = IOR SCULLP_IOC_MAGIC 3 4"
definition SCULLP_IOCQORDER :: ioc where "SCULLP_IOCQORDER = IO SCULLP_IOC_MAGIC 4"
definition SCULLP_IOCXORDER :: ioc where "SCULLP_IOCXORDER = IOWR SCULLP_IOC_MAGIC 5 4"
definition SCULLP_IOCHORDER :: ioc where "SCULLP_IOCHORDER = IO SCULLP_IOC_MAGIC 6"
definition SCULLP_IOCSQSET :: ioc where "SCULLP_IOCSQSET = IOW SCULLP_IOC_MAGIC 7 4"
definition SCULLP_IOCTQSET :: ioc where "SCULLP_IOCTQSET = IO SCULLP_IOC_MAGIC 8"
definition SCULLP_IOCGQSET :: ioc where "SCULLP_IOCGQSET = IOR SCULLP_IOC_MAGIC 9 4"
definition SCULLP_IOCQQSET :: ioc where "SCULLP_IOCQQSET = IO SCULLP_IOC_MAGIC 10"
definition SCULLP_IOCXQSET :: ioc where "SCULLP_IOCXQSET = IOWR SCULLP_IOC_MAGIC 11 4"
definition SCULLP_IOCHQSET :: ioc where "SCULLP_IOCHQSET = IO SCULLP_IOC_MAGIC 12"

lemmas scullp_ioc_defs = ioc_defs SCULLP_IOC_MAGIC_def SCULLP_IOC_MAXNR_def SCULLP_IOCRESET_def
  SCULLP_IOCSORDER_def SCULLP_IOCTORDER_def SCULLP_IOCGORDER_def SCULLP_IOCQORDER_def SCULLP_IOCXORDER_def
  SCULLP_IOCHORDER_def SCULLP_IOCSQSET_def SCULLP_IOCTQSET_def SCULLP_IOCGQSET_def SCULLP_IOCQQSET_def
  SCULLP_IOCXQSET_def SCULLP_IOCHQSET_def

text \<open>Unlike \<open>scull_ioctl\<close> it asks for no capability.\<close>

definition scullp_ioctl :: "ioctl_env \<Rightarrow> scullp_params \<Rightarrow> ioc \<Rightarrow> int \<Rightarrow> scullp_params \<times> int ret \<times> int option" where
  "scullp_ioctl e g cmd arg =
     (if ioc_type cmd \<noteq> SCULLP_IOC_MAGIC then (g, Inl ENOTTY, None)
      else if ioc_nr cmd > SCULLP_IOC_MAXNR then (g, Inl ENOTTY, None)
      else if (ioc_read cmd \<or> ioc_write cmd) \<and> \<not> access_ok e then (g, Inl EFAULT, None)
      else if cmd = SCULLP_IOCRESET
        then (g\<lparr>scullp_qset := SCULLP_QSET, scullp_order := SCULLP_ORDER\<rparr>, Inr 0, None)
      else if cmd = SCULLP_IOCSORDER
        then (case get_user e of (v, r) \<Rightarrow> (g\<lparr>scullp_order := v\<rparr>, r, None))
      else if cmd = SCULLP_IOCTORDER then (g\<lparr>scullp_order := s32 arg\<rparr>, Inr 0, None)
      else if cmd = SCULLP_IOCGORDER
        then (case put_user e (scullp_order g) of (r, w) \<Rightarrow> (g, r, w))
      else if cmd = SCULLP_IOCQORDER then (g, Inr (scullp_order g), None)
      else if cmd = SCULLP_IOCXORDER
        then let tmp = scullp_order g in
          (case get_user e of
             (v, Inl x) \<Rightarrow> (g\<lparr>scullp_order := v\<rparr>, Inl x, None)
           | (v, Inr _) \<Rightarrow> (case put_user e tmp of (r, w) \<Rightarrow> (g\<lparr>scullp_order := v\<rparr>, r, w)))
      else if cmd = SCULLP_IOCHORDER
        then let tmp = scullp_order g in (g\<lparr>scullp_order := s32 arg\<rparr>, Inr tmp, None)
      else if cmd = SCULLP_IOCSQSET
        then (case get_user e of (v, r) \<Rightarrow> (g\<lparr>scullp_qset := v\<rparr>, r, None))
      else if cmd = SCULLP_IOCTQSET then (g\<lparr>scullp_qset := s32 arg\<rparr>, Inr 0, None)
      else if cmd = SCULLP_IOCGQSET
        then (case put_user e (scullp_qset g) of (r, w) \<Rightarrow> (g, r, w))
      else if cmd = SCULLP_IOCQQSET then (g, Inr (scullp_qset g), None)
      else if cmd = SCULLP_IOCXQSET
        then let tmp = scullp_qset g in
          (case get_user e of
             (v, Inl x) \<Rightarrow> (g\<lparr>scullp_qset := v\<rparr>, Inl x, None)
           | (v, Inr _) \<Rightarrow> (case put_user e tmp of (r, w) \<Rightarrow> (g\<lparr>scullp_qset := v\<rparr>, r, w)))
      else if cmd = SCULLP_IOCHQSET
        then let tmp = scullp_qset g in (g\<lparr>scullp_qset := s32 arg\<rparr>, Inr tmp, None)
      else (g, Inl ENOTTY, None))"

section \<open>The dump\<close>

text \<open>
  \<open>scullp_read_procmem\<close> checks the buffer after every line of an item and after every entry of the last
  array. The functions return the lines and the number of characters in the buffer.
\<close>

fun pm_quanta :: "(seq_line \<Rightarrow> int) \<Rightarrow> int \<Rightarrow> int list \<Rightarrow> byte list owned list \<Rightarrow> int \<Rightarrow> (seq_line list \<times> int) exec" where
  "pm_quanta width limit [] arr cnt = Done ([], cnt)"
| "pm_quanta width limit (j # js) arr cnt =
     kbind (arr_get arr j) (\<lambda>q.
       let ls = (case q of None \<Rightarrow> [] | Some (a, m) \<Rightarrow> [QuantumLine j a]); cnt = cnt + width_of width ls in
       if cnt > limit then Done (ls, cnt)
       else kbind (pm_quanta width limit js arr cnt) (\<lambda>(rest, cnt). Done (ls @ rest, cnt)))"

fun pm_items :: "(seq_line \<Rightarrow> int) \<Rightarrow> int \<Rightarrow> int \<Rightarrow> scullp_item list \<Rightarrow> int \<Rightarrow> (seq_line list \<times> int) exec" where
  "pm_items width limit qset [] cnt = Done ([], cnt)"
| "pm_items width limit qset (i # is) cnt =
     (let l = ItemLine (pi_addr i) (owned_ptr (pi_data i)); cnt = cnt + width l in
      if cnt > limit then Done ([l], cnt)
      else case pi_data i of
             Some (a, arr) \<Rightarrow>
               if is = [] then kbind (pm_quanta width limit [0..qset - 1] arr cnt) (\<lambda>(ls, cnt). Done (l # ls, cnt))
               else kbind (pm_items width limit qset is cnt) (\<lambda>(ls, cnt). Done (l # ls, cnt))
           | None \<Rightarrow> kbind (pm_items width limit qset is cnt) (\<lambda>(ls, cnt). Done (l # ls, cnt)))"

fun pm_devs :: "(seq_line \<Rightarrow> int) \<Rightarrow> int \<Rightarrow> (int \<Rightarrow> bool) \<Rightarrow> int \<Rightarrow> scullp_dev list \<Rightarrow> int \<Rightarrow> (unit ret \<times> seq_line list) exec" where
  "pm_devs width limit intr i [] cnt = Done (Inr (), [])"
| "pm_devs width limit intr i (p # ps) cnt =
     (if intr i then Done (Inl ERESTARTSYS, [])
      else let l = DevLine i (pd_qset p) (pd_order p) (pd_size p) in
        kbind (pm_items width limit (pd_qset p) (pd_items p) (cnt + width l)) (\<lambda>(ls, cnt).
          if cnt > limit then Done (Inr (), l # ls)
          else kbind (pm_devs width limit intr (i + 1) ps cnt) (\<lambda>(r, rest). Done (r, l # ls @ rest))))"

definition scullp_read_procmem ::
  "(seq_line \<Rightarrow> int) \<Rightarrow> int \<Rightarrow> (int \<Rightarrow> bool) \<Rightarrow> scullp_dev list \<Rightarrow> int \<Rightarrow> (unit ret \<times> seq_line list) exec" where
  "scullp_read_procmem width bufsize intr devs cnt = pm_devs width (s32 (bufsize - 80)) intr 0 devs cnt"

section \<open>Mappings\<close>

definition scullp_vma_open :: "scullp_dev \<Rightarrow> scullp_dev" where
  "scullp_vma_open p = p\<lparr>pd_vmas := s32 (pd_vmas p + 1)\<rparr>"

definition scullp_vma_close :: "scullp_dev \<Rightarrow> scullp_dev" where
  "scullp_vma_close p = p\<lparr>pd_vmas := s32 (pd_vmas p - 1)\<rparr>"

text \<open>The walk to the item that holds a page; the rest of the list and the index in its array.\<close>

fun nopage_walk :: "scullp_item list \<Rightarrow> int \<Rightarrow> int \<Rightarrow> scullp_item list \<times> int" where
  "nopage_walk [] qset offset = ([], offset)"
| "nopage_walk (i # is) qset offset =
     (if offset \<ge> u64 qset then nopage_walk is qset (u64 (offset - u64 qset)) else (i # is, offset))"

text \<open>
  The page fault: the address of the faulting access, the start of the area and its offset in pages. The
  result is the page, or \<open>None\<close> for \<open>VM_FAULT_NOPAGE\<close>; the mutex is taken and released.
\<close>

definition scullp_vma_nopage :: "scullp_dev \<Rightarrow> int \<Rightarrow> int \<Rightarrow> int \<Rightarrow> byte list owned exec" where
  "scullp_vma_nopage p address vm_start vm_pgoff =
     (let offset = u64 (u64 (address - vm_start) + u64 (push_bit PAGE_SHIFT vm_pgoff)) in
      if offset \<ge> pd_size p then Done None
      else let offset = drop_bit PAGE_SHIFT offset in
      case nopage_walk (pd_items p) (pd_qset p) offset of
        ([], offset) \<Rightarrow> Done None
      | (i # is, offset) \<Rightarrow>
          (case pi_data i of
             None \<Rightarrow> Done None
           | Some (a, arr) \<Rightarrow> arr_get arr offset))"

definition scullp_mmap :: "scullp_dev \<Rightarrow> scullp_dev \<times> unit ret" where
  "scullp_mmap p = (if pd_order p \<noteq> 0 then (p, Inl ENODEV) else (scullp_vma_open p, Inr ()))"

section \<open>Deferred input and output\<close>

text \<open>
  A request (\<open>struct kiocb\<close>) and a buffer iterator, both by address. \<open>aw_tofrom\<close> is \<open>None\<close> as long as
  nothing has been stored in the field. The generic operations of the kernel are parameters.
\<close>

record async_work =
  aw_iocb :: addr
  aw_tofrom :: "addr option"

datatype 'r deferred = NotQueued 'r | Queued async_work

text \<open>\<open>garbage\<close> is what the variable \<open>result\<close> holds, which is never set.\<close>

definition scull_defer_op :: "addr option \<Rightarrow> 'r \<Rightarrow> addr \<Rightarrow> addr \<Rightarrow> 'r deferred" where
  "scull_defer_op mem garbage iocb tofrom =
     (case mem of None \<Rightarrow> NotQueued garbage | Some a \<Rightarrow> Queued \<lparr>aw_iocb = iocb, aw_tofrom = None\<rparr>)"

definition scull_read_iter :: "(addr \<Rightarrow> addr \<Rightarrow> 'r) \<Rightarrow> addr option \<Rightarrow> 'r \<Rightarrow> bool \<Rightarrow> addr \<Rightarrow> addr \<Rightarrow> 'r deferred" where
  "scull_read_iter generic_file_read_iter mem garbage is_sync iocb to =
     (if is_sync then NotQueued (generic_file_read_iter iocb to) else scull_defer_op mem garbage iocb to)"

definition scull_write_iter :: "(addr \<Rightarrow> addr \<Rightarrow> 'r) \<Rightarrow> addr option \<Rightarrow> 'r \<Rightarrow> bool \<Rightarrow> addr \<Rightarrow> addr \<Rightarrow> 'r deferred" where
  "scull_write_iter generic_file_write_iter mem garbage is_sync iocb from =
     (if is_sync then NotQueued (generic_file_write_iter iocb from) else scull_defer_op mem garbage iocb from)"

text \<open>
  When the work runs it uses the stored iterator; \<open>is_write\<close> is the direction of an iterator. The access
  through a pointer that was never set is a fault.
\<close>

definition scull_do_deferred_op ::
  "(addr \<Rightarrow> bool) \<Rightarrow> (addr \<Rightarrow> addr \<Rightarrow> 'r) \<Rightarrow> (addr \<Rightarrow> addr \<Rightarrow> 'r) \<Rightarrow> async_work \<Rightarrow> 'r exec" where
  "scull_do_deferred_op is_write generic_file_write_iter generic_file_read_iter w =
     (case aw_tofrom w of
        None \<Rightarrow> Oops NullDeref
      | Some it \<Rightarrow>
          Done (if is_write it then generic_file_write_iter (aw_iocb w) it else generic_file_read_iter (aw_iocb w) it))"

section \<open>A device of order 0 is a scull device with quanta of a page\<close>

definition as_qset :: "scullp_item \<Rightarrow> scull_qset" where
  "as_qset i = \<lparr>qs_addr = pi_addr i, qs_data = pi_data i\<rparr>"

definition as_scull :: "scullp_dev \<Rightarrow> scull_dev" where
  "as_scull p = \<lparr>sd_data = map as_qset (pd_items p), sd_quantum = PAGE_SIZE, sd_qset = pd_qset p,
     sd_size = pd_size p, sd_access_key = 0, sd_lock = pd_mutex p\<rparr>"

definition as_kmalloc :: "page_alloc \<Rightarrow> kmalloc" where
  "as_kmalloc al k n = map_option (\<lambda>a. (a, replicate (nat n) 0)) (al k)"

definition order0 :: "scullp_dev \<Rightarrow> bool" where
  "order0 p \<longleftrightarrow> pd_items p \<noteq> [] \<and> (\<forall>i \<in> set (pd_items p). pi_order i = 0)"

definition alloc_total :: "page_alloc \<Rightarrow> bool" where
  "alloc_total al \<longleftrightarrow> (\<forall>k. al k \<noteq> None)"

lemma as_scull_simps [simp]:
  "sd_quantum (as_scull p) = PAGE_SIZE" "sd_qset (as_scull p) = pd_qset p" "sd_size (as_scull p) = pd_size p"
  "sd_lock (as_scull p) = pd_mutex p" "length (sd_data (as_scull p)) = length (pd_items p)"
  "n < length (pd_items p) \<Longrightarrow> sd_data (as_scull p) ! n = as_qset (pd_items p ! n)"
  "qs_data (as_qset i) = pi_data i"
  by (simp_all add: as_scull_def as_qset_def)

lemma quantum_order0 [simp]: "quantum_of 0 = PAGE_SIZE" "page_shl 0 = PAGE_SIZE"
  by (simp_all add: quantum_of_def page_shl_def PAGE_SIZE_def width_simps)

lemma pd_order0 [simp]: "order0 p \<Longrightarrow> pd_order p = 0"
  by (simp add: order0_def pd_order_def)

lemma follow_items_sim:
  assumes "alloc_total al" and "items \<noteq> []" and "\<forall>i \<in> set items. pi_order i = 0"
  shows "\<exists>items' k'. scullp_follow_items al k items n = Done (items', k') \<and> n < length items' \<and>
    follow_next (as_kmalloc al) k (map as_qset items) n = (map as_qset items', k', True) \<and>
    (\<forall>i \<in> set items'. pi_order i = 0)"
  using assms
proof (induction al k items n rule: scullp_follow_items.induct)
  case (1 al k items)
  then show ?case by simp
next
  case (3 al k i n)
  have "al k \<noteq> None" using 3(2) by (simp add: alloc_total_def)
  then obtain a where "al k = Some a" by blast
  with 3 show ?case
    by (force simp: as_kmalloc_def as_qset_def new_qset_def)
next
  case (4 al k i i' "is" n)
  then show ?case by force
qed simp

lemma scullp_follow_sim:
  assumes "alloc_total al" and "order0 p"
  obtains p' k where "scullp_follow al p n = Done (p', k, nat (u32 n))"
    "scull_follow (as_kmalloc al) (as_scull p) n = (as_scull p', k, Some (nat (u32 n)))" "order0 p'"
    "nat (u32 n) < length (pd_items p')" "\<exists>its. p' = p\<lparr>pd_items := its\<rparr>"
proof -
  from follow_items_sim [OF assms(1), of "pd_items p" 0 "nat (u32 n)"] assms(2)
  obtain items' k' where f: "scullp_follow_items al 0 (pd_items p) (nat (u32 n)) = Done (items', k')"
    "nat (u32 n) < length items'" "follow_next (as_kmalloc al) 0 (map as_qset (pd_items p)) (nat (u32 n)) = (map as_qset items', k', True)"
    "\<forall>i \<in> set items'. pi_order i = 0" by (auto simp: order0_def)
  obtain i "is" where i: "pd_items p = i # is" using assms(2) by (cases "pd_items p") (auto simp: order0_def)
  show thesis
    using f i by (intro that [of "p\<lparr>pd_items := items'\<rparr>" k'])
      (auto simp: scullp_follow_def scull_follow_def as_scull_def order0_def Let_def)
qed

lemma as_scull_set_item:
  "n < length (pd_items p) \<Longrightarrow> as_scull (set_item p n d) =
     (as_scull p)\<lparr>sd_data := (sd_data (as_scull p))[n := (sd_data (as_scull p) ! n)\<lparr>qs_data := d\<rparr>]\<rparr>"
  by (auto simp: as_scull_def set_item_def map_update as_qset_def)

lemma as_scull_fields [simp]:
  "as_scull (p_up p) = unlock_dev (as_scull p)"
  "as_scull (p\<lparr>pd_size := z\<rparr>) = (as_scull p)\<lparr>sd_size := z\<rparr>"
  "as_scull (p\<lparr>pd_mutex := b\<rparr>) = (as_scull p)\<lparr>sd_lock := b\<rparr>"
  by (simp_all add: as_scull_def p_up_def unlock_dev_def)

fun lift_write :: "(scullp_dev \<times> int \<times> int ret) exec \<Rightarrow> (scull_dev \<times> int \<times> int ret) exec" where
  "lift_write (Oops e) = Oops e"
| "lift_write (Done (p, f, r)) = Done (as_scull p, f, r)"

lemma lift_write_kbind: "lift_write (kbind m f) = kbind m (\<lambda>x. lift_write (f x))"
  by (cases m) simp_all

lemma write_array_sim:
  "n < length (pd_items p) \<Longrightarrow> write_array (as_kmalloc al) k qset (as_scull p) n =
     map_option (\<lambda>(p, k, a, arr). (as_scull p, k, a, arr)) (scullp_write_array al k qset p n)"
  by (simp add: write_array_def scullp_write_array_def as_kmalloc_def Let_def as_scull_set_item split: option.splits)

lemma write_array_items:
  assumes "scullp_write_array al k qset p n = Some (p', k', a, arr)" and "n < length (pd_items p)"
  shows "length (pd_items p') = length (pd_items p)" "pi_order (pd_items p' ! n) = pi_order (pd_items p ! n)"
  using assms by (auto simp: scullp_write_array_def set_item_def Let_def split: option.splits)

lemma write_page_sim: "write_quantum (as_kmalloc al) k PAGE_SIZE pg = scullp_write_page al k 0 pg"
proof -
  have "u64 PAGE_SIZE = PAGE_SIZE" by (simp add: PAGE_SIZE_def width_simps)
  then show ?thesis by (cases pg) (simp_all add: write_quantum_def scullp_write_page_def as_kmalloc_def)
qed

lemma write_copy_sim:
  assumes "n < length (pd_items p)"
  shows "write_copy left q buf f (as_scull p) n a arr s o0 b mem =
    lift_write (scullp_write_copy left q buf f p n a arr s o0 b mem)"
proof -
  have "set_quantum (as_scull p) n a arr (nat s) b mem = as_scull (set_item p n (Some (a, arr[nat s := Some (b, mem)])))" for mem
    using assms by (simp add: as_scull_set_item set_quantum_def)
  note sq = this
  define c where "c = (if int (length buf) > u64 (s32 (q - o0)) then u64 (s32 (q - o0)) else int (length buf))"
  obtain u bs where cp: "copy_from_user left (take (nat c) buf) = (u, bs)" by force
  show ?thesis
    unfolding write_copy_def scullp_write_copy_def Let_def c_def [symmetric] cp prod.case
    by (cases "mem_write mem o0 bs") (simp_all add: sq)
qed

lemma scullp_write_sim:
  assumes "alloc_total al" and "order0 p"
  shows "scull_write (as_kmalloc al) intr left (as_scull p) buf f = lift_write (scullp_write al intr left p buf f)"
proof (cases "intr \<or> (\<exists>e. scull_locate PAGE_SIZE (pd_qset p) f = Oops e)")
  case True
  then show ?thesis using assms(2)
    by (auto simp: scull_write_def scull_write_locked_def scullp_write_def Let_def)
next
  case False
  let ?p = "p\<lparr>pd_mutex := True\<rparr>"
  obtain i s q where loc: "scull_locate PAGE_SIZE (pd_qset p) f = Done (i, s, q)"
    using False by (metis exec.exhaust prod_cases3)
  define n where "n = nat (u32 i)"
  have "order0 ?p" using assms(2) by (simp add: order0_def)
  from scullp_follow_sim [OF assms(1) this, of i] obtain p1 k where
    f: "scullp_follow al ?p i = Done (p1, k, n)" "scull_follow (as_kmalloc al) (as_scull ?p) i = (as_scull p1, k, Some n)"
    and o1: "order0 p1" "n < length (pd_items p1)" unfolding n_def by blast
  have lhs: "scull_write (as_kmalloc al) intr left (as_scull p) buf f =
     (case write_array (as_kmalloc al) k (pd_qset p) (as_scull p1) n of
        None \<Rightarrow> Done (unlock_dev (as_scull p1), f, Inl ENOMEM)
      | Some (d, k, a, arr) \<Rightarrow>
          kbind (arr_get arr s) (\<lambda>pg.
            case write_quantum (as_kmalloc al) k PAGE_SIZE pg of
              None \<Rightarrow> Done (unlock_dev d, f, Inl ENOMEM)
            | Some (b, mem) \<Rightarrow> write_copy left PAGE_SIZE buf f d n a arr s q b mem))"
    using False loc f(2) by (simp add: scull_write_def scull_write_locked_def Let_def)
  show ?thesis
  proof (cases "scullp_write_array al k (pd_qset p) p1 n")
    case None
    then show ?thesis using False loc f(1) assms(2) write_array_sim [OF o1(2)]
      unfolding lhs by (simp add: scullp_write_def Let_def)
  next
    case (Some w)
    then obtain p2 k2 a arr where w: "scullp_write_array al k (pd_qset p) p1 n = Some (p2, k2, a, arr)"
      by (metis prod_cases4)
    note it = write_array_items [OF w o1(2)]
    have ord: "pi_order (pd_items p2 ! n) = 0" "n < length (pd_items p2)"
      using it o1 by (simp_all add: order0_def)
    show ?thesis
      using False loc f(1) assms(2) w ord write_array_sim [OF o1(2), of al k "pd_qset p"]
      unfolding lhs
      by (cases "arr_get arr s")
        (simp_all add: scullp_write_def Let_def write_page_sim write_copy_sim split: option.split prod.split)
  qed
qed


lemma set_item_order0: "n < length (pd_items p) \<Longrightarrow> order0 p \<Longrightarrow> order0 (set_item p n d)"
  by (auto simp: order0_def set_item_def dest!: set_update_cases)

lemma order0_fields [simp]: "order0 (p_up p) = order0 p" "order0 (p\<lparr>pd_size := z\<rparr>) = order0 p" "order0 (p\<lparr>pd_mutex := b\<rparr>) = order0 p"
  by (simp_all add: order0_def p_up_def)

text \<open>
  What every step of \<open>scullp_write\<close> keeps: the walk along the list, a new array for an item, a page that is
  new or has new contents, and the fields beside the items.
\<close>

lemma scullp_write_copy_rule:
  assumes "scullp_write_copy left q buf f p n a arr s o0 b mem = Done (p', f', r)"
    and "\<And>mem'. P (set_item p n (Some (a, arr[nat s := Some (b, mem')])))"
    and "\<And>q. P q \<Longrightarrow> P (p_up q)" and "\<And>q z. P q \<Longrightarrow> P (q\<lparr>pd_size := z\<rparr>)"
  shows "P p'"
proof -
  define c where "c = (if int (length buf) > u64 (s32 (q - o0)) then u64 (s32 (q - o0)) else int (length buf))"
  obtain u bs where cp: "copy_from_user left (take (nat c) buf) = (u, bs)" by force
  note run = assms(1) [unfolded scullp_write_copy_def Let_def c_def [symmetric] cp prod.case]
  then show ?thesis using assms(2-4) by (cases "mem_write mem o0 bs") (auto split: if_splits)
qed

lemma scullp_write_rule:
  assumes "alloc_total al" and "order0 p" and run: "scullp_write al intr left p buf f = Done (p', f', r)" and "P p"
    and up: "\<And>q. P q \<Longrightarrow> P (p_up q)" "\<And>q z. P q \<Longrightarrow> P (q\<lparr>pd_size := z\<rparr>)"
    and follow: "\<And>i p1 k n. scullp_follow al (p\<lparr>pd_mutex := True\<rparr>) i = Done (p1, k, n) \<Longrightarrow> P p1"
    and array: "\<And>q n a m. P q \<Longrightarrow> n < length (pd_items q) \<Longrightarrow> pi_data (pd_items q ! n) = None \<Longrightarrow>
      P (set_item q n (Some (a, replicate m None)))"
    and page: "\<And>q n a arr s b mem mem'. P q \<Longrightarrow> n < length (pd_items q) \<Longrightarrow> pi_data (pd_items q ! n) = Some (a, arr) \<Longrightarrow>
      s < length arr \<Longrightarrow> arr ! s \<in> {None, Some (b, mem)} \<Longrightarrow> P (set_item q n (Some (a, arr[s := Some (b, mem')])))"
  shows "P p'"
proof (cases intr)
  case True
  then show ?thesis using assms(3,4) by (simp add: scullp_write_def)
next
  case False
  from assms(2) run False obtain i s q p1 k n where loc: "scull_locate PAGE_SIZE (pd_qset p) f = Done (i, s, q)"
    and f: "scullp_follow al (p\<lparr>pd_mutex := True\<rparr>) i = Done (p1, k, n)"
    by (auto simp: scullp_write_def Let_def exec_simps)
  have "order0 (p\<lparr>pd_mutex := True\<rparr>)" using assms(2) by simp
  from scullp_follow_sim [OF assms(1) this, of i] f have n: "n < length (pd_items p1)" by auto
  show ?thesis
  proof (cases "scullp_write_array al k (pd_qset p) p1 n")
    case None
    then show ?thesis using assms(2) run False loc f follow [OF f] up(1) by (auto simp: scullp_write_def Let_def)
  next
    case (Some w)
    then obtain p2 k2 a arr where w: "scullp_write_array al k (pd_qset p) p1 n = Some (p2, k2, a, arr)"
      by (metis prod_cases4)
    then have p2: "P p2" "n < length (pd_items p2)" "pi_data (pd_items p2 ! n) = Some (a, arr)"
      using follow [OF f] n array [OF follow [OF f] n]
      by (auto simp: scullp_write_array_def set_item_def Let_def split: option.splits)
    from assms(2) run False loc f w obtain pg where pg: "arr_get arr s = Done pg" and
      t: "(case scullp_write_page al k2 (pi_order (pd_items p2 ! n)) pg of
          None \<Rightarrow> Done (p_up p2, f, Inl ENOMEM)
        | Some (b, mem) \<Rightarrow> scullp_write_copy left PAGE_SIZE buf f p2 n a arr s q b mem) = Done (p', f', r)"
      by (auto simp: scullp_write_def Let_def exec_simps)
    have s: "nat s < length arr" "arr ! nat s = pg" using pg by (auto simp: arr_get_def split: if_splits)
    show ?thesis
    proof (cases "scullp_write_page al k2 (pi_order (pd_items p2 ! n)) pg")
      case None
      then show ?thesis using t p2(1) up(1) by auto
    next
      case (Some bm)
      obtain b mem where bm: "bm = (b, mem)" by force
      with Some s(2) have "arr ! nat s \<in> {None, Some (b, mem)}" by (auto simp: scullp_write_page_def split: option.splits)
      then have "P (set_item p2 n (Some (a, arr[nat s := Some (b, mem')])))" for mem' using page [OF p2 s(1)] by blast
      then show ?thesis using scullp_write_copy_rule [of left PAGE_SIZE buf f p2 n a arr s q b mem p' f' r P] t Some bm up by auto
    qed
  qed
qed

lemma scullp_write_order0:
  assumes "alloc_total al" and "order0 p" and "scullp_write al intr left p buf f = Done (p', f', r)"
  shows "order0 p'"
proof (rule scullp_write_rule [OF assms, of order0])
  fix i p1 k n assume "scullp_follow al (p\<lparr>pd_mutex := True\<rparr>) i = Done (p1, k, n)"
  then show "order0 p1" using scullp_follow_sim [OF assms(1), of "p\<lparr>pd_mutex := True\<rparr>" i] assms(2) by fastforce
qed (use assms(2) set_item_order0 in auto)

fun lift_read :: "(scullp_dev \<times> int \<times> int ret \<times> byte list) exec \<Rightarrow> (scull_dev \<times> int \<times> int ret \<times> byte list) exec" where
  "lift_read (Oops e) = Oops e"
| "lift_read (Done (p, f, r, bs)) = Done (as_scull p, f, r, bs)"

lemma read_copy_sim: "read_copy left q c f (as_scull p) o0 mem = lift_read (scullp_read_copy left q c f p o0 mem)"
proof -
  define n where "n = (if c > u64 (s32 (q - o0)) then u64 (s32 (q - o0)) else c)"
  show ?thesis
    unfolding read_copy_def scullp_read_copy_def Let_def n_def [symmetric]
    by (cases "mem_read mem o0 n") (simp_all add: copy_to_user_def)
qed

text \<open>Before the end both devices read the same way; at the end scullp walks the list and returns 0.\<close>

lemma scullp_read_sim:
  assumes "alloc_total al" and "order0 p" and "u64 f < pd_size p"
  shows "scull_read (as_kmalloc al) False left (as_scull p) c f = lift_read (scullp_read al False left p c f)"
proof (cases "scull_locate PAGE_SIZE (pd_qset p) f")
  case (Oops e)
  then show ?thesis using assms(2,3)
    by (simp add: scull_read_def scull_read_locked_def scullp_read_def Let_def)
next
  case (Done loc)
  let ?p = "p\<lparr>pd_mutex := True\<rparr>"
  obtain i s q where loc: "scull_locate PAGE_SIZE (pd_qset p) f = Done (i, s, q)" using Done by (metis prod_cases3)
  define n where "n = nat (u32 i)"
  have "order0 ?p" using assms(2) by simp
  from scullp_follow_sim [OF assms(1) this, of i] obtain p1 k where
    f: "scullp_follow al ?p i = Done (p1, k, n)" "scull_follow (as_kmalloc al) (as_scull ?p) i = (as_scull p1, k, Some n)"
    and o1: "n < length (pd_items p1)" unfolding n_def by blast
  show ?thesis
  proof (cases "pi_data (pd_items p1 ! n)")
    case None
    then show ?thesis using assms(2,3) loc f o1
      by (simp add: scull_read_def scull_read_locked_def scullp_read_def Let_def)
  next
    case (Some x)
    obtain a arr where "x = (a, arr)" by force
    with Some assms(2,3) loc f o1 show ?thesis
      by (cases "arr_get arr s")
        (simp_all add: scull_read_def scull_read_locked_def scullp_read_def Let_def read_copy_sim split: option.split prod.split)
  qed
qed


text \<open>A read changes the device only by the walk along the list.\<close>

lemma scullp_read_result:
  assumes "order0 p" and "scullp_read al intr left p c f = Done (p', f', r, bs)"
  obtains "p' = p" | "p' = p_up (p\<lparr>pd_mutex := True\<rparr>)" |
    i p1 k n where "scullp_follow al (p\<lparr>pd_mutex := True\<rparr>) i = Done (p1, k, n)" "p' = p_up p1"
proof (cases "intr \<or> pd_size p < u64 f")
  case True
  then show thesis using assms that(1,2) by (cases intr) (auto simp: scullp_read_def Let_def)
next
  case False
  let ?p = "p\<lparr>pd_mutex := True\<rparr>"
  define c' where "c' = (if u64 (f + c) > pd_size ?p then u64 (pd_size ?p - f) else c)"
  note run = assms(2) [unfolded scullp_read_def Let_def pd_order0 [OF assms(1)] quantum_order0, folded c'_def]
  obtain i s q p1 k n where loc: "scull_locate PAGE_SIZE (pd_qset p) f = Done (i, s, q)"
    and p1: "scullp_follow al ?p i = Done (p1, k, n)"
    using False run by (auto simp: exec_simps)
  have copy: "p' = p_up p1" if "scullp_read_copy left PAGE_SIZE c' f p1 q m = Done (p', f', r, bs)" for m
    using that by (auto simp: scullp_read_copy_def copy_to_user_def exec_simps Let_def split: if_splits)
  have "(case pi_data (pd_items p1 ! n) of
          None \<Rightarrow> Done (p_up p1, f, Inr 0, [])
        | Some (_, arr) \<Rightarrow> kbind (arr_get arr s) (\<lambda>pg.
            case pg of None \<Rightarrow> Done (p_up p1, f, Inr 0, [])
            | Some (_, mem) \<Rightarrow> scullp_read_copy left PAGE_SIZE c' f p1 q mem)) = Done (p', f', r, bs)"
    using run False loc p1 by simp
  then have "p' = p_up p1" using copy by (auto simp: kbind_eq_Done split: option.splits prod.splits)
  then show thesis by (rule that(3) [OF p1])
qed

lemma scullp_read_order0:
  assumes "alloc_total al" and "order0 p" and "scullp_read al intr left p c f = Done (p', f', r, bs)"
  shows "order0 p'"
  using scullp_read_result [OF assms(2,3)]
proof cases
  case (3 i p1 k n)
  then show ?thesis using scullp_follow_sim [OF assms(1), of "p\<lparr>pd_mutex := True\<rparr>" i] assms(2) by fastforce
qed (use assms(2) in simp_all)

text \<open>
  A read at or behind the end. Exactly at the end the test of \<open>scullp_read\<close> (\<open>>\<close>, where \<open>scull_read\<close> has \<open>\<ge>\<close>)
  lets it go on, and it walks, and if need be extends, the list of items up to the one of the position.
\<close>

lemma items_p_up: "pd_items (p_up p) = pd_items p"
  by (simp add: p_up_def)

lemma follow_items_length:
  "scullp_follow_items al k items n = Done (items', k') \<Longrightarrow> items \<noteq> [] \<Longrightarrow> length items' = max (length items) (Suc n)"
  by (induction al k items n arbitrary: items' k' rule: scullp_follow_items.induct)
    (auto simp: kbind_eq_Done max_def Suc_le_eq neq_Nil_conv split: option.splits)

definition items_after :: "scullp_dev \<Rightarrow> int \<Rightarrow> nat" where
  "items_after p f =
     (if f = pd_size p then max (length (pd_items p)) (nat (f div (PAGE_SIZE * pd_qset p)) + 1) else length (pd_items p))"

lemma scullp_read_end:
  assumes "alloc_total al" and "order0 p" and wf: "scull_wf (as_scull p)" and pos: "pos_ok (as_scull p) f"
    and "pd_size p \<le> f" and "0 \<le> c" "c < 2 ^ 63"
  shows "\<exists>p'. scullp_read al False left p c f = Done (p', f, Inr 0, []) \<and> order0 p' \<and> same_view (as_scull p) (as_scull p') \<and>
    length (pd_items p') = items_after p f"
proof -
  note ps = pos_okD [OF wf pos, simplified]
  have u: "u64 f = f" "s64 f = f" using ps(1,2) by (simp_all add: width_simps PAGE_SIZE_def)
  have v0: "same_view (as_scull p) (unlock_dev ((as_scull p)\<lparr>sd_lock := b\<rparr>))" for b
    using wf by (auto simp: same_view_def unlock_dev_def scull_wf_def)
  show ?thesis
  proof (cases "f = pd_size p")
    case False
    then show ?thesis using assms(2,5) u v0 [of True]
      by (intro exI [of _ "p_up (p\<lparr>pd_mutex := True\<rparr>)"]) (simp add: scullp_read_def items_after_def items_p_up)
  next
    case True
    let ?p = "p\<lparr>pd_mutex := True\<rparr>" and ?i = "f div (PAGE_SIZE * pd_qset p)" and ?s = "f div PAGE_SIZE mod pd_qset p"
    have count: "u64 0 = 0" "\<not> pd_size p < u64 (pd_size p + c) \<Longrightarrow> c = 0"
      using True assms(6,7) ps(1,2) by (auto simp: width_simps PAGE_SIZE_def)
    have loc: "scull_locate PAGE_SIZE (pd_qset p) f = Done (?i, ?s, f mod PAGE_SIZE)"
      using scull_locate_ok [OF wf pos] by simp
    define n where "n = nat (u32 ?i)"
    have "order0 ?p" using assms(2) by simp
    from scullp_follow_sim [OF assms(1) this, of ?i] obtain p1 k where
      f: "scullp_follow al ?p ?i = Done (p1, k, n)" "scull_follow (as_kmalloc al) (as_scull ?p) ?i = (as_scull p1, k, Some n)"
      and o1: "order0 p1" "n < length (pd_items p1)" unfolding n_def by blast
    have v1: "same_view (as_scull p) (as_scull p1)"
      using scull_follow_view(1) [OF wf, of "as_kmalloc al" ?i "as_scull p1" k "Some n"] f(2) ps(3,4) by simp
    have wf1: "scull_wf (as_scull p1)" "pd_qset p1 = pd_qset p" using v1 by (auto simp: same_view_def)
    have wq: "wf_qset PAGE_SIZE (pd_qset p) (as_qset (pd_items p1 ! n))"
      using scull_wf_nth [OF wf1(1), of n] o1(2) wf1(2) by simp
    have "scullp_read al False left p c f = Done (p_up p1, f, Inr 0, [])"
    proof (cases "pi_data (pd_items p1 ! n)")
      case None
      then show ?thesis using assms(2) loc f(1) u True by (simp add: scullp_read_def Let_def)
    next
      case (Some x)
      then obtain a arr where x: "pi_data (pd_items p1 ! n) = Some (a, arr)" by (cases x) simp
      with wq have len: "int (length arr) = pd_qset p" "Some (b, m) \<in> set arr \<Longrightarrow> int (length m) = PAGE_SIZE" for b m
        by (auto simp: wf_qset_def)
      have get: "arr_get arr ?s = Done (arr ! nat ?s)" using ps(7,8) len(1) by (simp add: arr_get_def)
      have "nat ?s < length arr" using ps(7,8) len(1) by linarith
      then have "arr ! nat ?s \<in> set arr" by simp
      then have pg: "int (length m) = PAGE_SIZE" if "arr ! nat ?s = Some (b, m)" for b m using that len(2) by metis
      have "scullp_read_copy left PAGE_SIZE 0 f p1 (f mod PAGE_SIZE) m = Done (p_up p1, f, Inr 0, [])"
        if "int (length m) = PAGE_SIZE" for m
        using that ps(5,6) u by (auto simp: scullp_read_copy_def mem_read_def copy_to_user_def width_simps PAGE_SIZE_def)
      then show ?thesis
        using assms(2) loc f(1) u True x get pg
        unfolding scullp_read_def Let_def
        by (auto simp: count split: option.splits)
    qed
    moreover have "length (pd_items (p_up p1)) = items_after p f"
    proof -
      have "pd_items p \<noteq> []" using assms(2) by (simp add: order0_def)
      moreover have "u32 ?i = ?i" using ps(3,4) by (simp add: width_simps)
      ultimately show ?thesis using f(1) True follow_items_length
        by (auto simp: scullp_follow_def Let_def kbind_eq_Done items_after_def p_up_def)
    qed
    ultimately show ?thesis using o1 v1 by (intro exI [of _ "p_up p1"]) (simp add: same_view_unlock)
  qed
qed

definition scullp_ready :: "page_alloc \<Rightarrow> scullp_dev \<Rightarrow> int \<Rightarrow> bool" where
  "scullp_ready al p f \<longleftrightarrow> order0 p \<and> scull_wf (as_scull p) \<and> pos_ok (as_scull p) f \<and> alloc_total al"

lemma as_kmalloc_ok: "kmalloc_sized (as_kmalloc al)" "alloc_total al \<Longrightarrow> kmalloc_total (as_kmalloc al)"
  by (auto simp: kmalloc_sized_def kmalloc_total_def as_kmalloc_def alloc_total_def)

lemma scullp_write_stores:
  assumes "scullp_ready al p f"
  shows "\<exists>p' n. scullp_write al False 0 p buf f = Done (p', f + int n, Inr (int n)) \<and>
      n \<le> length buf \<and> (buf \<noteq> [] \<longrightarrow> 0 < n) \<and> pd_size p' = max (pd_size p) (f + int n) \<and>
      (\<forall>i<n. scull_byte (as_scull p') (f + int i) = Some (buf ! i)) \<and>
      (\<forall>q b. scull_byte (as_scull p) q = Some b \<longrightarrow> (q < f \<or> f + int n \<le> q) \<longrightarrow> scull_byte (as_scull p') q = Some b) \<and>
      (\<forall>g. scullp_ready al p g \<longrightarrow> scullp_ready al p' g)"
proof -
  have r: "order0 p" "scull_wf (as_scull p)" "pos_ok (as_scull p) f" "alloc_total al"
    using assms by (simp_all add: scullp_ready_def)
  from scull_write_stores [OF r(2,3) as_kmalloc_ok(1) as_kmalloc_ok(2) [OF r(4)], of buf] obtain d' n where
    w: "scull_write (as_kmalloc al) False 0 (as_scull p) buf f = Done (d', f + int n, Inr (int n))" and
    d': "n \<le> length buf" "buf \<noteq> [] \<longrightarrow> 0 < n" "sd_size d' = max (pd_size p) (f + int n)"
      "\<forall>i<n. scull_byte d' (f + int i) = Some (buf ! i)"
      "\<forall>q b. scull_byte (as_scull p) q = Some b \<longrightarrow> (q < f \<or> f + int n \<le> q) \<longrightarrow> scull_byte d' q = Some b"
      "scull_wf d'" "sd_quantum d' = PAGE_SIZE" "sd_qset d' = pd_qset p" by auto
  then obtain p' where p': "scullp_write al False 0 p buf f = Done (p', f + int n, Inr (int n))" "d' = as_scull p'"
    using scullp_write_sim [OF r(4,1), of False 0 buf f]
    by (cases "scullp_write al False 0 p buf f") auto
  have "scullp_ready al p g \<longrightarrow> scullp_ready al p' g" for g
    using scullp_write_order0 [OF r(4,1) p'(1)] d'(6,8) p'(2) by (auto simp: scullp_ready_def pos_ok_def)
  with p' d' show ?thesis by (intro exI [of _ p'] exI [of _ n]) simp
qed

lemma scullp_read_fetches:
  assumes "scullp_ready al p f" and c: "0 \<le> c" "c < 2 ^ 63"
  shows "\<exists>p' bs. scullp_read al False 0 p c f = Done (p', f + int (length bs), Inr (int (length bs)), bs) \<and>
      int (length bs) \<le> c \<and> (\<forall>i<length bs. scull_byte (as_scull p) (f + int i) = Some (bs ! i)) \<and>
      (0 < c \<longrightarrow> f < pd_size p \<longrightarrow> scull_byte (as_scull p) f \<noteq> None \<longrightarrow> bs \<noteq> []) \<and>
      order0 p' \<and> same_view (as_scull p) (as_scull p')"
proof -
  have r: "order0 p" "scull_wf (as_scull p)" "pos_ok (as_scull p) f" "alloc_total al"
    using assms(1) by (simp_all add: scullp_ready_def)
  show ?thesis
  proof (cases "f < pd_size p")
    case True
    have u: "u64 f < pd_size p" using True pos_okD [OF r(2,3)] by (simp add: width_simps PAGE_SIZE_def)
    from scull_read_fetches [OF r(2,3) c, of "as_kmalloc al"] obtain d' bs where
      s: "scull_read (as_kmalloc al) False 0 (as_scull p) c f = Done (d', f + int (length bs), Inr (int (length bs)), bs)"
      and b: "int (length bs) \<le> c" "\<forall>i<length bs. scull_byte (as_scull p) (f + int i) = Some (bs ! i)"
        "0 < c \<longrightarrow> f < pd_size p \<longrightarrow> scull_byte (as_scull p) f \<noteq> None \<longrightarrow> bs \<noteq> []" "same_view (as_scull p) d'" by auto
    then obtain p' where p': "scullp_read al False 0 p c f = Done (p', f + int (length bs), Inr (int (length bs)), bs)"
      "d' = as_scull p'"
      using scullp_read_sim [OF r(4,1) u, of 0 c] by (cases "scullp_read al False 0 p c f") auto
    then show ?thesis using b scullp_read_order0 [OF r(4,1) p'(1)] by blast
  next
    case False
    then obtain p' where "scullp_read al False 0 p c f = Done (p', f, Inr 0, [])" "order0 p'"
      "same_view (as_scull p) (as_scull p')" using scullp_read_end [OF r(4,1,2,3) _ c] by auto
    then show ?thesis using False c(1) by (intro exI [of _ p'] exI [of _ "[]"]) simp
  qed
qed

interpretation scullp: byte_store "scullp_read al False 0" "scullp_write al False 0" "\<lambda>p. scull_byte (as_scull p)" pd_size
  "scullp_ready al" for al
proof (unfold_locales, goal_cases)
  case (1 p f buf)
  then show ?case by (rule scullp_write_stores)
next
  case (2 p f c)
  from scullp_read_fetches [OF this] obtain p' bs where
    r: "scullp_read al False 0 p c f = Done (p', f + int (length bs), Inr (int (length bs)), bs)"
      "int (length bs) \<le> c" "\<forall>i<length bs. scull_byte (as_scull p) (f + int i) = Some (bs ! i)"
      "0 < c \<longrightarrow> f < pd_size p \<longrightarrow> scull_byte (as_scull p) f \<noteq> None \<longrightarrow> bs \<noteq> []"
      and v: "order0 p'" "same_view (as_scull p) (as_scull p')" by blast
  have "\<forall>g. scullp_ready al p g \<longrightarrow> scullp_ready al p' g" "pd_size p' = pd_size p"
    using v by (auto simp: scullp_ready_def same_view_def pos_ok_def)
  with r scull_byte_same_view [OF v(2)] show ?case by blast
qed


section \<open>Properties\<close>

text \<open>
  C24. A scullp device of order 0 is a scull device whose quantum is a page: with an allocator that serves
  every request, a write does to the device, the position and the return value exactly what
  \<open>scull_write\<close> does, on every branch, and so does a read that is interrupted or begins before the end. A read at
  or behind the end of a well-formed device, at a position in range, returns 0 in both drivers and leaves
  position, size and contents alone; but where \<open>scull_read\<close> leaves the list of items as it is, \<open>scullp_read\<close>
  exactly at the end walks to the item of the position and extends the list up to it by empty items.
\<close>

theorem scullp_refines_scull:
  assumes "alloc_total al" and "order0 p"
  shows "scull_write (as_kmalloc al) intr left (as_scull p) buf f = lift_write (scullp_write al intr left p buf f) \<and>
    (intr \<or> u64 f < pd_size p \<longrightarrow>
      scull_read (as_kmalloc al) intr left (as_scull p) c f = lift_read (scullp_read al intr left p c f)) \<and>
    (scull_wf (as_scull p) \<and> pos_ok (as_scull p) f \<and> pd_size p \<le> f \<and> 0 \<le> c \<and> c < 2 ^ 63 \<longrightarrow>
      (\<exists>d'. scull_read (as_kmalloc al) False left (as_scull p) c f = Done (d', f, Inr 0, []) \<and>
        sd_data d' = sd_data (as_scull p) \<and> sd_size d' = pd_size p) \<and>
      (\<exists>p'. scullp_read al False left p c f = Done (p', f, Inr 0, []) \<and> pd_size p' = pd_size p \<and>
        scull_byte (as_scull p') = scull_byte (as_scull p) \<and>
        length (pd_items p') =
          (if f = pd_size p then max (length (pd_items p)) (nat (f div (PAGE_SIZE * pd_qset p)) + 1) else length (pd_items p))))"
proof -
  have "scull_read (as_kmalloc al) intr left (as_scull p) c f = lift_read (scullp_read al intr left p c f)"
    if "intr \<or> u64 f < pd_size p"
    using that scullp_read_sim [OF assms, of f left c] by (cases intr) (simp_all add: scull_read_def scullp_read_def)
  moreover have "(\<exists>d'. scull_read (as_kmalloc al) False left (as_scull p) c f = Done (d', f, Inr 0, []) \<and>
        sd_data d' = sd_data (as_scull p) \<and> sd_size d' = pd_size p) \<and>
      (\<exists>p'. scullp_read al False left p c f = Done (p', f, Inr 0, []) \<and> pd_size p' = pd_size p \<and>
        scull_byte (as_scull p') = scull_byte (as_scull p) \<and> length (pd_items p') = items_after p f)"
    if wf: "scull_wf (as_scull p)" and pos: "pos_ok (as_scull p) f" and f: "pd_size p \<le> f" and c: "0 \<le> c" "c < 2 ^ 63"
  proof -
    have u: "u64 f = f" using pos_okD [OF wf pos] by (simp add: width_simps PAGE_SIZE_def)
    have "scull_read (as_kmalloc al) False left (as_scull p) c f = Done (unlock_dev ((as_scull p)\<lparr>sd_lock := True\<rparr>), f, Inr 0, [])"
      using f by (simp add: scull_read_def scull_read_locked_def u)
    moreover obtain p' where "scullp_read al False left p c f = Done (p', f, Inr 0, [])" "same_view (as_scull p) (as_scull p')"
      "length (pd_items p') = items_after p f" using scullp_read_end [OF assms wf pos f c, of left] by blast
    ultimately show ?thesis using scull_byte_same_view by (auto simp: unlock_dev_def same_view_def)
  qed
  ultimately show ?thesis using scullp_write_sim [OF assms] unfolding items_after_def by simp
qed

text \<open>C23. Round trip: what the client loop writes to a scullp device of order 0, the client loop reads back.\<close>

theorem scullp_roundtrip:
  assumes "order0 p" and "scull_wf (as_scull p)" and "0 \<le> f" and "pos_ok (as_scull p) (f + int (length buf))"
    and "alloc_total al"
  shows "\<exists>p'. write_all (scullp_write al False 0) (length buf) p buf f = Some (p', f + int (length buf)) \<and>
    read_all (scullp_read al False 0) (length buf) p' (int (length buf)) f = Some buf"
proof (rule scullp.write_all_read_all)
  show "scullp_ready al p g" if "f \<le> g" "g \<le> f + int (length buf)" for g
    using assms that pos_ok_mono [OF assms(2,4), of g] by (simp add: scullp_ready_def)
  show "int (length buf) < 2 ^ 63"
    using assms(3,4) by (simp add: pos_ok_def PAGE_SIZE_def)
qed

lemma nopage_walk_item:
  assumes "0 < qset" "qset < 2 ^ 31"
  shows "0 \<le> g \<Longrightarrow> g < 2 ^ 63 \<Longrightarrow> fst (nopage_walk items qset g) = drop (nat (g div qset)) items \<and>
    (nat (g div qset) < length items \<longrightarrow> snd (nopage_walk items qset g) = g mod qset)"
proof (induction items arbitrary: g)
  case (Cons i "is")
  have q: "u64 qset = qset" using assms by (simp add: width_simps)
  show ?case
  proof (cases "qset \<le> g")
    case True
    have u: "u64 (g - qset) = g - qset" using True Cons.prems assms by (simp add: width_simps)
    have d: "nat (g div qset) = Suc (nat ((g - qset) div qset))" "(g - qset) mod qset = g mod qset"
      using True assms
      by (simp_all add: div_pos_geq Suc_nat_eq_nat_zadd1 pos_imp_zdiv_nonneg_iff add.commute)
    show ?thesis using Cons.IH [of "g - qset"] True Cons.prems assms(1) q u d by simp
  next
    case False
    then show ?thesis using Cons.prems q by simp
  qed
qed simp

text \<open>The page of a device with a given number.\<close>

definition scullp_page :: "scullp_dev \<Rightarrow> nat \<Rightarrow> byte list owned" where
  "scullp_page p n =
     (let i = n div nat (pd_qset p); s = n mod nat (pd_qset p) in
      if i < length (pd_items p)
      then (case pi_data (pd_items p ! i) of
              None \<Rightarrow> None
            | Some (a, arr) \<Rightarrow> if s < length arr then arr ! s else None)
      else None)"

lemma scull_block_page: "scull_block (as_scull p) n = map_option snd (scullp_page p n)"
  by (auto simp: scull_block_def scullp_page_def Let_def split: option.splits)

lemma scullp_page_nat:
  assumes "0 \<le> b" and "0 < pd_qset p"
  shows "scullp_page p (nat b) = (if nat (b div pd_qset p) < length (pd_items p)
     then (case pi_data (pd_items p ! nat (b div pd_qset p)) of None \<Rightarrow> None
           | Some (a, arr) \<Rightarrow> if nat (b mod pd_qset p) < length arr then arr ! nat (b mod pd_qset p) else None)
     else None)"
proof -
  have "nat (b mod pd_qset p) = nat b mod nat (pd_qset p)" "nat (b div pd_qset p) = nat b div nat (pd_qset p)"
    using assms by (simp_all add: nat_div_distrib nat_mod_distrib)
  then show ?thesis unfolding scullp_page_def Let_def by (simp only:)
qed

text \<open>
  A page fault in a mapping of a device finds the very page that holds the bytes which
  \<open>read\<close> returns at that offset: the page of the file, or none behind the end and in a hole. The walk
  along the list does not fault.
\<close>

lemma scullp_nopage_page:
  assumes wf: "scull_wf (as_scull p)"
    and off: "0 \<le> vm_pgoff" "0 \<le> address - vm_start" "address - vm_start + vm_pgoff * PAGE_SIZE < 2 ^ 63"
  defines "g \<equiv> address - vm_start + vm_pgoff * PAGE_SIZE"
  shows "scullp_vma_nopage p address vm_start vm_pgoff =
    Done (if g < pd_size p then scullp_page p (nat (g div PAGE_SIZE)) else None)"
proof -
  have g: "0 \<le> g" "g < 2 ^ 63" "push_bit PAGE_SHIFT vm_pgoff = vm_pgoff * PAGE_SIZE"
    using off by (simp_all add: g_def PAGE_SIZE_def PAGE_SHIFT_def push_bit_eq_mult)
  have po: "0 \<le> vm_pgoff * PAGE_SIZE" "vm_pgoff * PAGE_SIZE < 2 ^ 63" "address - vm_start < 2 ^ 63"
    using off by (simp_all add: PAGE_SIZE_def)
  have o: "u64 (u64 (address - vm_start) + u64 (push_bit PAGE_SHIFT vm_pgoff)) = g"
    using g po off by (simp add: width_simps g_def)
  have db: "drop_bit PAGE_SHIFT g = g div PAGE_SIZE" by (simp add: PAGE_SIZE_def PAGE_SHIFT_def drop_bit_eq_div)
  let ?b = "g div PAGE_SIZE"
  have b: "0 \<le> ?b" "?b < 2 ^ 63"
    using g by (auto simp: PAGE_SIZE_def)
  note q = scull_wfD(2,5) [OF wf, unfolded as_scull_simps]
  let ?i = "nat (?b div pd_qset p)"
  note walk = nopage_walk_item [OF q b, of "pd_items p"]
  note pg = scullp_page_nat [OF b(1) q(1)]
  show ?thesis
  proof (cases "g < pd_size p \<and> ?i < length (pd_items p)")
    case False
    then show ?thesis
      using o db walk by (auto simp: scullp_vma_nopage_def Let_def pg split: prod.splits list.splits)
  next
    case True
    then have d: "drop ?i (pd_items p) = pd_items p ! ?i # drop (Suc ?i) (pd_items p)" by (simp add: Cons_nth_drop_Suc)
    have w: "nopage_walk (pd_items p) (pd_qset p) ?b = (pd_items p ! ?i # drop (Suc ?i) (pd_items p), ?b mod pd_qset p)"
      using walk True d by (metis prod.collapse)
    show ?thesis
    proof (cases "pi_data (pd_items p ! ?i)")
      case None
      then show ?thesis using True o db w by (simp add: scullp_vma_nopage_def pg)
    next
      case (Some x)
      obtain a arr where x: "x = (a, arr)" by force
      have "int (length arr) = pd_qset p"
        using scull_wf_nth [OF wf, of ?i] True Some x by (simp add: wf_qset_def)
      then have "arr_get arr (?b mod pd_qset p) = Done (arr ! nat (?b mod pd_qset p))"
        "nat (?b mod pd_qset p) < length arr" using q by (auto simp: arr_get_def nat_less_iff)
      then show ?thesis using True o db w Some x by (simp add: scullp_vma_nopage_def pg)
    qed
  qed
qed

text \<open>
  While a device is mapped it is never emptied: trimming it, also by an open for writing, frees nothing
  and leaves every item; only a device of order 0 can be mapped, and the counter of mappings goes back to
  what it was when the mapping is closed.
\<close>

lemma scullp_mapped_kept:
  assumes "0 \<le> pd_vmas p" "pd_vmas p < 2 ^ 31 - 1" and "scullp_mmap p = (p', Inr u)"
  shows "pd_order p = 0 \<and> scullp_trim g p' = Done (p', Inl EBUSY, []) \<and>
    (\<exists>p'' r. scullp_open g intr p' flags = Done (p'', r, []) \<and> pd_items p'' = pd_items p) \<and> scullp_vma_close p' = p"
proof -
  have p': "p' = scullp_vma_open p" "pd_order p = 0" using assms(3) by (auto simp: scullp_mmap_def split: if_splits)
  then have v: "pd_vmas p' \<noteq> 0" "pd_items p' = pd_items p" using assms(1,2) by (simp_all add: scullp_vma_open_def s32_nonneg)
  have "\<exists>p'' r. scullp_open g intr p' flags = Done (p'', r, []) \<and> pd_items p'' = pd_items p"
    using v by (simp add: scullp_open_def scullp_trim_def p_up_def)
  with p' v assms(1,2) show ?thesis by (simp add: scullp_trim_def scullp_vma_close_def scullp_vma_open_def s32_nonneg)
qed

section \<open>Where the code goes wrong\<close>

text \<open>
  The items behind the first have order 0 while the quantum is taken from the first item. On a device of
  order 1 a write to the second item runs past the end of the page allocated there.
\<close>

theorem scullp_order_overflow:
  assumes "pd_items p = [\<lparr>pi_addr = a, pi_data = d, pi_order = 1\<rparr>]" and "pd_qset p = 1"
    and "alloc_total al" and "length buf = 1"
  shows "scullp_write al False left p buf (8192 + 4096) = Oops OutOfBounds"
proof -
  obtain a0 a1 a2 where al: "al 0 = Some a0" "al 1 = Some a1" "al (Suc (Suc 0)) = Some a2" "al (Suc 0) = Some a1"
  proof -
    have "\<exists>a. al k = Some a" for k using assms(3) by (simp add: alloc_total_def)
    then show thesis using that by (metis One_nat_def)
  qed
  have q: "quantum_of 1 = 8192" "page_shl 0 = 4096"
    by (simp_all add: quantum_of_def page_shl_def PAGE_SIZE_def width_simps push_bit_eq_mult)
  have loc: "scull_locate 8192 1 12288 = Done (1, 0, 4096)"
    by (simp add: scull_locate_def Let_def width_simps)
  show ?thesis
    using assms(1,2,4) al
    by (simp add: scullp_write_def pd_order_def q loc scullp_follow_def scullp_write_array_def scullp_write_page_def
      scullp_write_copy_def set_item_def Let_def width_simps arr_get_def copy_from_user_def mem_write_def PAGE_SIZE_def)
qed

text \<open>
  \<open>scullp_follow\<close> does not check its allocation: a write behind the first item with no memory
  left is a fault, where \<open>scull_write\<close> returns \<open>ENOMEM\<close>.
\<close>

theorem scullp_follow_null:
  assumes "order0 p" and "length (pd_items p) = 1" and "0 < pd_qset p" "pd_qset p < 1000" and "al 0 = None"
  shows "scullp_write al False left p buf (PAGE_SIZE * pd_qset p) = Oops NullDeref"
proof -
  let ?z = "PAGE_SIZE * pd_qset p"
  have z: "0 < ?z" "?z < 2 ^ 31" "s32 ?z = ?z" using assms(3,4) by (auto simp: PAGE_SIZE_def width_simps)
  have dm: "c_div 64 ?z ?z = Done 1" "c_mod 64 ?z ?z = Done 0"
    using c_div_nonneg [of ?z ?z 64] c_mod_nonneg [of ?z ?z 64] z(1,2) assms(3)
    by (simp_all add: PAGE_SIZE_def)
  have "scull_locate PAGE_SIZE (pd_qset p) ?z = Done (1, 0, 0)"
    unfolding scull_locate_def Let_def z(3) dm kbind.simps
    by (simp add: width_simps PAGE_SIZE_def)
  moreover obtain i where "pd_items p = [i]" using assms(2) by (auto simp: length_Suc_conv)
  ultimately show ?thesis using assms(1,5) by (simp add: scullp_write_def scullp_follow_def Let_def width_simps)
qed

text \<open>
  The iterator of an asynchronous request is never stored in the deferred work, which therefore works on
  an uninitialised pointer whenever it runs.
\<close>

theorem scull_deferred_wild:
  assumes "scull_read_iter rd mem garbage False iocb to = Queued w \<or> scull_write_iter wr mem garbage False iocb to = Queued w"
  shows "scull_do_deferred_op dir wr' rd' w = Oops NullDeref"
  using assms
  by (auto simp: scull_read_iter_def scull_write_iter_def scull_defer_op_def scull_do_deferred_op_def split: option.splits)

section \<open>Witnesses\<close>

definition al_ex :: page_alloc where
  "al_ex k = Some (500 + k)"

definition pdev_ex :: scullp_dev where
  "pdev_ex = \<lparr>pd_items = [\<lparr>pi_addr = 1, pi_data = None, pi_order = 0\<rparr>], pd_vmas = 0, pd_qset = 2, pd_size = 0, pd_mutex = False\<rparr>"

lemma pdev_ex_ok [simp]: "order0 pdev_ex" "scull_wf (as_scull pdev_ex)" "alloc_total al_ex"
  "0 \<le> f \<Longrightarrow> f < 1000 \<Longrightarrow> pos_ok (as_scull pdev_ex) f"
  by (auto simp: pdev_ex_def order0_def as_scull_def as_qset_def scull_wf_def wf_qset_def al_ex_def alloc_total_def
    pos_ok_def PAGE_SIZE_def)

theorem scullp_refines_scull_witness:
  "scull_write (as_kmalloc al_ex) False 0 (as_scull pdev_ex) [1, 2] 0 = lift_write (scullp_write al_ex False 0 pdev_ex [1, 2] 0) \<and>
   (\<exists>p'. scullp_read al_ex False 0 pdev_ex 5 0 = Done (p', 0, Inr 0, []) \<and> length (pd_items p') = 1)"
proof -
  have "pd_size pdev_ex = 0" "length (pd_items pdev_ex) = 1" by (simp_all add: pdev_ex_def)
  then show ?thesis using scullp_refines_scull [of al_ex pdev_ex False 0 "[1, 2]" 0 5] by auto
qed

theorem scullp_roundtrip_witness:
  "\<exists>p'. write_all (scullp_write al_ex False 0) 3 pdev_ex [1, 2, 3] 7 = Some (p', 10) \<and>
     read_all (scullp_read al_ex False 0) 3 p' 3 7 = Some [1, 2, 3]"
  using scullp_roundtrip [of pdev_ex 7 "[1, 2, 3]" al_ex]
  by (simp del: write_all.simps read_all.simps add: numeral_eq_Suc)

theorem scullp_order_overflow_witness:
  "scullp_write al_ex False 0 (pdev_ex\<lparr>pd_items := [\<lparr>pi_addr = 1, pi_data = None, pi_order = 1\<rparr>], pd_qset := 1\<rparr>) [9] (8192 + 4096)
     = Oops OutOfBounds"
  by (rule scullp_order_overflow) simp_all

theorem scullp_follow_null_witness:
  "scullp_write (\<lambda>k. None) False 0 pdev_ex [9] (PAGE_SIZE * pd_qset pdev_ex) = Oops NullDeref"
  by (rule scullp_follow_null) (simp, simp_all add: pdev_ex_def)

theorem scull_deferred_wild_witness:
  "\<exists>w. scull_read_iter (\<lambda>i t. i) (Some 3) 0 False 10 20 = Queued w \<and>
     scull_do_deferred_op (\<lambda>_. False) (\<lambda>i t. i) (\<lambda>i t. i) w = Oops NullDeref"
proof -
  obtain w where w: "scull_read_iter (\<lambda>i t. i) (Some 3) 0 False 10 20 = Queued w"
    by (simp add: scull_read_iter_def scull_defer_op_def)
  with scull_deferred_wild [OF disjI1, OF w] show ?thesis by blast
qed

section \<open>Loading and unloading\<close>

record scullp_module =
  pm_params :: scullp_params
  pm_major :: int
  pm_nr_devs :: int
  pm_devices :: "scullp_dev list owned"

definition scullp_setup_cdev :: "init_env \<Rightarrow> scullp_module \<Rightarrow> nat \<Rightarrow> kcall list" where
  "scullp_setup_cdev e m index = [cdev_add e (MainCdev index) (MKDEV (pm_major m) (int index))]"

definition scullp_new_dev :: "scullp_params \<Rightarrow> addr \<Rightarrow> scullp_dev" where
  "scullp_new_dev g a =
     \<lparr>pd_items = [\<lparr>pi_addr = a, pi_data = None, pi_order = scullp_order g\<rparr>], pd_vmas = 0,
      pd_qset = scullp_qset g, pd_size = 0, pd_mutex = False\<rparr>"

text \<open>The devices lie in one array: the structure with index \<open>i\<close> has address \<open>a + i\<close>.\<close>

definition scullp_init :: "init_env \<Rightarrow> scullp_module \<Rightarrow> scullp_module \<times> unit ret \<times> kcall list" where
  "scullp_init e m =
     (case (if pm_major m \<noteq> 0
            then (case region_result e (MKDEV (pm_major m) 0) (pm_nr_devs m) of None \<Rightarrow> (m, Inr ()) | Some x \<Rightarrow> (m, Inl x))
            else (case alloc_major e of Inr ma \<Rightarrow> (m\<lparr>pm_major := ma\<rparr>, Inr ()) | Inl x \<Rightarrow> (m, Inl x))) of
        (m, Inl x) \<Rightarrow> (m, Inl x, [])
      | (m, Inr _) \<Rightarrow>
          let t0 = RegisterRegion (MKDEV (pm_major m) 0) (pm_nr_devs m) in
          (case main_array e of
             None \<Rightarrow> (m\<lparr>pm_devices := None\<rparr>, Inl ENOMEM, [t0, UnregisterRegion (MKDEV (pm_major m) 0) (pm_nr_devs m)])
           | Some a \<Rightarrow>
               (m\<lparr>pm_devices := Some (a, map (\<lambda>i. scullp_new_dev (pm_params m) (a + i)) [0..<nat (pm_nr_devs m)])\<rparr>,
                Inr (), t0 # concat (map (scullp_setup_cdev e m) [0..<nat (pm_nr_devs m)]))))"

fun scullp_clean :: "scullp_params \<Rightarrow> nat \<Rightarrow> scullp_dev list \<Rightarrow> kcall list exec" where
  "scullp_clean g i [] = Done []"
| "scullp_clean g i (p # ps) =
     kbind (scullp_trim g p) (\<lambda>(p, r, freed).
     kbind (scullp_clean g (Suc i) ps) (\<lambda>t. Done (CdevDel (MainCdev i) # map Kfree freed @ t)))"

definition scullp_cleanup :: "scullp_module \<Rightarrow> kcall list exec" where
  "scullp_cleanup m =
     (case pm_devices m of
        None \<Rightarrow> Oops NullDeref
      | Some (a, ps) \<Rightarrow>
          kbind (scullp_clean (pm_params m) 0 ps) (\<lambda>t.
            Done (t @ [Kfree a, UnregisterRegion (MKDEV (pm_major m) 0) (pm_nr_devs m)])))"

text \<open>What a device owns besides its own structure, which is part of the array.\<close>

definition scullp_blocks :: "scullp_dev \<Rightarrow> addr list" where
  "scullp_blocks p =
     (case pd_items p of
        [] \<Rightarrow> []
      | i # is \<Rightarrow>
          (case pi_data i of None \<Rightarrow> [] | Some (a, arr) \<Rightarrow> concat (map owned_addr arr) @ [a]) @
          concat (map (\<lambda>i. item_blocks (as_qset i)) is))"

lemma scullp_trim_items_blocks:
  assumes "\<forall>i \<in> set items. wf_qset quantum qset (as_qset i)"
  shows "scullp_trim_items qset False items = Done (concat (map (\<lambda>i. item_blocks (as_qset i)) items))"
  using assms
  by (induction items) (auto simp: wf_qset_def free_quanta_def item_blocks_def as_qset_def split: option.splits)

lemma scullp_trim_blocks:
  assumes "scull_wf (as_scull p)" and "pd_vmas p = 0"
  shows "\<exists>p'. scullp_trim g p = Done (p', Inr (), scullp_blocks p)"
proof (cases "pd_items p")
  case Nil
  then show ?thesis using assms(2) by (simp add: scullp_trim_def scullp_blocks_def)
next
  case (Cons i "is")
  have "\<forall>i \<in> set (pd_items p). wf_qset PAGE_SIZE (pd_qset p) (as_qset i)"
    using assms(1) by (auto simp: scull_wf_def as_scull_def)
  then have "wf_qset PAGE_SIZE (pd_qset p) (as_qset i)" "\<forall>i \<in> set is. wf_qset PAGE_SIZE (pd_qset p) (as_qset i)"
    using Cons by simp_all
  then show ?thesis using assms(2) Cons scullp_trim_items_blocks
    by (auto simp: scullp_trim_def scullp_blocks_def wf_qset_def free_quanta_def split: option.splits)
qed

lemma scullp_clean_trace:
  assumes "\<forall>p \<in> set ps. scull_wf (as_scull p) \<and> pd_vmas p = 0"
  shows "\<exists>t. scullp_clean g i ps = Done t \<and> select sel_free t = concat (map scullp_blocks ps) \<and>
    select sel_del t = map MainCdev [i..<i + length ps] \<and> select sel_unreg t = []"
  using assms
proof (induction ps arbitrary: i)
  case (Cons p ps)
  obtain p' where p': "scullp_trim g p = Done (p', Inr (), scullp_blocks p)" using scullp_trim_blocks Cons.prems by force
  from Cons.IH [of "Suc i"] Cons.prems obtain t where
    "scullp_clean g (Suc i) ps = Done t" "select sel_free t = concat (map scullp_blocks ps)"
    "select sel_del t = map MainCdev [Suc i..<Suc i + length ps]" "select sel_unreg t = []" by auto
  moreover have "[i..<i + length (p # ps)] = i # [Suc i..<Suc i + length ps]" by (simp add: upt_conv_Cons del: upt_Suc)
  ultimately show ?case using p' by (simp del: upt_Suc)
qed simp

text \<open>
  Loading and unloading scullp balance, on the failure path of the initialisation too; unloading a module
  whose devices are not mapped deletes the devices that loading has tried to add, and frees every page, array
  and item of every device.
\<close>

theorem scullp_module_balanced:
  assumes "scullp_init e m = (m', r, t)" and "pm_devices m = None" and "0 \<le> pm_nr_devs m"
  shows "case r of
      Inl x \<Rightarrow> select sel_unreg t = select sel_reg t \<and> select sel_tried t = []
    | Inr u \<Rightarrow> (\<forall>a ps ps'. pm_devices m' = Some (a, ps) \<longrightarrow> length ps' = length ps \<longrightarrow>
        (\<forall>p \<in> set ps'. scull_wf (as_scull p) \<and> pd_vmas p = 0) \<longrightarrow>
        (\<exists>t'. scullp_cleanup (m'\<lparr>pm_devices := Some (a, ps')\<rparr>) = Done t' \<and> select sel_unreg t' = select sel_reg t \<and>
          select sel_del t' = map fst (select sel_tried t) \<and> select sel_free t' = concat (map scullp_blocks ps') @ [a]))"
proof (cases r)
  case (Inl x)
  then show ?thesis using assms(1)
    by (auto simp: scullp_init_def Let_def split: if_splits option.splits sum.splits)
next
  case (Inr u)
  have s: "scullp_setup_cdev e x = (\<lambda>i. [cdev_add e (MainCdev i) (MKDEV (pm_major x) (int i))])" for x
    by (simp add: fun_eq_iff scullp_setup_cdev_def)
  from Inr assms(1) obtain a where m': "pm_devices m' = Some (a, map (\<lambda>i. scullp_new_dev (pm_params m') (a + i)) [0..<nat (pm_nr_devs m')])"
    and t: "t = RegisterRegion (MKDEV (pm_major m') 0) (pm_nr_devs m') # concat (map (scullp_setup_cdev e m') [0..<nat (pm_nr_devs m')])"
    by (auto simp: scullp_init_def Let_def s split: if_splits option.splits sum.splits)
  have "\<exists>t'. scullp_cleanup (m'\<lparr>pm_devices := Some (b, ps')\<rparr>) = Done t' \<and> select sel_unreg t' = select sel_reg t \<and>
      select sel_del t' = map fst (select sel_tried t) \<and> select sel_free t' = concat (map scullp_blocks ps') @ [b]"
    if "length ps' = nat (pm_nr_devs m')" "\<forall>p \<in> set ps'. scull_wf (as_scull p) \<and> pd_vmas p = 0" for b ps'
    using scullp_clean_trace [OF that(2), of "pm_params m'" 0] that(1)
    by (auto simp: scullp_cleanup_def t s o_def)
  then show ?thesis using Inr m' by auto
qed

end
