(* ===== verification/Scullp_System.thy ===== *)
theory Scullp_System
  imports Scullp
begin

text \<open>
  The scullp driver as its users meet it: its tables of file and mapping operations (\<^verbatim>\<open>ldd/scullp/main.c\<close>,
  \<^verbatim>\<open>ldd/scullp/mmap.c\<close>), all its devices, the open files, and the mappings with the entries that the page faults
  have put into the page tables. Processes work on the devices with system calls and with loads and stores
  through their mappings, in any order. Each step says whether it was within the limits of the code: order 0 when
  an open empties the device, memory at hand, positions and addresses in range. Shown are that no entry of a page table ever
  outlives the page it leads to, and that what the processes see within the limits is what a map of bytes per
  device would show them. A mapping is shared and closed as a whole: private copies of pages and the splitting of a mapping are
  not modelled.
\<close>

section \<open>The tables of operations\<close>

record scullp_file_operations =
  pf_llseek :: "scullp_dev \<Rightarrow> int \<Rightarrow> int \<Rightarrow> int \<Rightarrow> int \<times> int ret"
  pf_read :: "page_alloc \<Rightarrow> bool \<Rightarrow> nat \<Rightarrow> scullp_dev \<Rightarrow> int \<Rightarrow> int \<Rightarrow> (scullp_dev \<times> int \<times> int ret \<times> byte list) exec"
  pf_write :: "page_alloc \<Rightarrow> bool \<Rightarrow> nat \<Rightarrow> scullp_dev \<Rightarrow> byte list \<Rightarrow> int \<Rightarrow> (scullp_dev \<times> int \<times> int ret) exec"
  pf_ioctl :: "ioctl_env \<Rightarrow> scullp_params \<Rightarrow> ioc \<Rightarrow> int \<Rightarrow> scullp_params \<times> int ret \<times> int option"
  pf_mmap :: "scullp_dev \<Rightarrow> scullp_dev \<times> unit ret"
  pf_open :: "scullp_params \<Rightarrow> bool \<Rightarrow> scullp_dev \<Rightarrow> int \<Rightarrow> (scullp_dev \<times> unit ret \<times> addr list) exec"
  pf_release :: "scullp_dev \<Rightarrow> scullp_dev \<times> unit ret"

definition scullp_fops :: scullp_file_operations where
  "scullp_fops =
     \<lparr>pf_llseek = scullp_llseek, pf_read = scullp_read, pf_write = scullp_write, pf_ioctl = scullp_ioctl,
      pf_mmap = scullp_mmap, pf_open = scullp_open, pf_release = scullp_release\<rparr>"

record scullp_vm_operations =
  vo_open :: "scullp_dev \<Rightarrow> scullp_dev"
  vo_close :: "scullp_dev \<Rightarrow> scullp_dev"
  vo_fault :: "scullp_dev \<Rightarrow> int \<Rightarrow> int \<Rightarrow> int \<Rightarrow> byte list owned exec"

definition scullp_vm_ops :: scullp_vm_operations where
  "scullp_vm_ops = \<lparr>vo_open = scullp_vma_open, vo_close = scullp_vma_close, vo_fault = scullp_vma_nopage\<rparr>"

lemmas scullp_ops_defs = scullp_fops_def scullp_vm_ops_def

section \<open>The state\<close>

text \<open>
  An open file and a mapping lead to their device through \<open>private_data\<close>, here the index of the device. The page
  table entries of a mapping are by the number of the page on the device; an entry is the address of a page.
\<close>

record scullp_file =
  sf_dev :: nat
  sf_flags :: int
  sf_pos :: int

record scullp_vma =
  va_dev :: nat
  va_start :: int
  va_end :: int
  va_pgoff :: int
  va_pte :: "nat \<rightharpoonup> addr"

record scullp_state =
  ps_params :: scullp_params
  ps_devs :: "scullp_dev list"
  ps_files :: "nat \<rightharpoonup> scullp_file"
  ps_vmas :: "nat \<rightharpoonup> scullp_vma"

definition put_pdev :: "nat \<Rightarrow> scullp_dev \<Rightarrow> scullp_state \<Rightarrow> scullp_state" where
  "put_pdev i p s = s\<lparr>ps_devs := (ps_devs s)[i := p]\<rparr>"

definition put_file :: "nat \<Rightarrow> scullp_file option \<Rightarrow> scullp_state \<Rightarrow> scullp_state" where
  "put_file fd f s = s\<lparr>ps_files := (ps_files s)(fd := f)\<rparr>"

definition put_vma :: "nat \<Rightarrow> scullp_vma option \<Rightarrow> scullp_state \<Rightarrow> scullp_state" where
  "put_vma v a s = s\<lparr>ps_vmas := (ps_vmas s)(v := a)\<rparr>"

text \<open>The device after a store of the machine into one of its pages.\<close>

definition store_page :: "scullp_dev \<Rightarrow> nat \<Rightarrow> addr \<Rightarrow> byte list \<Rightarrow> scullp_dev" where
  "store_page p n b mem =
     (let i = n div nat (pd_qset p); s = n mod nat (pd_qset p) in
      case pi_data (pd_items p ! i) of
        None \<Rightarrow> p
      | Some (a, arr) \<Rightarrow> set_item p i (Some (a, arr[s := Some (b, mem)])))"

text \<open>The offset on the device of an address in a mapping.\<close>

definition va_offset :: "scullp_vma \<Rightarrow> int \<Rightarrow> int" where
  "va_offset a adr = adr - va_start a + va_pgoff a * PAGE_SIZE"

definition va_ok :: "scullp_vma \<Rightarrow> bool" where
  "va_ok a \<longleftrightarrow> va_start a \<le> va_end a \<and> 0 \<le> va_pgoff a \<and> va_offset a (va_end a) < 2 ^ 63"

section \<open>The steps\<close>

text \<open>
  What can be observed: an event on a device, or an access through an entry of a page table that does not
  lead to the page of the device at that offset any more.
\<close>

datatype scullp_event = OnScullp nat store_event | Stray

definition scullp_geometry :: "scullp_params \<Rightarrow> bool" where
  "scullp_geometry g \<longleftrightarrow> scullp_order g = 0 \<and> 0 < scullp_qset g \<and> PAGE_SIZE * scullp_qset g < 2 ^ 31"

definition O_RDONLY :: int where
  "O_RDONLY = 0"

text \<open>
  The steps: the system calls on an open file, in the mode of the file and with any arguments, one at a
  time; mapping (shared), the copy of a mapping in a new process, and unmapping; a page fault; and the
  accesses of the machine through an entry of a page table. The label of a step says whether the step was made
  within the limits that the driver relies on, and what was observed. The limits: an open that empties its device
  finds the order at 0 and the quantum set in range; reads and writes are made at positions in range and with
  memory at hand; a mapping covers offsets below \<open>2 ^ 63\<close>, and there are at most \<open>MAX_VMAS\<close> mappings, so that
  their counters stay within their type. The code checks none of this.
\<close>

definition MAX_VMAS :: nat where "MAX_VMAS = 2 ^ 31 - 1"

inductive scullp_step :: "scullp_state \<Rightarrow> bool \<times> scullp_event \<Rightarrow> scullp_state \<Rightarrow> bool" where
  sys_open: "i < length (ps_devs s) \<Longrightarrow> ps_files s fd = None \<Longrightarrow>
    pf_open scullp_fops (ps_params s) intr (ps_devs s ! i) flags = Done (p', r, freed) \<Longrightarrow>
    scullp_step s
      (empties flags \<longrightarrow> scullp_geometry (ps_params s), OnScullp i (if flags AND O_ACCMODE = O_WRONLY \<and> \<not> intr \<and> pd_vmas (ps_devs s ! i) = 0 then Truncated else Silent))
      (put_file fd (case r of Inl e \<Rightarrow> None | Inr u \<Rightarrow> Some \<lparr>sf_dev = i, sf_flags = flags, sf_pos = 0\<rparr>) (put_pdev i p' s))"
| sys_release: "ps_files s fd = Some f \<Longrightarrow> pf_release scullp_fops (ps_devs s ! sf_dev f) = (p', r) \<Longrightarrow>
    scullp_step s (True, OnScullp (sf_dev f) Silent) (put_file fd None (put_pdev (sf_dev f) p' s))"
| sys_read: "ps_files s fd = Some f \<Longrightarrow> sf_flags f AND O_ACCMODE \<noteq> O_WRONLY \<Longrightarrow> 0 \<le> c \<Longrightarrow> c < 2 ^ 63 \<Longrightarrow>
    pf_read scullp_fops al intr left (ps_devs s ! sf_dev f) c (sf_pos f) = Done (p', pos', r, bs) \<Longrightarrow>
    scullp_step s (alloc_total al \<and> pos_ok (as_scull (ps_devs s ! sf_dev f)) (sf_pos f), OnScullp (sf_dev f) (Fetched (sf_pos f) bs))
      (put_file fd (Some (f\<lparr>sf_pos := pos'\<rparr>)) (put_pdev (sf_dev f) p' s))"
| sys_write: "ps_files s fd = Some f \<Longrightarrow> sf_flags f AND O_ACCMODE \<noteq> O_RDONLY \<Longrightarrow>
    pf_write scullp_fops al intr left (ps_devs s ! sf_dev f) buf (sf_pos f) = Done (p', pos', r) \<Longrightarrow>
    scullp_step s (alloc_total al \<and> pos_ok (as_scull (ps_devs s ! sf_dev f)) (sf_pos f),
      OnScullp (sf_dev f) (write_event (as_scull (ps_devs s ! sf_dev f)) buf (sf_pos f) r))
      (put_file fd (Some (f\<lparr>sf_pos := pos'\<rparr>)) (put_pdev (sf_dev f) p' s))"
| sys_llseek: "ps_files s fd = Some f \<Longrightarrow>
    pf_llseek scullp_fops (ps_devs s ! sf_dev f) (sf_pos f) off whence = (pos', r) \<Longrightarrow>
    scullp_step s (True, OnScullp (sf_dev f) Silent) (put_file fd (Some (f\<lparr>sf_pos := pos'\<rparr>)) s)"
| sys_ioctl: "ps_files s fd = Some f \<Longrightarrow> pf_ioctl scullp_fops e (ps_params s) cmd arg = (g', r, w) \<Longrightarrow>
    scullp_step s (True, OnScullp (sf_dev f) Silent) (s\<lparr>ps_params := g'\<rparr>)"
| sys_mmap: "ps_files s fd = Some f \<Longrightarrow> ps_vmas s v = None \<Longrightarrow>
    va_dev a = sf_dev f \<Longrightarrow> va_pte a = Map.empty \<Longrightarrow> pf_mmap scullp_fops (ps_devs s ! sf_dev f) = (p', r) \<Longrightarrow>
    scullp_step s (card (dom (ps_vmas s)) < MAX_VMAS \<and> va_ok a, OnScullp (sf_dev f) Silent)
      (put_vma v (case r of Inl e \<Rightarrow> None | Inr u \<Rightarrow> Some a) (put_pdev (sf_dev f) p' s))"
| vma_fork: "ps_vmas s v = Some a \<Longrightarrow> ps_vmas s v' = None \<Longrightarrow>
    scullp_step s (card (dom (ps_vmas s)) < MAX_VMAS, OnScullp (va_dev a) Silent)
      (put_vma v' (Some a) (put_pdev (va_dev a) (vo_open scullp_vm_ops (ps_devs s ! va_dev a)) s))"
| vma_unmap: "ps_vmas s v = Some a \<Longrightarrow>
    scullp_step s (True, OnScullp (va_dev a) Silent)
      (put_vma v None (put_pdev (va_dev a) (vo_close scullp_vm_ops (ps_devs s ! va_dev a)) s))"
| vma_fault: "ps_vmas s v = Some a \<Longrightarrow> va_start a \<le> adr \<Longrightarrow> adr < va_end a \<Longrightarrow> n = nat (va_offset a adr div PAGE_SIZE) \<Longrightarrow>
    va_pte a n = None \<Longrightarrow> vo_fault scullp_vm_ops (ps_devs s ! va_dev a) adr (va_start a) (va_pgoff a) = Done pg \<Longrightarrow>
    scullp_step s (True, OnScullp (va_dev a) Silent) (put_vma v (Some (a\<lparr>va_pte := (va_pte a)(n := map_option fst pg)\<rparr>)) s)"
| vma_load: "ps_vmas s v = Some a \<Longrightarrow> va_start a \<le> adr \<Longrightarrow> adr < va_end a \<Longrightarrow> n = nat (va_offset a adr div PAGE_SIZE) \<Longrightarrow>
    va_pte a n = Some b \<Longrightarrow>
    scullp_step s
      (True, case scullp_page (ps_devs s ! va_dev a) n of
         None \<Rightarrow> Stray
       | Some (b', mem) \<Rightarrow>
           if b' = b then OnScullp (va_dev a) (Fetched (va_offset a adr) [mem ! nat (va_offset a adr mod PAGE_SIZE)]) else Stray) s"
| vma_store: "ps_vmas s v = Some a \<Longrightarrow> va_start a \<le> adr \<Longrightarrow> adr < va_end a \<Longrightarrow> n = nat (va_offset a adr div PAGE_SIZE) \<Longrightarrow>
    va_pte a n = Some b \<Longrightarrow>
    (case scullp_page (ps_devs s ! va_dev a) n of
       None \<Rightarrow> (Stray, s)
     | Some (b', mem) \<Rightarrow>
         if b' = b
         then (OnScullp (va_dev a) (Wrote (va_offset a adr) [x]),
               put_pdev (va_dev a) (store_page (ps_devs s ! va_dev a) n b (mem[nat (va_offset a adr mod PAGE_SIZE) := x])) s)
         else (Stray, s)) = (e, s') \<Longrightarrow>
    scullp_step s (True, e) s'"

inductive scullp_run :: "scullp_state \<Rightarrow> (bool \<times> scullp_event) list \<Rightarrow> scullp_state \<Rightarrow> bool" where
  prun_nil: "scullp_run s [] s"
| prun_snoc: "scullp_run s es s1 \<Longrightarrow> scullp_step s1 e s2 \<Longrightarrow> scullp_run s (es @ [e]) s2"

text \<open>The specification: the map of bytes of each device; no access goes astray.\<close>

fun devs_step :: "(nat \<Rightarrow> int \<Rightarrow> byte option) \<Rightarrow> scullp_event \<Rightarrow> nat \<Rightarrow> int \<Rightarrow> byte option" where
  "devs_step A (OnScullp i e) = A(i := spec_step (A i) e)"
| "devs_step A Stray = A"

fun devs_allow :: "(nat \<Rightarrow> int \<Rightarrow> byte option) \<Rightarrow> scullp_event \<Rightarrow> bool" where
  "devs_allow A (OnScullp i e) \<longleftrightarrow> spec_allows (A i) e"
| "devs_allow A Stray \<longleftrightarrow> False"

fun devs_accept :: "(nat \<Rightarrow> int \<Rightarrow> byte option) \<Rightarrow> scullp_event list \<Rightarrow> bool" where
  "devs_accept A [] \<longleftrightarrow> True"
| "devs_accept A (e # es) \<longleftrightarrow> devs_allow A e \<and> devs_accept (devs_step A e) es"

lemma devs_accept_append:
  "devs_accept A (es @ [e]) \<longleftrightarrow> devs_accept A es \<and> devs_allow (foldl devs_step A es) e"
  by (induction es arbitrary: A) auto

section \<open>The invariant\<close>

definition vmas_of :: "scullp_state \<Rightarrow> nat \<Rightarrow> nat set" where
  "vmas_of s i = {v. \<exists>a. ps_vmas s v = Some a \<and> va_dev a = i}"

definition pdev_ok :: "scullp_dev \<Rightarrow> bool" where
  "pdev_ok p \<longleftrightarrow> order0 p \<and> scull_wf (as_scull p) \<and> \<not> pd_mutex p"

definition pte_ok :: "scullp_dev \<Rightarrow> (nat \<rightharpoonup> addr) \<Rightarrow> bool" where
  "pte_ok p pte \<longleftrightarrow> (\<forall>n b. pte n = Some b \<longrightarrow> (\<exists>mem. scullp_page p n = Some (b, mem)))"

definition scullp_inv :: "scullp_state \<Rightarrow> bool" where
  "scullp_inv s \<longleftrightarrow>
     finite (dom (ps_vmas s)) \<and> card (dom (ps_vmas s)) \<le> MAX_VMAS \<and>
     (\<forall>fd f. ps_files s fd = Some f \<longrightarrow> sf_dev f < length (ps_devs s)) \<and>
     (\<forall>v a. ps_vmas s v = Some a \<longrightarrow> va_dev a < length (ps_devs s) \<and> va_ok a \<and> pte_ok (ps_devs s ! va_dev a) (va_pte a)) \<and>
     (\<forall>i < length (ps_devs s). pdev_ok (ps_devs s ! i) \<and> pd_vmas (ps_devs s ! i) = int (card (vmas_of s i)))"

section \<open>The pages of a device\<close>

lemma scullp_page_fields [simp]:
  "scullp_page (p_up p) = scullp_page p" "scullp_page (p\<lparr>pd_size := z\<rparr>) = scullp_page p"
  "scullp_page (p\<lparr>pd_mutex := m\<rparr>) = scullp_page p" "scullp_page (p\<lparr>pd_vmas := c\<rparr>) = scullp_page p"
  by (simp_all add: fun_eq_iff scullp_page_def p_up_def Let_def)

lemma p_up_fields [simp]:
  "pd_vmas (p_up p) = pd_vmas p" "pd_qset (p_up p) = pd_qset p" "pd_size (p_up p) = pd_size p" "\<not> pd_mutex (p_up p)"
  by (simp_all add: p_up_def)

lemma set_item_fields [simp]:
  "pd_vmas (set_item p n d) = pd_vmas p" "pd_qset (set_item p n d) = pd_qset p" "pd_size (set_item p n d) = pd_size p"
  "pd_mutex (set_item p n d) = pd_mutex p"
  by (simp_all add: set_item_def)

lemma scullp_page_set_item:
  assumes "i < length (pd_items p)"
  shows "scullp_page (set_item p i (Some (a, arr))) n =
    (if n div nat (pd_qset p) = i
     then (if n mod nat (pd_qset p) < length arr then arr ! (n mod nat (pd_qset p)) else None) else scullp_page p n)"
  using assms by (auto simp: scullp_page_def Let_def) (simp_all add: set_item_def)

text \<open>The pages of a device stay where they are, whatever is written into them.\<close>

definition keeps :: "scullp_dev \<Rightarrow> scullp_dev \<Rightarrow> bool" where
  "keeps p p' \<longleftrightarrow> pd_vmas p' = pd_vmas p \<and> pd_qset p' = pd_qset p \<and>
     (\<forall>n b mem. scullp_page p n = Some (b, mem) \<longrightarrow> (\<exists>mem'. scullp_page p' n = Some (b, mem')))"

lemma keeps_refl [simp]: "keeps p p"
  by (simp add: keeps_def)

lemma follow_items_extends:
  "scullp_follow_items al k items n = Done (items', k') \<Longrightarrow>
     length items \<le> length items' \<and> take (length items) items' = items \<and>
     (\<forall>j. length items \<le> j \<and> j < length items' \<longrightarrow> pi_data (items' ! j) = None)"
proof (induction al k items n arbitrary: items' k' rule: scullp_follow_items.induct)
  case (3 al k i n)
  from 3(2) obtain a r where a: "al k = Some a" "items' = i # r"
    "scullp_follow_items al (Suc k) [\<lparr>pi_addr = a, pi_data = None, pi_order = 0\<rparr>] n = Done (r, k')"
    by (auto simp: kbind_eq_Done split: option.splits)
  from 3(1) [OF a(1,3)] have r: "1 \<le> length r" "take 1 r = [\<lparr>pi_addr = a, pi_data = None, pi_order = 0\<rparr>]"
    "\<And>j. 1 \<le> j \<Longrightarrow> j < length r \<Longrightarrow> pi_data (r ! j) = None" by auto
  have "pi_data (r ! j) = None" if "j < length r" for j
    using r(3) [of j] r(1,2) that by (cases j) (auto simp: take_Suc_conv_app_nth)
  then show ?case using a(2) r(1) by (auto simp: nth_Cons split: nat.splits)
next
  case (4 al k i i' "is" n)
  from 4(2) obtain r where r: "items' = i # r" "scullp_follow_items al k (i' # is) n = Done (r, k')"
    by (auto simp: kbind_eq_Done)
  then show ?case using 4(1) [OF r(2)] by (auto simp: nth_Cons split: nat.splits)
qed auto

lemma scullp_follow_page:
  assumes "scullp_follow al p i = Done (p1, k, n)"
  shows "scullp_page p1 = scullp_page p" "pd_vmas p1 = pd_vmas p" "pd_qset p1 = pd_qset p"
proof -
  from assms obtain items k' where f: "scullp_follow_items al 0 (pd_items p) (nat (u32 i)) = Done (items, k')"
    and p1: "p1 = p\<lparr>pd_items := items\<rparr>" by (auto simp: scullp_follow_def Let_def kbind_eq_Done)
  note e = follow_items_extends [OF f]
  have "items ! j = pd_items p ! j" if "j < length (pd_items p)" for j using e that by (metis nth_take)
  then show "scullp_page p1 = scullp_page p"
    using e p1 by (auto simp: fun_eq_iff scullp_page_def Let_def not_less)
  show "pd_vmas p1 = pd_vmas p" "pd_qset p1 = pd_qset p" using p1 by simp_all
qed

lemma scullp_write_keeps:
  assumes "alloc_total al" and "order0 p" and "scullp_write al intr left p buf f = Done (p', f', r)"
  shows "keeps p p'"
proof (rule scullp_write_rule [OF assms, of "keeps p"])
  fix i p1 k n assume "scullp_follow al (p\<lparr>pd_mutex := True\<rparr>) i = Done (p1, k, n)"
  from scullp_follow_page [OF this] show "keeps p p1" by (simp add: keeps_def)
next
  fix q n a m assume q: "keeps p q" "n < length (pd_items q)" "pi_data (pd_items q ! n) = None"
  have "scullp_page q j = None" if "j div nat (pd_qset q) = n" for j using that q(3) by (simp add: scullp_page_def Let_def)
  then show "keeps p (set_item q n (Some (a, replicate m None)))"
    using q(1) by (fastforce simp: keeps_def scullp_page_set_item [OF q(2)])
next
  fix q n a arr s b mem mem'
  assume q: "keeps p q" "n < length (pd_items q)" "pi_data (pd_items q ! n) = Some (a, arr)" "s < length arr"
    "arr ! s \<in> {None, Some (b, mem)}"
  have "scullp_page q j = (if j mod nat (pd_qset q) < length arr then arr ! (j mod nat (pd_qset q)) else None)"
    if "j div nat (pd_qset q) = n" for j using that q(2,3) by (simp add: scullp_page_def Let_def)
  then have "\<exists>m'. scullp_page (set_item q n (Some (a, arr[s := Some (b, mem')]))) j = Some (c, m')" if "scullp_page q j = Some (c, m)" for j c m
    using that q(4,5) by (auto simp: scullp_page_set_item [OF q(2)] nth_list_update split: if_splits)
  then show "keeps p (set_item q n (Some (a, arr[s := Some (b, mem')])))"
    using q(1) by (fastforce simp: keeps_def)
qed (auto simp: keeps_def)

lemma scullp_write_refines:
  assumes "alloc_total al" and "pdev_ok p" and "pos_ok (as_scull p) f"
    and run: "scullp_write al intr left p buf f = Done (p', f', r)" and A: "A \<subseteq>\<^sub>m scull_byte (as_scull p)"
  shows "pdev_ok p'" "keeps p p'" "spec_step A (write_event (as_scull p) buf f r) \<subseteq>\<^sub>m scull_byte (as_scull p')"
proof -
  have p: "order0 p" "scull_wf (as_scull p)" "\<not> pd_mutex p" using assms(2) by (simp_all add: pdev_ok_def)
  have w: "scull_write (as_kmalloc al) intr left (as_scull p) buf f = Done (as_scull p', f', r)"
    using scullp_write_sim [OF assms(1) p(1)] run by simp
  note eff = scull_write_effect [OF p(2) assms(3) as_kmalloc_ok(1) w]
  have "\<not> pd_mutex p'"
  proof (cases intr)
    case True
    then show ?thesis using run p(3) by (simp add: scullp_write_def)
  next
    case False
    then show ?thesis using eff by simp
  qed
  then show "pdev_ok p'" using scullp_write_order0 [OF assms(1) p(1) run] eff by (simp add: pdev_ok_def)
  show "keeps p p'" by (rule scullp_write_keeps [OF assms(1) p(1) run])
  show "spec_step A (write_event (as_scull p) buf f r) \<subseteq>\<^sub>m scull_byte (as_scull p')"
    by (rule scull_write_refines [OF p(2) assms(3) as_kmalloc_ok(1) w A])
qed

lemma scullp_read_refines:
  assumes "alloc_total al" and "pdev_ok p" and "pos_ok (as_scull p) f" and c: "0 \<le> c" "c < 2 ^ 63"
    and run: "scullp_read al intr left p c f = Done (p', f', r, bs)"
  shows "pdev_ok p'" "keeps p p'" "scull_byte (as_scull p') = scull_byte (as_scull p)"
    "\<forall>i<length bs. scull_byte (as_scull p) (f + int i) = Some (bs ! i)"
proof -
  have p: "order0 p" "scull_wf (as_scull p)" "\<not> pd_mutex p" using assms(2) by (simp_all add: pdev_ok_def)
  have u: "u64 f = f" using pos_okD [OF p(2) assms(3)] by (simp add: width_simps PAGE_SIZE_def)
  have v: "same_view (as_scull p) (as_scull p') \<and> (\<forall>i<length bs. scull_byte (as_scull p) (f + int i) = Some (bs ! i))"
  proof (cases "intr \<or> pd_size p \<le> f")
    case True
    then show ?thesis
      using run scullp_read_end [OF assms(1) p(1,2) assms(3) _ c, of left] p(2)
      by (cases intr) (auto simp: scullp_read_def same_view_def)
  next
    case False
    then have "scull_read (as_kmalloc al) False left (as_scull p) c f = Done (as_scull p', f', r, bs)"
      using scullp_read_sim [OF assms(1) p(1), of f left c] run u by simp
    with scull_read_effect [OF p(2) assms(3) c, of "as_kmalloc al" False left] show ?thesis by auto
  qed
  then show "\<forall>i<length bs. scull_byte (as_scull p) (f + int i) = Some (bs ! i)" by blast
  show "scull_byte (as_scull p') = scull_byte (as_scull p)" using v scull_byte_same_view by blast
  have k: "\<not> pd_mutex p' \<and> keeps p p'"
    using scullp_read_result [OF p(1) run] by cases (use p(3) scullp_follow_page in \<open>auto simp: keeps_def\<close>)
  then show "keeps p p'" by blast
  show "pdev_ok p'" using v k scullp_read_order0 [OF assms(1) p(1) run] by (simp add: pdev_ok_def same_view_def)
qed

text \<open>A store of the machine into a page of the device.\<close>

lemma store_page_at:
  assumes "scullp_page p n = Some (b, mem)"
  obtains i a arr where "i = n div nat (pd_qset p)" "i < length (pd_items p)" "pi_data (pd_items p ! i) = Some (a, arr)"
    "n mod nat (pd_qset p) < length arr" "arr ! (n mod nat (pd_qset p)) = Some (b, mem)"
    "\<And>m. store_page p n b m = set_item p i (Some (a, arr[n mod nat (pd_qset p) := Some (b, m)]))"
  using assms that by (auto simp: scullp_page_def store_page_def Let_def split: if_splits option.splits)

lemma scullp_page_store:
  assumes "scullp_page p n = Some (b, mem)"
  shows "scullp_page (store_page p n b mem') = (scullp_page p)(n := Some (b, mem'))"
proof -
  from store_page_at [OF assms] obtain i a arr where i: "i = n div nat (pd_qset p)" "i < length (pd_items p)"
    "pi_data (pd_items p ! i) = Some (a, arr)" "n mod nat (pd_qset p) < length arr"
    "store_page p n b mem' = set_item p i (Some (a, arr[n mod nat (pd_qset p) := Some (b, mem')]))" by metis
  have "j div nat (pd_qset p) = n div nat (pd_qset p) \<Longrightarrow> j mod nat (pd_qset p) = n mod nat (pd_qset p) \<Longrightarrow> j = n" for j
    by (metis mult_div_mod_eq)
  moreover have "scullp_page p j = (if j mod nat (pd_qset p) < length arr then arr ! (j mod nat (pd_qset p)) else None)"
    if "j div nat (pd_qset p) = i" for j using that i(2,3) by (simp add: scullp_page_def Let_def)
  ultimately show ?thesis
    unfolding fun_eq_iff i(5) scullp_page_set_item [OF i(2)] using i(1,4) by (auto simp: nth_list_update)
qed

lemma store_page_wf:
  assumes "pdev_ok p" and "scullp_page p n = Some (b, mem)" and "length mem' = length mem"
  shows "pdev_ok (store_page p n b mem')" "length mem = nat PAGE_SIZE"
proof -
  let ?s = "n mod nat (pd_qset p)"
  from store_page_at [OF assms(2)] obtain i a arr where i: "i < length (pd_items p)"
    "pi_data (pd_items p ! i) = Some (a, arr)" "?s < length arr" "arr ! ?s = Some (b, mem)"
    "store_page p n b mem' = set_item p i (Some (a, arr[?s := Some (b, mem')]))" by metis
  have p: "order0 p" "scull_wf (as_scull p)" "\<not> pd_mutex p" using assms(1) by (simp_all add: pdev_ok_def)
  have wq: "int (length arr) = pd_qset p" "\<And>c m. Some (c, m) \<in> set arr \<Longrightarrow> int (length m) = PAGE_SIZE"
    using scull_wf_nth [OF p(2), of i] i(1,2) by (auto simp: wf_qset_def)
  have mem: "int (length mem) = PAGE_SIZE" using wq(2) [of b mem] i(3,4) by (metis nth_mem)
  then show "length mem = nat PAGE_SIZE" by simp
  have "wf_qset PAGE_SIZE (pd_qset p) ((as_qset (pd_items p ! i))\<lparr>qs_data := Some (a, arr[?s := Some (b, mem')])\<rparr>)"
    using wq mem assms(3) by (auto simp: wf_qset_def dest!: set_update_cases)
  then have "scull_wf (as_scull (store_page p n b mem'))"
    using p(2) i(1) by (auto simp: i(5) as_scull_set_item scull_wf_def dest!: set_update_cases)
  then show "pdev_ok (store_page p n b mem')" using p set_item_order0 [OF i(1)] by (simp add: pdev_ok_def i(5))
qed

lemma store_page_fields:
  assumes "scullp_page p n = Some (b, mem)"
  shows "keeps p (store_page p n b mem')" "pd_size (store_page p n b mem') = pd_size p"
proof -
  from store_page_at [OF assms] obtain i d where i: "store_page p n b mem' = set_item p i d" by metis
  then show "pd_size (store_page p n b mem') = pd_size p" by simp
  show "keeps p (store_page p n b mem')"
    using assms scullp_page_store [OF assms, of mem'] by (simp add: keeps_def i)
qed

lemma store_page_byte:
  assumes "pdev_ok p" and "scullp_page p n = Some (b, mem)" and "0 \<le> g" and "n = nat (g div PAGE_SIZE)"
  shows "scull_byte (as_scull p) g = Some (mem ! nat (g mod PAGE_SIZE))"
    and "scull_byte (as_scull (store_page p n b (mem[nat (g mod PAGE_SIZE) := x]))) = (scull_byte (as_scull p))(g \<mapsto> x)"
proof -
  show "scull_byte (as_scull p) g = Some (mem ! nat (g mod PAGE_SIZE))"
    using assms(2-4) by (simp add: scull_byte_def scull_block_page)
  have o: "nat (g mod PAGE_SIZE) < length mem" using store_page_wf(2) [OF assms(1,2) refl] by (simp add: PAGE_SIZE_def)
  have q: "q = g" if "nat (q div PAGE_SIZE) = n" "nat (q mod PAGE_SIZE) = nat (g mod PAGE_SIZE)" "0 \<le> q" for q
  proof -
    have "q div PAGE_SIZE = g div PAGE_SIZE" "q mod PAGE_SIZE = g mod PAGE_SIZE"
      using that assms(3,4) by (simp_all add: PAGE_SIZE_def eq_nat_nat_iff pos_imp_zdiv_nonneg_iff)
    then show ?thesis by (metis mult_div_mod_eq)
  qed
  show "scull_byte (as_scull (store_page p n b (mem[nat (g mod PAGE_SIZE) := x]))) = (scull_byte (as_scull p))(g \<mapsto> x)"
    unfolding fun_eq_iff scull_byte_def scull_block_page scullp_page_store [OF assms(2)] as_scull_simps
    using assms(2-4) o q by (auto simp: nth_list_update)
qed

section \<open>Every step keeps the invariant and is one of the specification\<close>

lemma pte_ok_keeps: "keeps p p' \<Longrightarrow> pte_ok p pte \<Longrightarrow> pte_ok p' pte"
  unfolding pte_ok_def keeps_def by metis

lemma put_simps [simp]:
  "ps_params (put_pdev i p s) = ps_params s" "ps_files (put_pdev i p s) = ps_files s" "ps_vmas (put_pdev i p s) = ps_vmas s"
  "ps_devs (put_pdev i p s) = (ps_devs s)[i := p]"
  "ps_params (put_file fd f s) = ps_params s" "ps_files (put_file fd f s) = (ps_files s)(fd := f)"
  "ps_vmas (put_file fd f s) = ps_vmas s" "ps_devs (put_file fd f s) = ps_devs s"
  "ps_params (put_vma v a s) = ps_params s" "ps_files (put_vma v a s) = ps_files s"
  "ps_vmas (put_vma v a s) = (ps_vmas s)(v := a)" "ps_devs (put_vma v a s) = ps_devs s"
  "vmas_of (put_pdev i p s) = vmas_of s" "vmas_of (put_file fd f s) = vmas_of s" "vmas_of (s\<lparr>ps_params := g\<rparr>) = vmas_of s"
  by (simp_all add: put_pdev_def put_file_def put_vma_def vmas_of_def fun_eq_iff)

lemma put_pdev_same [simp]: "put_pdev i (ps_devs s ! i) s = s"
  by (simp add: put_pdev_def)

lemma inv_put_pdev:
  assumes "scullp_inv s" and "i < length (ps_devs s)" and "pdev_ok p'" and "pd_vmas p' = pd_vmas (ps_devs s ! i)"
    and "\<And>v a. ps_vmas s v = Some a \<Longrightarrow> va_dev a = i \<Longrightarrow> pte_ok p' (va_pte a)"
  shows "scullp_inv (put_pdev i p' s)"
  using assms by (auto simp: scullp_inv_def nth_list_update)

lemma inv_put_pdev_keeps:
  assumes "scullp_inv s" and "i < length (ps_devs s)" and "pdev_ok p'" and "keeps (ps_devs s ! i) p'"
  shows "scullp_inv (put_pdev i p' s)"
proof (rule inv_put_pdev [OF assms(1-3)])
  fix v a assume "ps_vmas s v = Some a" "va_dev a = i"
  then show "pte_ok p' (va_pte a)" using assms(1) pte_ok_keeps [OF assms(4)] by (auto simp: scullp_inv_def)
qed (use assms(4) in \<open>simp add: keeps_def\<close>)

lemma inv_put_file:
  "scullp_inv s \<Longrightarrow> (\<And>x. f = Some x \<Longrightarrow> sf_dev x < length (ps_devs s)) \<Longrightarrow> scullp_inv (put_file fd f s)"
  by (auto simp: scullp_inv_def)

text \<open>The contents of the devices are at least those of the specification.\<close>

definition represents :: "(nat \<Rightarrow> int \<Rightarrow> byte option) \<Rightarrow> scullp_state \<Rightarrow> bool" where
  "represents A s \<longleftrightarrow> (\<forall>i < length (ps_devs s). A i \<subseteq>\<^sub>m scull_byte (as_scull (ps_devs s ! i)))"

lemma represents_put [simp]: "represents A (put_file fd f s) = represents A s" "represents A (put_vma v a s) = represents A s"
  "represents A (s\<lparr>ps_params := g\<rparr>) = represents A s"
  by (simp_all add: represents_def)

lemma represents_put_pdev:
  "represents A s \<Longrightarrow> (i < length (ps_devs s) \<Longrightarrow> B \<subseteq>\<^sub>m scull_byte (as_scull p)) \<Longrightarrow> represents (A(i := B)) (put_pdev i p s)"
  by (auto simp: represents_def nth_list_update)

text \<open>An open for writing empties a device only if nothing is mapped.\<close>

lemma scullp_open_effect:
  assumes "scullp_open g intr p flags = Done (p', r, freed)" and "pdev_ok p" and "empties flags \<longrightarrow> scullp_geometry g"
  shows "pdev_ok p'" "pd_vmas p' = pd_vmas p"
    "\<not> (flags AND O_ACCMODE = O_WRONLY \<and> \<not> intr \<and> pd_vmas p = 0) \<Longrightarrow>
      keeps p p' \<and> scull_byte (as_scull p') = scull_byte (as_scull p)"
proof -
  have p: "order0 p" "scull_wf (as_scull p)" "\<not> pd_mutex p" using assms(2) by (simp_all add: pdev_ok_def)
  let ?up = "p_up (p\<lparr>pd_mutex := True\<rparr>)"
  have up: "pdev_ok ?up" "keeps p ?up" "scull_byte (as_scull ?up) = scull_byte (as_scull p)"
    using p by (auto simp: pdev_ok_def keeps_def fun_eq_iff scull_byte_def scull_block_page unlock_dev_def scull_wf_def)
  have new: "pdev_ok (p_up (p\<lparr>pd_mutex := True, pd_items := [\<lparr>pi_addr = a, pi_data = None, pi_order = scullp_order g\<rparr>],
      pd_size := 0, pd_qset := scullp_qset g\<rparr>))" if "empties flags" for a
    using assms(3) that by (auto simp: pdev_ok_def order0_def p_up_def as_scull_def as_qset_def scull_wf_def wf_qset_def
      scullp_geometry_def PAGE_SIZE_def)
  show "pdev_ok p'" using assms(1,2) up(1) new
    by (auto simp: scullp_open_def empties_def scullp_trim_def kbind_eq_Done split: if_splits)
  show "pd_vmas p' = pd_vmas p" using assms(1) by (auto simp: scullp_open_def scullp_trim_def kbind_eq_Done split: if_splits)
  show "keeps p p' \<and> scull_byte (as_scull p') = scull_byte (as_scull p)"
    if "\<not> (flags AND O_ACCMODE = O_WRONLY \<and> \<not> intr \<and> pd_vmas p = 0)"
    using that assms(1) up(2,3) by (auto simp: scullp_open_def scullp_trim_def split: if_splits)
qed

lemma no_vma_unmapped:
  assumes "scullp_inv s" and "i < length (ps_devs s)" and "pd_vmas (ps_devs s ! i) = 0" and "ps_vmas s v = Some a"
  shows "va_dev a \<noteq> i"
proof
  assume "va_dev a = i"
  then have "v \<in> vmas_of s i" using assms(4) by (auto simp: vmas_of_def)
  moreover have "finite (vmas_of s i)"
    using assms(1) by (auto simp: scullp_inv_def vmas_of_def dom_def intro: rev_finite_subset)
  moreover have "int (card (vmas_of s i)) = 0" using assms(1-3) unfolding scullp_inv_def by metis
  ultimately show False by simp
qed

lemma vma_open_fields [simp]:
  "as_scull (scullp_vma_open p) = as_scull p" "as_scull (scullp_vma_close p) = as_scull p"
  "pdev_ok (scullp_vma_open p) = pdev_ok p" "pdev_ok (scullp_vma_close p) = pdev_ok p"
  "pte_ok (scullp_vma_open p) = pte_ok p" "pte_ok (scullp_vma_close p) = pte_ok p"
  by (simp_all add: fun_eq_iff scullp_vma_open_def scullp_vma_close_def as_scull_def pdev_ok_def order0_def pte_ok_def)

lemma vmas_of_put:
  "ps_vmas s v = None \<Longrightarrow> vmas_of (put_vma v (Some a) s) i = (if va_dev a = i then insert v (vmas_of s i) else vmas_of s i)"
  "vmas_of (put_vma v None s) i = vmas_of s i - {v}"
  by (auto simp: vmas_of_def split: if_splits)

lemma vmas_of_finite:
  assumes "scullp_inv s"
  shows "finite (vmas_of s i)" "card (vmas_of s i) \<le> card (dom (ps_vmas s))"
proof -
  have s: "vmas_of s i \<subseteq> dom (ps_vmas s)" "finite (dom (ps_vmas s))" using assms by (auto simp: scullp_inv_def vmas_of_def)
  then show "finite (vmas_of s i)" "card (vmas_of s i) \<le> card (dom (ps_vmas s))"
    by (auto intro: finite_subset card_mono)
qed

lemma inv_map:
  assumes "scullp_inv s" and "ps_vmas s v = None" and "card (dom (ps_vmas s)) < MAX_VMAS" and "va_ok a"
    and "va_dev a < length (ps_devs s)" and "pte_ok (ps_devs s ! va_dev a) (va_pte a)"
  shows "scullp_inv (put_vma v (Some a) (put_pdev (va_dev a) (scullp_vma_open (ps_devs s ! va_dev a)) s))"
proof -
  let ?i = "va_dev a"
  have "pd_vmas (ps_devs s ! ?i) = int (card (vmas_of s ?i))" using assms(1,5) by (simp add: scullp_inv_def)
  then have c: "pd_vmas (scullp_vma_open (ps_devs s ! ?i)) = int (card (insert v (vmas_of s ?i)))"
    using vmas_of_finite [OF assms(1), of ?i] assms(2,3)
    by (subst card_insert_disjoint) (auto simp: scullp_vma_open_def MAX_VMAS_def vmas_of_def s32_nonneg)
  have d: "card (insert v (dom (ps_vmas s))) \<le> MAX_VMAS"
    using assms(1-3) by (simp add: scullp_inv_def card_insert_if)
  show ?thesis
    using assms c d unfolding scullp_inv_def
    by (auto simp: nth_list_update vmas_of_put)
qed

lemma inv_unmap:
  assumes "scullp_inv s" and "ps_vmas s v = Some a"
  shows "scullp_inv (put_vma v None (put_pdev (va_dev a) (scullp_vma_close (ps_devs s ! va_dev a)) s))"
proof -
  let ?i = "va_dev a"
  have i: "?i < length (ps_devs s)" using assms by (simp add: scullp_inv_def)
  have v: "v \<in> vmas_of s ?i" "finite (vmas_of s ?i)" using assms vmas_of_finite [OF assms(1)] by (auto simp: vmas_of_def)
  then have pos: "0 < card (vmas_of s ?i)" by (auto simp: card_gt_0_iff)
  have b: "card (vmas_of s ?i) \<le> MAX_VMAS" using vmas_of_finite(2) [OF assms(1), of ?i] assms(1) by (simp add: scullp_inv_def)
  have "pd_vmas (ps_devs s ! ?i) = int (card (vmas_of s ?i))" using assms(1) i by (simp add: scullp_inv_def)
  then have c: "pd_vmas (scullp_vma_close (ps_devs s ! ?i)) = int (card (vmas_of s ?i - {v}))"
    using v pos b by (simp add: scullp_vma_close_def MAX_VMAS_def s32_nonneg of_nat_diff)
  have other: "vmas_of s j - {v} = vmas_of s j" if "j \<noteq> ?i" for j using that assms(2) by (auto simp: vmas_of_def)
  have d: "card (dom (ps_vmas s) - {v}) \<le> MAX_VMAS"
    using assms(1) card_Diff1_le [of "dom (ps_vmas s)" v] by (simp add: scullp_inv_def)
  show ?thesis
    using assms(1) i c d other unfolding scullp_inv_def
    by (auto simp: nth_list_update vmas_of_put)
qed

lemma inv_put_pte:
  assumes "scullp_inv s" and "ps_vmas s v = Some a" and "pte_ok (ps_devs s ! va_dev a) pte"
  shows "scullp_inv (put_vma v (Some (a\<lparr>va_pte := pte\<rparr>)) s)"
proof -
  have "vmas_of (put_vma v (Some (a\<lparr>va_pte := pte\<rparr>)) s) i = vmas_of s i" for i using assms(2) by (auto simp: vmas_of_def)
  moreover have "insert v (dom (ps_vmas s)) = dom (ps_vmas s)" using assms(2) by auto
  moreover have "va_ok (a\<lparr>va_pte := pte\<rparr>) = va_ok a" by (simp add: va_ok_def va_offset_def)
  ultimately show ?thesis using assms by (simp add: scullp_inv_def)
qed

lemma spec_step_whole [simp]:
  "spec_step B Silent = B" "spec_step B (Fetched f bs) = B" "spec_step B Truncated = Map.empty"
  by (simp_all add: fun_eq_iff)

lemma represents_same:
  "represents A s \<Longrightarrow> as_scull p = as_scull (ps_devs s ! i) \<Longrightarrow> represents A (put_pdev i p s)"
  using represents_put_pdev [of A s i "A i" p] by (simp add: represents_def fun_upd_idem)

lemma fetched_allowed:
  assumes "B \<subseteq>\<^sub>m M" and "\<forall>i<length bs. M (f + int i) = Some (bs ! i)"
  shows "spec_allows B (Fetched f bs)"
  unfolding spec_allows.simps
proof (intro allI impI)
  fix i assume "i < length bs"
  then show "B (f + int i) \<in> {None, Some (bs ! i)}"
    using assms by (cases "B (f + int i)") (auto simp: map_le_def dom_def)
qed

text \<open>An access through an entry of a page table finds the page.\<close>

lemma mapped_access:
  assumes "scullp_inv s" and "ps_vmas s v = Some a" and "va_start a \<le> adr" and "va_pte a n = Some b"
  obtains mem where "scullp_page (ps_devs s ! va_dev a) n = Some (b, mem)" "pdev_ok (ps_devs s ! va_dev a)"
    "va_dev a < length (ps_devs s)" "0 \<le> va_offset a adr"
proof -
  have a: "va_dev a < length (ps_devs s)" "va_ok a" "pte_ok (ps_devs s ! va_dev a) (va_pte a)"
    using assms(1,2) by (auto simp: scullp_inv_def)
  moreover from a(3) assms(4) obtain mem where "scullp_page (ps_devs s ! va_dev a) n = Some (b, mem)" by (auto simp: pte_ok_def)
  moreover have "pdev_ok (ps_devs s ! va_dev a)" using assms(1) a(1) by (simp add: scullp_inv_def)
  ultimately show thesis using that assms(3) by (simp add: va_ok_def va_offset_def PAGE_SIZE_def)
qed

lemma fault_page:
  assumes "scullp_inv s" and "ps_vmas s v = Some a" and "va_start a \<le> adr" and "adr < va_end a"
    and "scullp_vma_nopage (ps_devs s ! va_dev a) adr (va_start a) (va_pgoff a) = Done pg"
  shows "pte_ok (ps_devs s ! va_dev a) ((va_pte a)(nat (va_offset a adr div PAGE_SIZE) := map_option fst pg))"
proof -
  have a: "va_ok a" "pte_ok (ps_devs s ! va_dev a) (va_pte a)" "scull_wf (as_scull (ps_devs s ! va_dev a))"
    using assms(1,2) by (auto simp: scullp_inv_def pdev_ok_def)
  have "pg = (if va_offset a adr < pd_size (ps_devs s ! va_dev a)
      then scullp_page (ps_devs s ! va_dev a) (nat (va_offset a adr div PAGE_SIZE)) else None)"
    using scullp_nopage_page [OF a(3), of "va_pgoff a" adr "va_start a"] assms(3-5) a(1) by (simp add: va_ok_def va_offset_def)
  then show ?thesis using a(2) by (cases pg) (auto simp: pte_ok_def split: if_splits)
qed

text \<open>A step that keeps the invariant and that the specification makes too.\<close>

definition sound_step :: "(nat \<Rightarrow> int \<Rightarrow> byte option) \<Rightarrow> scullp_event \<Rightarrow> scullp_state \<Rightarrow> bool" where
  "sound_step A e s' \<longleftrightarrow> scullp_inv s' \<and> devs_allow A e \<and> represents (devs_step A e) s'"

lemma open_sound:
  assumes inv: "scullp_inv s" and A: "represents A s" and i: "i < length (ps_devs s)"
    and run: "scullp_open (ps_params s) intr (ps_devs s ! i) flags = Done (p', r, freed)"
    and g: "empties flags \<longrightarrow> scullp_geometry (ps_params s)" and f: "\<And>x. f = Some x \<Longrightarrow> sf_dev x = i"
  shows "sound_step A
    (OnScullp i (if flags AND O_ACCMODE = O_WRONLY \<and> \<not> intr \<and> pd_vmas (ps_devs s ! i) = 0 then Truncated else Silent))
    (put_file fd f (put_pdev i p' s))"
proof -
  have p: "pdev_ok (ps_devs s ! i)" using inv i by (simp add: scullp_inv_def)
  note eff = scullp_open_effect [OF run p g]
  have "scullp_inv (put_pdev i p' s)"
  proof (rule inv_put_pdev [OF inv i eff(1,2)])
    fix v a assume "ps_vmas s v = Some a" "va_dev a = i"
    then show "pte_ok p' (va_pte a)"
      using no_vma_unmapped [OF inv i] eff(3) inv pte_ok_keeps by (fastforce simp: scullp_inv_def)
  qed
  then have "scullp_inv (put_file fd f (put_pdev i p' s))" using i f by (intro inv_put_file) auto
  moreover have "represents (A(i := if flags AND O_ACCMODE = O_WRONLY \<and> \<not> intr \<and> pd_vmas (ps_devs s ! i) = 0
      then Map.empty else A i)) (put_pdev i p' s)"
    using A eff(3) i by (intro represents_put_pdev) (auto simp: represents_def)
  ultimately show ?thesis by (auto simp: sound_step_def)
qed

lemma read_sound:
  assumes inv: "scullp_inv s" and A: "represents A s" and f: "ps_files s fd = Some f"
    and al: "alloc_total al" and pos: "pos_ok (as_scull (ps_devs s ! sf_dev f)) (sf_pos f)" and c: "0 \<le> c" "c < 2 ^ 63"
    and run: "scullp_read al intr left (ps_devs s ! sf_dev f) c (sf_pos f) = Done (p', pos', r, bs)"
  shows "sound_step A (OnScullp (sf_dev f) (Fetched (sf_pos f) bs)) (put_file fd (Some (f\<lparr>sf_pos := pos'\<rparr>)) (put_pdev (sf_dev f) p' s))"
proof -
  have i: "sf_dev f < length (ps_devs s)" "pdev_ok (ps_devs s ! sf_dev f)" using inv f by (auto simp: scullp_inv_def)
  note eff = scullp_read_refines [OF al i(2) pos c run]
  have "scullp_inv (put_file fd (Some (f\<lparr>sf_pos := pos'\<rparr>)) (put_pdev (sf_dev f) p' s))"
    using i inv_put_pdev_keeps [OF inv i(1) eff(1,2)] by (intro inv_put_file) auto
  moreover have "represents (A(sf_dev f := A (sf_dev f))) (put_pdev (sf_dev f) p' s)"
    using A i(1) by (intro represents_put_pdev) (auto simp: eff(3) represents_def)
  moreover have "spec_allows (A (sf_dev f)) (Fetched (sf_pos f) bs)"
    using A i(1) eff(4) by (intro fetched_allowed) (auto simp: represents_def)
  ultimately show ?thesis by (simp add: sound_step_def)
qed

lemma write_sound:
  assumes inv: "scullp_inv s" and A: "represents A s" and f: "ps_files s fd = Some f"
    and al: "alloc_total al" and pos: "pos_ok (as_scull (ps_devs s ! sf_dev f)) (sf_pos f)"
    and run: "scullp_write al intr left (ps_devs s ! sf_dev f) buf (sf_pos f) = Done (p', pos', r)"
  shows "sound_step A (OnScullp (sf_dev f) (write_event (as_scull (ps_devs s ! sf_dev f)) buf (sf_pos f) r))
    (put_file fd (Some (f\<lparr>sf_pos := pos'\<rparr>)) (put_pdev (sf_dev f) p' s))"
proof -
  let ?p = "ps_devs s ! sf_dev f"
  have i: "sf_dev f < length (ps_devs s)" "pdev_ok ?p" "A (sf_dev f) \<subseteq>\<^sub>m scull_byte (as_scull ?p)"
    using inv A f by (auto simp: scullp_inv_def represents_def)
  note eff = scullp_write_refines [OF al i(2) pos run i(3)]
  have "scullp_inv (put_file fd (Some (f\<lparr>sf_pos := pos'\<rparr>)) (put_pdev (sf_dev f) p' s))"
    using i inv_put_pdev_keeps [OF inv i(1) eff(1,2)] by (intro inv_put_file) auto
  moreover have "represents (A(sf_dev f := spec_step (A (sf_dev f)) (write_event (as_scull ?p) buf (sf_pos f) r))) (put_pdev (sf_dev f) p' s)"
    using A eff(3) by (intro represents_put_pdev) auto
  ultimately show ?thesis by (auto simp: sound_step_def write_event_def split: sum.splits)
qed

lemma load_sound:
  assumes inv: "scullp_inv s" and A: "represents A s" and v: "ps_vmas s v = Some a" "va_start a \<le> adr" "va_pte a n = Some b"
    and n: "n = nat (va_offset a adr div PAGE_SIZE)"
  shows "sound_step A (case scullp_page (ps_devs s ! va_dev a) n of
         None \<Rightarrow> Stray
       | Some (b', mem) \<Rightarrow>
           if b' = b then OnScullp (va_dev a) (Fetched (va_offset a adr) [mem ! nat (va_offset a adr mod PAGE_SIZE)]) else Stray) s"
proof -
  from mapped_access [OF inv v] obtain mem where
    m: "scullp_page (ps_devs s ! va_dev a) n = Some (b, mem)" "pdev_ok (ps_devs s ! va_dev a)"
      "va_dev a < length (ps_devs s)" "0 \<le> va_offset a adr" .
  have "spec_allows (A (va_dev a)) (Fetched (va_offset a adr) [mem ! nat (va_offset a adr mod PAGE_SIZE)])"
    using A m(3) store_page_byte(1) [OF m(2,1,4) n]
    by (intro fetched_allowed [of _ "scull_byte (as_scull (ps_devs s ! va_dev a))"]) (auto simp: represents_def)
  then show ?thesis using inv A m(1) by (simp add: sound_step_def fun_upd_idem)
qed

lemma store_sound:
  assumes inv: "scullp_inv s" and A: "represents A s" and v: "ps_vmas s v = Some a" "va_start a \<le> adr" "va_pte a n = Some b"
    and n: "n = nat (va_offset a adr div PAGE_SIZE)"
    and e: "(case scullp_page (ps_devs s ! va_dev a) n of
       None \<Rightarrow> (Stray, s)
     | Some (b', mem) \<Rightarrow>
         if b' = b
         then (OnScullp (va_dev a) (Wrote (va_offset a adr) [x]),
               put_pdev (va_dev a) (store_page (ps_devs s ! va_dev a) n b (mem[nat (va_offset a adr mod PAGE_SIZE) := x])) s)
         else (Stray, s)) = (e, s')"
  shows "sound_step A e s'"
proof -
  let ?p = "ps_devs s ! va_dev a" and ?g = "va_offset a adr"
  from mapped_access [OF inv v] obtain mem where
    m: "scullp_page ?p n = Some (b, mem)" "pdev_ok ?p" "va_dev a < length (ps_devs s)" "0 \<le> ?g" .
  let ?q = "store_page ?p n b (mem[nat (?g mod PAGE_SIZE) := x])"
  have e': "e = OnScullp (va_dev a) (Wrote ?g [x])" "s' = put_pdev (va_dev a) ?q s" using e m(1) by simp_all
  have "scullp_inv s'" unfolding e'(2)
    using inv_put_pdev_keeps [OF inv m(3) store_page_wf(1) [OF m(2,1)] store_page_fields(1) [OF m(1)]] by simp
  moreover have "spec_step (A (va_dev a)) (Wrote ?g [x]) \<subseteq>\<^sub>m scull_byte (as_scull ?q)"
    using store_page_byte(2) [OF m(2,1,4) n] A m(3) by (auto simp: represents_def map_le_def dom_def)
  ultimately show ?thesis using A e' by (auto simp: sound_step_def intro: represents_put_pdev)
qed

lemma scullp_step_sound:
  assumes "scullp_step s (True, e) s'" and inv: "scullp_inv s" and A: "represents A s"
  shows "sound_step A e s'"
  using assms(1)
proof (cases rule: scullp_step.cases)
  case (sys_open i fd intr flags p' r freed)
  show ?thesis unfolding sys_open(2,3)
    by (rule open_sound [OF inv A sys_open(4) sys_open(6) [unfolded scullp_fops_def, simplified]])
      (use sys_open(1) in \<open>auto split: sum.splits\<close>)
next
  case (sys_release fd f p' r)
  then have "s' = put_file fd None s" by (auto simp: scullp_fops_def scullp_release_def)
  then show ?thesis using sys_release(1) inv A by (auto intro!: inv_put_file simp: sound_step_def fun_upd_idem)
next
  case (sys_read fd f c al intr left p' pos' r bs)
  have lim: "alloc_total al" "pos_ok (as_scull (ps_devs s ! sf_dev f)) (sf_pos f)" using sys_read(1) by simp_all
  show ?thesis unfolding sys_read(2,3)
    by (rule read_sound [OF inv A sys_read(4) lim sys_read(6,7) sys_read(8) [unfolded scullp_fops_def, simplified]])
next
  case (sys_write fd f al intr left buf p' pos' r)
  have lim: "alloc_total al" "pos_ok (as_scull (ps_devs s ! sf_dev f)) (sf_pos f)" using sys_write(1) by simp_all
  show ?thesis unfolding sys_write(2,3)
    by (rule write_sound [OF inv A sys_write(4) lim sys_write(6) [unfolded scullp_fops_def, simplified]])
next
  case (sys_llseek fd f off whence pos' r)
  then show ?thesis using inv A inv_put_file [OF inv, of "Some (f\<lparr>sf_pos := pos'\<rparr>)" fd]
    by (auto simp: sound_step_def scullp_inv_def fun_upd_idem)
next
  case (sys_ioctl fd f env cmd arg g' r w)
  then show ?thesis using inv A by (auto simp: sound_step_def scullp_inv_def fun_upd_idem)
next
  case (sys_mmap fd f v a p' r)
  let ?p = "ps_devs s ! sf_dev f"
  have i: "sf_dev f < length (ps_devs s)" using inv sys_mmap(4) by (auto simp: scullp_inv_def)
  have "pte_ok ?p (va_pte a)" using sys_mmap(7) by (simp add: pte_ok_def)
  with inv_map [OF inv sys_mmap(5), of a] sys_mmap(1,6) i have m: "scullp_inv (put_vma v (Some a) (put_pdev (sf_dev f) (scullp_vma_open ?p) s))"
    by simp
  have "put_vma v None s = s" using sys_mmap(5) by (simp add: put_vma_def fun_upd_idem)
  then show ?thesis using sys_mmap(2,3,8) m inv A
    by (auto simp: sound_step_def scullp_fops_def scullp_mmap_def fun_upd_idem represents_same split: if_splits)
next
  case (vma_fork v a v')
  have i: "va_dev a < length (ps_devs s)" "va_ok a" "pte_ok (ps_devs s ! va_dev a) (va_pte a)"
    using inv vma_fork(4) by (auto simp: scullp_inv_def)
  then show ?thesis using vma_fork inv_map [OF inv vma_fork(5) _ i(2,1,3)] A
    by (auto simp: sound_step_def scullp_vm_ops_def fun_upd_idem represents_same)
next
  case (vma_unmap v a)
  then show ?thesis using inv_unmap [OF inv vma_unmap(3)] A
    by (auto simp: sound_step_def scullp_vm_ops_def fun_upd_idem represents_same)
next
  case (vma_fault v a adr n pg)
  then show ?thesis
    using inv_put_pte [OF inv vma_fault(3) fault_page [OF inv vma_fault(3-5)]] A
    by (auto simp: sound_step_def scullp_vm_ops_def fun_upd_idem)
next
  case (vma_load v a adr n b)
  then show ?thesis using load_sound [OF inv A vma_load(3,4,7,6)] by simp
next
  case (vma_store v a adr n b x)
  then show ?thesis using store_sound [OF inv A vma_store(1,2,5,4,6)] by simp
qed

section \<open>From loading to unloading\<close>

text \<open>The state after loading the module, and the module with the devices and parameters of a later state.\<close>

definition scullp_loaded :: "scullp_module \<Rightarrow> scullp_state" where
  "scullp_loaded m =
     \<lparr>ps_params = pm_params m, ps_devs = (case pm_devices m of None \<Rightarrow> [] | Some (a, ps) \<Rightarrow> ps),
      ps_files = Map.empty, ps_vmas = Map.empty\<rparr>"

definition scullp_module_at :: "scullp_module \<Rightarrow> scullp_state \<Rightarrow> scullp_module" where
  "scullp_module_at m s =
     m\<lparr>pm_params := ps_params s, pm_devices := map_option (\<lambda>(a, ps). (a, ps_devs s)) (pm_devices m)\<rparr>"

text \<open>What a successful load leaves: an array of empty devices, and the calls that made it.\<close>

lemma setup_cdevs: "scullp_setup_cdev e m = (\<lambda>i. [cdev_add e (MainCdev i) (MKDEV (pm_major m) (int i))])"
  by (simp add: fun_eq_iff scullp_setup_cdev_def)

lemma scullp_init_parts:
  assumes "scullp_init e m = (m', Inr u, t)"
  obtains a where "pm_devices m' = Some (a, map (\<lambda>i. scullp_new_dev (pm_params m) (a + i)) [0..<nat (pm_nr_devs m)])"
    "pm_params m' = pm_params m" "pm_nr_devs m' = pm_nr_devs m"
    "t = RegisterRegion (MKDEV (pm_major m') 0) (pm_nr_devs m') # concat (map (scullp_setup_cdev e m') [0..<nat (pm_nr_devs m')])"
  using assms that by (auto simp: scullp_init_def Let_def setup_cdevs split: if_splits option.splits sum.splits)

lemma scullp_loaded_inv:
  assumes "scullp_init e m = (m', Inr u, t)" and "scullp_geometry (pm_params m)"
  shows "scullp_inv (scullp_loaded m')" "represents (\<lambda>_. Map.empty) (scullp_loaded m')"
proof -
  from scullp_init_parts [OF assms(1)] obtain a where
    m': "pm_devices m' = Some (a, map (\<lambda>i. scullp_new_dev (pm_params m) (a + i)) [0..<nat (pm_nr_devs m)])"
    "pm_params m' = pm_params m" by metis
  have "pdev_ok (scullp_new_dev (pm_params m) b) \<and> pd_vmas (scullp_new_dev (pm_params m) b) = 0" for b
    using assms(2) by (auto simp: scullp_new_dev_def pdev_ok_def order0_def as_scull_def as_qset_def scull_wf_def
      wf_qset_def scullp_geometry_def PAGE_SIZE_def)
  moreover have "vmas_of (scullp_loaded m') i = {}" for i by (simp add: vmas_of_def scullp_loaded_def)
  ultimately show "scullp_inv (scullp_loaded m')"
    using m' assms(2) by (simp add: scullp_inv_def) (simp add: scullp_loaded_def)
  show "represents (\<lambda>_. Map.empty) (scullp_loaded m')" by (simp add: represents_def)
qed

lemma scullp_step_fixed: "scullp_step s e s' \<Longrightarrow> length (ps_devs s') = length (ps_devs s)"
  by (cases rule: scullp_step.cases) (auto split: option.splits prod.splits if_splits)

lemma scullp_run_sound:
  assumes "scullp_run s es s'" and "in_limits es" and "scullp_inv s" and "represents A s"
  shows "scullp_inv s' \<and> devs_accept A (map snd es) \<and> represents (foldl devs_step A (map snd es)) s' \<and>
    length (ps_devs s') = length (ps_devs s)"
  using assms
proof (induction rule: scullp_run.induct)
  case (prun_snoc s es s1 e s2)
  then have "scullp_step s1 (True, snd e) s2" by (cases e) auto
  with prun_snoc show ?case
    using scullp_step_sound [of s1 "snd e" s2 "foldl devs_step A (map snd es)"] scullp_step_fixed
    by (simp add: devs_accept_append sound_step_def)
qed simp


text \<open>With memory at hand no call on an open file faults, nor does a page fault in a mapping.\<close>

lemma scullp_calls_return:
  assumes "pdev_ok p" and "alloc_total al" and "pos_ok (as_scull p) f" and "0 \<le> c" "c < 2 ^ 63"
  shows "is_done (scullp_read al intr left p c f)" "is_done (scullp_write al intr left p buf f)"
proof -
  have p: "order0 p" "scull_wf (as_scull p)" using assms(1) by (simp_all add: pdev_ok_def)
  obtain x where "scull_write (as_kmalloc al) intr left (as_scull p) buf f = Done x"
    using scull_write_safe [OF p(2) assms(3) as_kmalloc_ok(1)] by blast
  then show "is_done (scullp_write al intr left p buf f)"
    using scullp_write_sim [OF assms(2) p(1), of intr left buf f] by (cases "scullp_write al intr left p buf f") auto
  have u: "u64 f = f" using pos_okD [OF p(2) assms(3)] by (simp add: width_simps PAGE_SIZE_def)
  show "is_done (scullp_read al intr left p c f)"
  proof (cases "intr \<or> pd_size p \<le> f")
    case True
    then show ?thesis using scullp_read_end [OF assms(2) p assms(3) _ assms(4,5), of left]
      by (cases intr) (auto simp: scullp_read_def)
  next
    case False
    then show ?thesis
      using scull_read_effect [OF p(2) assms(3-5), of "as_kmalloc al" False left] scullp_read_sim [OF assms(2) p(1), of f left c] u
      by (cases "scullp_read al False left p c f") auto
  qed
qed

text \<open>
  C22. The module is loaded with order 0 and a quantum set in range. In every state that its users reach
  within the limits of the previous theorem (order 0 and quantum set in range when an open empties a device,
  positions in range and memory at hand at reads and writes, offsets below \<open>2 ^ 63\<close> in mappings, fewer than
  \<open>2 ^ 31\<close> mappings), a device counts its mappings exactly, an entry in the page table of a mapping
  leads to the page that the device holds at that offset, and no mutex is held; with memory at hand, a read or
  a write on an open file at a position in range returns. When no mapping is left, unloading meets no fault,
  deletes the devices that loading has tried to add (the added ones, if every \<open>cdev_add\<close> succeeded), gives back the
  region that loading registered, and frees every page, array and list item of every device.
\<close>

theorem scullp_driver_life:
  assumes "scullp_init e m = (m', Inr u, t)" and "scullp_geometry (pm_params m)"
    and "scullp_run (scullp_loaded m') es s" and "in_limits es"
  shows "(\<forall>i < length (ps_devs s). pd_vmas (ps_devs s ! i) = int (card {v. \<exists>a. ps_vmas s v = Some a \<and> va_dev a = i}) \<and>
      \<not> pd_mutex (ps_devs s ! i)) \<and>
    (\<forall>v a n b. ps_vmas s v = Some a \<and> va_pte a n = Some b \<longrightarrow>
      (\<exists>mem. scullp_page (ps_devs s ! va_dev a) n = Some (b, mem))) \<and>
    (\<forall>fd f al intr left c buf. ps_files s fd = Some f \<and> alloc_total al \<and> pos_ok (as_scull (ps_devs s ! sf_dev f)) (sf_pos f) \<and>
      0 \<le> c \<and> c < 2 ^ 63 \<longrightarrow> is_done (scullp_read al intr left (ps_devs s ! sf_dev f) c (sf_pos f)) \<and>
        is_done (scullp_write al intr left (ps_devs s ! sf_dev f) buf (sf_pos f))) \<and>
    (ps_vmas s = Map.empty \<longrightarrow> (\<exists>t'. scullp_cleanup (scullp_module_at m' s) = Done t' \<and>
      select sel_unreg t' = select sel_reg t \<and> select sel_del t' = map fst (select sel_tried t) \<and>
      ((\<forall>n. cdev_result e n = None) \<longrightarrow> select sel_del t' = map fst (select sel_add t)) \<and>
      select sel_free t' = concat (map scullp_blocks (ps_devs s)) @ [fst (the (pm_devices m'))]))"
proof -
  note run = scullp_run_sound [OF assms(3,4) scullp_loaded_inv [OF assms(1,2)]]
  then have inv: "scullp_inv s" by blast
  from scullp_init_parts [OF assms(1)] obtain a where
    m': "pm_devices m' = Some (a, map (\<lambda>i. scullp_new_dev (pm_params m) (a + i)) [0..<nat (pm_nr_devs m)])"
    "pm_nr_devs m' = pm_nr_devs m"
    "t = RegisterRegion (MKDEV (pm_major m') 0) (pm_nr_devs m') # concat (map (scullp_setup_cdev e m') [0..<nat (pm_nr_devs m')])"
    by metis
  have len: "length (ps_devs s) = nat (pm_nr_devs m')" using run m'(1,2) by (simp add: scullp_loaded_def)
  have "\<exists>t'. scullp_cleanup (scullp_module_at m' s) = Done t' \<and>
      select sel_unreg t' = select sel_reg t \<and> select sel_del t' = map fst (select sel_tried t) \<and>
      ((\<forall>n. cdev_result e n = None) \<longrightarrow> select sel_del t' = map fst (select sel_add t)) \<and>
      select sel_free t' = concat (map scullp_blocks (ps_devs s)) @ [a]" if "ps_vmas s = Map.empty"
  proof -
    have "vmas_of s i = {}" for i using that by (simp add: vmas_of_def)
    then have "\<forall>p \<in> set (ps_devs s). scull_wf (as_scull p) \<and> pd_vmas p = 0"
      using inv by (auto simp: scullp_inv_def pdev_ok_def in_set_conv_nth)
    from scullp_clean_trace [OF this, of "ps_params s" 0] obtain t' where
      "scullp_clean (ps_params s) 0 (ps_devs s) = Done t'" "select sel_free t' = concat (map scullp_blocks (ps_devs s))"
      "select sel_del t' = map MainCdev [0..<length (ps_devs s)]" "select sel_unreg t' = []" by auto
    then show ?thesis using m' len by (simp add: scullp_cleanup_def scullp_module_at_def setup_cdevs o_def)
  qed
  moreover have "pdev_ok (ps_devs s ! sf_dev f)" if "ps_files s fd = Some f" for fd f using that inv by (auto simp: scullp_inv_def)
  moreover have "\<forall>i < length (ps_devs s). pd_vmas (ps_devs s ! i) = int (card (vmas_of s i)) \<and> \<not> pd_mutex (ps_devs s ! i)"
    using inv by (simp add: scullp_inv_def pdev_ok_def)
  moreover have "\<exists>mem. scullp_page (ps_devs s ! va_dev a) n = Some (b, mem)" if "ps_vmas s v = Some a \<and> va_pte a n = Some b" for v a n b
    using that inv by (auto simp: scullp_inv_def pte_ok_def)
  ultimately show ?thesis using scullp_calls_return m'(1) unfolding vmas_of_def by auto
qed

text \<open>A process writes to the first device, maps it, and finds the bytes in its memory.\<close>

definition pmodule_ex :: scullp_module where
  "pmodule_ex = \<lparr>pm_params = \<lparr>scullp_qset = 500, scullp_order = 0\<rparr>, pm_major = 240, pm_nr_devs = 1, pm_devices = None\<rparr>"

definition penv_ex :: init_env where
  "penv_ex = \<lparr>region_result = (\<lambda>_ _. None), alloc_major = Inr 240, cdev_result = (\<lambda>_. None), main_array = Some 10, pipe_array = None\<rparr>"

definition vma_ex :: scullp_vma where
  "vma_ex = \<lparr>va_dev = 0, va_start = 65536, va_end = 69632, va_pgoff = 0, va_pte = Map.empty\<rparr>"

abbreviation pevents_ex :: "(bool \<times> scullp_event) list" where
  "pevents_ex \<equiv> map (\<lambda>e. (True, OnScullp 0 e)) [Silent, Wrote 0 [5], Silent, Silent, Fetched 0 [5]]"

lemma pmodule_ex_loaded:
  obtains m' t where "scullp_init penv_ex pmodule_ex = (m', Inr (), t)" "scullp_geometry (pm_params pmodule_ex)"
    "ps_devs (scullp_loaded m') = [scullp_new_dev (pm_params pmodule_ex) 10]"
    "ps_files (scullp_loaded m') = Map.empty" "ps_vmas (scullp_loaded m') = Map.empty"
proof -
  obtain m' t where i: "scullp_init penv_ex pmodule_ex = (m', Inr (), t)" by (simp add: scullp_init_def penv_ex_def pmodule_ex_def)
  moreover have "scullp_geometry (pm_params pmodule_ex)" by (simp add: scullp_geometry_def pmodule_ex_def PAGE_SIZE_def)
  moreover have "ps_devs (scullp_loaded m') = [scullp_new_dev (pm_params pmodule_ex) 10]"
    using i by (auto simp: scullp_loaded_def scullp_init_def penv_ex_def pmodule_ex_def)
  ultimately show thesis using that by (simp add: scullp_loaded_def)
qed

lemma pmodule_ex_used:
  obtains m' t s a b where "scullp_init penv_ex pmodule_ex = (m', Inr (), t)" "scullp_geometry (pm_params pmodule_ex)"
    "scullp_run (scullp_loaded m') pevents_ex s" "ps_vmas s 0 = Some a" "va_pte a 0 = Some b" "0 < length (ps_devs s)"
proof -
  obtain m' t where i: "scullp_init penv_ex pmodule_ex = (m', Inr (), t)" "scullp_geometry (pm_params pmodule_ex)"
    and s0: "ps_devs (scullp_loaded m') = [scullp_new_dev (pm_params pmodule_ex) 10]"
      "ps_files (scullp_loaded m') = Map.empty" "ps_vmas (scullp_loaded m') = Map.empty" using pmodule_ex_loaded .
  let ?p = "scullp_new_dev (pm_params pmodule_ex) 10" and ?f = "\<lparr>sf_dev = 0, sf_flags = 2, sf_pos = 0\<rparr>"
  define s1 where "s1 = put_file 3 (Some ?f) (put_pdev 0 ?p (scullp_loaded m'))"
  have d1: "ps_devs s1 = [?p]" "ps_files s1 3 = Some ?f" "ps_vmas s1 = Map.empty" using s0 by (simp_all add: s1_def)
  have st1: "scullp_step (scullp_loaded m') (True, OnScullp 0 Silent) s1"
    using sys_open [of 0 "scullp_loaded m'" 3 False 2 ?p "Inr ()" "[]"] s0
    by (simp add: s1_def scullp_fops_def scullp_open_def empties_def O_ACCMODE_def O_WRONLY_def)
  have rdy: "scullp_ready al_ex ?p 0" by (auto simp: scullp_ready_def scullp_new_dev_def order0_def as_scull_def as_qset_def
    scull_wf_def wf_qset_def pos_ok_def pmodule_ex_def PAGE_SIZE_def)
  from scullp_write_stores [OF rdy, of "[5]"] obtain p' where
    w: "scullp_write al_ex False 0 ?p [5] 0 = Done (p', 1, Inr 1)" "pd_size p' = 1" "scull_byte (as_scull p') 0 = Some 5"
    "scullp_ready al_ex p' 0"
    using rdy by (auto simp: scullp_new_dev_def le_Suc_eq)
  define s2 where "s2 = put_file 3 (Some (?f\<lparr>sf_pos := 1\<rparr>)) (put_pdev 0 p' s1)"
  have st2: "scullp_step s1 (True, OnScullp 0 (Wrote 0 [5])) s2"
    using sys_write [of s1 3 ?f al_ex False 0 "[5]" p' 1 "Inr 1"] d1 w(1) rdy
    by (simp add: s2_def scullp_fops_def O_ACCMODE_def O_RDONLY_def write_event_def scullp_ready_def)
  have d2: "ps_devs s2 = [p']" "ps_files s2 3 = Some (?f\<lparr>sf_pos := 1\<rparr>)" "ps_vmas s2 = Map.empty" using d1 by (simp_all add: s2_def)
  define s3 where "s3 = put_vma 0 (Some vma_ex) (put_pdev 0 (scullp_vma_open p') s2)"
  have "pd_order p' = 0" using w(4) by (simp add: scullp_ready_def)
  then have st3: "scullp_step s2 (True, OnScullp 0 Silent) s3"
    using sys_mmap [of s2 3 "?f\<lparr>sf_pos := 1\<rparr>" 0 vma_ex "scullp_vma_open p'" "Inr ()"] d2
    by (simp add: s3_def scullp_fops_def scullp_mmap_def vma_ex_def va_ok_def va_offset_def MAX_VMAS_def PAGE_SIZE_def)
  have d3: "ps_devs s3 = [scullp_vma_open p']" "ps_vmas s3 0 = Some vma_ex" using d2 by (simp_all add: s3_def)
  obtain b mem where pg: "scullp_page p' 0 = Some (b, mem)" "mem ! 0 = 5"
    using w(3) by (auto simp: scull_byte_def scull_block_page)
  have pg3: "scullp_page (scullp_vma_open p') 0 = Some (b, mem)" using pg(1) by (simp add: scullp_vma_open_def)
  define a where "a = vma_ex\<lparr>va_pte := [0 \<mapsto> b]\<rparr>"
  define s4 where "s4 = put_vma 0 (Some a) s3"
  have "scull_wf (as_scull (scullp_vma_open p'))" using w(4) by (simp add: scullp_ready_def)
  then have "scullp_vma_nopage (scullp_vma_open p') 65536 65536 0 = Done (Some (b, mem))"
    using scullp_nopage_page [of "scullp_vma_open p'" 0 65536 65536] pg3 w(2) by (simp add: PAGE_SIZE_def scullp_vma_open_def)
  then have st4: "scullp_step s3 (True, OnScullp 0 Silent) s4"
    using vma_fault [of s3 0 vma_ex 65536 0 "Some (b, mem)"] d3
    by (simp add: s4_def a_def scullp_vm_ops_def vma_ex_def va_offset_def)
  have d4: "ps_devs s4 = [scullp_vma_open p']" "ps_vmas s4 0 = Some a" using d3 by (simp_all add: s4_def)
  have st5: "scullp_step s4 (True, OnScullp 0 (Fetched 0 [5])) s4"
    using vma_load [of s4 0 a 65536 0 b] d4 pg3 pg(2) by (simp add: a_def vma_ex_def va_offset_def)
  have "scullp_run (scullp_loaded m') ([] @ [(True, OnScullp 0 Silent)] @ [(True, OnScullp 0 (Wrote 0 [5]))] @ [(True, OnScullp 0 Silent)] @
      [(True, OnScullp 0 Silent)] @ [(True, OnScullp 0 (Fetched 0 [5]))]) s4"
    unfolding append_assoc [symmetric] by (rule prun_snoc [OF _ st5] prun_snoc [OF _ st4] prun_snoc [OF _ st3] prun_snoc [OF _ st2] prun_snoc [OF _ st1] prun_nil)+
  then show thesis using that [OF i, of s4 a b] d4 by (simp add: a_def)
qed


theorem scullp_driver_life_witness:
  "\<exists>m' t s a b. scullp_init penv_ex pmodule_ex = (m', Inr (), t) \<and> scullp_run (scullp_loaded m') pevents_ex s \<and>
     ps_vmas s 0 = Some a \<and> va_pte a 0 = Some b \<and> (\<exists>mem. scullp_page (ps_devs s ! va_dev a) 0 = Some (b, mem))"
proof (rule pmodule_ex_used)
  fix m' t s a b
  assume u: "scullp_init penv_ex pmodule_ex = (m', Inr (), t)" "scullp_geometry (pm_params pmodule_ex)"
    "scullp_run (scullp_loaded m') pevents_ex s" "ps_vmas s 0 = Some a" "va_pte a 0 = Some b"
  have "in_limits pevents_ex" by simp
  with u scullp_driver_life [OF u(1-3)] show ?thesis by blast
qed

end
