(* ===== verification/Block_Store.thy ===== *)
theory Block_Store
  imports Kernel_Base
begin

text \<open>
  The contract between the block layer and the driver of a memory-backed disk. A request names a first
  sector, a direction and a list of segments (the pages of memory it transfers from or to). The abstract
  disk is a flat array of bytes. In the locale, a driver that serves each request within its capacity the
  way the array does is shown to serve every sequence of requests that way, however the block layer cuts
  the transfers into segments.
\<close>

record blk_request =
  rq_sector :: int
  rq_write :: bool
  rq_segs :: "byte list list"

definition rq_bytes :: "blk_request \<Rightarrow> nat" where
  "rq_bytes rq = length (concat (rq_segs rq))"

text \<open>The bytes \<open>bs\<close> laid over the array \<open>m\<close> from the offset \<open>p\<close> on.\<close>

definition overlay :: "byte list \<Rightarrow> nat \<Rightarrow> byte list \<Rightarrow> byte list" where
  "overlay m p bs = take p m @ bs @ drop (p + length bs) m"

text \<open>A stream of bytes poured into segments; a segment that the stream does not fill keeps its rest.\<close>

fun pour :: "byte list list \<Rightarrow> byte list \<Rightarrow> byte list list" where
  "pour [] s = []"
| "pour (b # bs) s = (take (length b) s @ drop (length s) b) # pour bs (drop (length b) s)"

lemma length_overlay [simp]: "p + length bs \<le> length m \<Longrightarrow> length (overlay m p bs) = length m"
  by (simp add: overlay_def)

lemma overlay_Nil [simp]: "overlay m p [] = m"
  by (simp add: overlay_def)

lemma overlay_append:
  "p + length as + length bs \<le> length m \<Longrightarrow>
     overlay (overlay m p as) (p + length as) bs = overlay m p (as @ bs)"
  by (simp add: overlay_def ac_simps)

lemma mem_write_overlay:
  "p + length bs \<le> length m \<Longrightarrow> mem_write m (int p) bs = Done (overlay m p bs)"
  by (simp add: mem_write_def overlay_def)

lemma read_overlay:
  "p + length bs \<le> length m \<Longrightarrow> take (length bs) (drop p (overlay m p bs)) = bs"
  by (simp add: overlay_def)

lemma overlay_nth:
  "p + length bs \<le> length m \<Longrightarrow> i < length m \<Longrightarrow>
     overlay m p bs ! i = (if p \<le> i \<and> i < p + length bs then bs ! (i - p) else m ! i)"
  by (auto simp: overlay_def nth_append min_def)

lemma read_overlay_other:
  assumes "p + length bs \<le> length m" and "q + n \<le> p \<or> p + length bs \<le> q"
  shows "take n (drop q (overlay m p bs)) = take n (drop q m)"
proof (rule nth_equalityI)
  fix i assume i: "i < length (take n (drop q (overlay m p bs)))"
  then have "q + i < length m" "i < n" using assms(1) by auto
  moreover from this have "\<not> (p \<le> q + i \<and> q + i < p + length bs)" using assms(2) by linarith
  ultimately show "take n (drop q (overlay m p bs)) ! i = take n (drop q m) ! i"
    using overlay_nth [OF assms(1), of "q + i"] assms(1) by auto
qed (use assms in simp)

lemma map_length_pour [simp]: "map length (pour bs s) = map length bs"
  by (induction bs s rule: pour.induct) auto

lemma pour_Nil [simp]: "pour bs [] = bs"
  by (induction bs) auto

lemma concat_pour: "concat (pour bs s) = take (length (concat bs)) s @ drop (length s) (concat bs)"
proof (induction bs s rule: pour.induct)
  case (2 b bs s)
  show ?case
  proof (cases "length s \<le> length b")
    case True
    then show ?thesis using 2 by simp
  next
    case False
    then show ?thesis using 2 by (simp add: take_add)
  qed
qed simp

section \<open>The flat disk\<close>

definition disk_step :: "byte list \<Rightarrow> blk_request \<Rightarrow> byte list \<times> byte list list" where
  "disk_step m rq =
     (let p = nat (rq_sector rq) * 512 in
      if rq_write rq then (overlay m p (concat (rq_segs rq)), rq_segs rq)
      else (m, pour (rq_segs rq) (take (rq_bytes rq) (drop p m))))"

fun disk_run :: "byte list \<Rightarrow> blk_request list \<Rightarrow> byte list \<times> byte list list list" where
  "disk_run m [] = (m, [])"
| "disk_run m (rq # rqs) =
     (let (m1, out) = disk_step m rq; (m2, outs) = disk_run m1 rqs in (m2, out # outs))"

text \<open>
  A request the block layer may submit to a disk of \<open>cap\<close> bytes: it lies within the capacity, and its
  length fits the 32-bit counters of the block layer.
\<close>

definition rq_in_range :: "nat \<Rightarrow> blk_request \<Rightarrow> bool" where
  "rq_in_range cap rq \<longleftrightarrow> 0 \<le> rq_sector rq \<and> nat (rq_sector rq) * 512 + rq_bytes rq \<le> cap \<and> rq_bytes rq < 2 ^ 32"

lemma length_disk_step [simp]: "rq_in_range (length m) rq \<Longrightarrow> length (fst (disk_step m rq)) = length m"
  by (simp add: disk_step_def rq_in_range_def rq_bytes_def Let_def)

section \<open>Drivers\<close>

fun serve_all :: "('d \<Rightarrow> blk_request \<Rightarrow> ('d \<times> byte list list) exec) \<Rightarrow> 'd \<Rightarrow> blk_request list \<Rightarrow> ('d \<times> byte list list list) exec" where
  "serve_all serve d [] = Done (d, [])"
| "serve_all serve d (rq # rqs) =
     kbind (serve d rq) (\<lambda>(d1, out). kbind (serve_all serve d1 rqs) (\<lambda>(d2, outs). Done (d2, out # outs)))"

locale block_store =
  fixes serve :: "'d \<Rightarrow> blk_request \<Rightarrow> ('d \<times> byte list list) exec"
    and contents :: "'d \<Rightarrow> byte list"
    and ready :: "'d \<Rightarrow> bool"
  assumes serves: "ready d \<Longrightarrow> rq_in_range (length (contents d)) rq \<Longrightarrow>
      \<exists>d'. serve d rq = Done (d', snd (disk_step (contents d) rq)) \<and>
        contents d' = fst (disk_step (contents d) rq) \<and> ready d'"
begin

lemma serves_all:
  assumes "ready d" and "list_all (rq_in_range (length (contents d))) rqs"
  shows "\<exists>d'. serve_all serve d rqs = Done (d', snd (disk_run (contents d) rqs)) \<and>
    contents d' = fst (disk_run (contents d) rqs) \<and> ready d'"
  using assms
proof (induction rqs arbitrary: d)
  case (Cons rq rqs)
  then obtain d1 where d1: "serve d rq = Done (d1, snd (disk_step (contents d) rq))"
      "contents d1 = fst (disk_step (contents d) rq)" "ready d1"
    using serves [of d rq] by auto
  moreover have "length (contents d1) = length (contents d)" using d1(2) Cons.prems(2) by simp
  ultimately show ?case using Cons.IH [of d1] Cons.prems(2) by (auto split: prod.splits)
qed simp

text \<open>
  What one request writes, another reads back, whatever its segments are, also after requests to other
  sectors.
\<close>

lemma write_read_back:
  assumes "ready d" and "rq_in_range (length (contents d)) w" and "rq_write w"
    and r: "\<not> rq_write r" "rq_sector r = rq_sector w" "rq_bytes r = rq_bytes w"
    and x: "rq_in_range (length (contents d)) x" "nat (rq_sector x) * 512 + rq_bytes x \<le> nat (rq_sector w) * 512
      \<or> nat (rq_sector w) * 512 + rq_bytes w \<le> nat (rq_sector x) * 512"
  shows "\<exists>d' o1 o2 out. serve_all serve d [w, x, r] = Done (d', [o1, o2, out]) \<and>
    concat out = concat (rq_segs w) \<and> map length out = map length (rq_segs r)"
proof -
  have rr: "rq_in_range (length (contents d)) r" using assms(2) r by (simp add: rq_in_range_def)
  have len: "rq_bytes w = length (concat (rq_segs w))" "rq_bytes x = length (concat (rq_segs x))"
    "rq_bytes r = length (concat (rq_segs r))" by (simp_all add: rq_bytes_def)
  let ?p = "nat (rq_sector w) * 512" and ?n = "rq_bytes w"
  let ?m = "overlay (contents d) ?p (concat (rq_segs w))"
  let ?m2 = "fst (disk_step ?m x)"
  have rng: "?p + length (concat (rq_segs w)) \<le> length (contents d)"
    "nat (rq_sector x) * 512 + length (concat (rq_segs x)) \<le> length ?m"
    using assms(2) x(1) by (simp_all add: rq_in_range_def rq_bytes_def)
  have keep: "take ?n (drop ?p ?m2) = concat (rq_segs w)"
  proof (cases "rq_write x")
    case True
    then have "take ?n (drop ?p ?m2) = take ?n (drop ?p ?m)"
      using read_overlay_other [OF rng(2), of ?p ?n] x(2) len by (auto simp: disk_step_def Let_def)
    then show ?thesis using read_overlay [OF rng(1)] len(1) by simp
  next
    case False
    then show ?thesis using read_overlay [OF rng(1)] len(1) by (simp add: disk_step_def Let_def)
  qed
  obtain d' where "serve_all serve d [w, x, r] = Done (d', snd (disk_run (contents d) [w, x, r]))"
    using serves_all [OF assms(1), of "[w, x, r]"] assms(2) x(1) rr by auto
  moreover have "disk_step (contents d) w = (?m, rq_segs w)" using assms(3) by (simp add: disk_step_def Let_def)
  moreover have "disk_step ?m2 r = (?m2, pour (rq_segs r) (concat (rq_segs w)))"
    using r keep by (simp add: disk_step_def Let_def)
  moreover have "concat (pour (rq_segs r) (concat (rq_segs w))) = concat (rq_segs w)"
    using r(3) len by (simp add: concat_pour)
  ultimately show ?thesis by (auto split: prod.splits)
qed

end

end
