(* ===== verification/Blk_Dev.thy ===== *)
theory Blk_Dev
  imports Block_Store
begin

text \<open>
  The request handlers of the four memory-backed disks: \<^verbatim>\<open>m_modules/blk_dev/blkdev.c\<close>, \<^verbatim>\<open>sblkdev.c\<close>,
  \<^verbatim>\<open>mq-blkdev.c\<close> (multi-queue drivers whose \<open>queue_rq\<close> serves a request) and \<^verbatim>\<open>rd.c\<close> (a driver of the old
  interface whose \<open>make_request\<close> serves a bio). Every driver is translated from its own file; then all four are
  shown to satisfy the contract \<open>block_store\<close>.
\<close>

section \<open>Data\<close>

text \<open>
  The driver's structure: \<open>bd_tags\<close> says that \<open>tag_set.tags\<close> is not \<open>NULL\<close>; \<open>bd_queue\<close> and \<open>bd_gdisk\<close>
  are the pointers of the same names.
\<close>

record block_dev =
  bd_capacity :: int
  bd_data :: "byte list owned"
  bd_open_counter :: int
  bd_tags :: bool
  bd_queue :: "addr option"
  bd_gdisk :: "addr option"

definition SECTOR_SHIFT :: nat where "SECTOR_SHIFT = 9"

text \<open>How a request ends: the status handed to the block layer, and the value \<open>queue_rq\<close> returns.\<close>

datatype blk_status = BLK_STS_OK | BLK_STS_IOERR

record rq_outcome =
  ro_status :: blk_status
  ro_returned :: blk_status
  ro_segs :: "byte list list"

text \<open>
  \<open>memcpy\<close> of \<open>n\<close> bytes between a segment and the device's buffer at \<open>pos\<close>, in the direction of the
  request. Either side may be too short for it.
\<close>

definition memcpy_seg :: "bool \<Rightarrow> byte list owned \<Rightarrow> int \<Rightarrow> byte list \<Rightarrow> int \<Rightarrow> (byte list owned \<times> byte list) exec" where
  "memcpy_seg wr data pos buf n =
     (case data of
        None \<Rightarrow> Oops NullDeref
      | Some (a, m) \<Rightarrow>
          if wr then kbind (mem_read buf 0 n) (\<lambda>bs. kbind (mem_write m pos bs) (\<lambda>m'. Done (Some (a, m'), buf)))
          else kbind (mem_read m pos n) (\<lambda>bs. kbind (mem_write buf 0 bs) (\<lambda>buf'. Done (data, buf'))))"

section \<open>\<^verbatim>\<open>blkdev.c\<close>\<close>

text \<open>
  The loop over the segments. The sum \<open>pos + b_len\<close> is computed and compared without a sign, \<open>b_len\<close> has
  no sign either, so the test for a negative length never holds.
\<close>

fun blkdev_segments :: "int \<Rightarrow> bool \<Rightarrow> byte list owned \<Rightarrow> byte list list \<Rightarrow> int \<Rightarrow> int \<Rightarrow> (byte list owned \<times> byte list list \<times> int) exec" where
  "blkdev_segments dev_size wr data [] pos nr_bytes = Done (data, [], nr_bytes)"
| "blkdev_segments dev_size wr data (b_buf # segs) pos nr_bytes =
     (let b_len = int (length b_buf);
          b_len = (if u64 (pos + b_len) > u64 dev_size then u64 (dev_size - pos) else b_len);
          b_len = (if b_len < 0 then 0 else b_len)
      in kbind (memcpy_seg wr data pos b_buf b_len) (\<lambda>(data, b_buf).
         kbind (blkdev_segments dev_size wr data segs (s64 (pos + b_len)) (u32 (nr_bytes + b_len))) (\<lambda>(data, segs, nr_bytes).
           Done (data, b_buf # segs, nr_bytes))))"

definition blkdev_do_request :: "block_dev \<Rightarrow> blk_request \<Rightarrow> (block_dev \<times> byte list list \<times> int) exec" where
  "blkdev_do_request dev rq =
     (let pos = s64 (push_bit SECTOR_SHIFT (rq_sector rq));
          dev_size = s64 (push_bit SECTOR_SHIFT (bd_capacity dev))
      in kbind (blkdev_segments dev_size (rq_write rq) (bd_data dev) (rq_segs rq) pos 0) (\<lambda>(data, segs, nr_bytes).
           Done (dev\<lparr>bd_data := data\<rparr>, segs, nr_bytes)))"

text \<open>\<open>do_request\<close> always returns 0, so the status is \<open>BLK_STS_OK\<close> whatever was transferred.\<close>

definition blkdev_queue_rq :: "block_dev \<Rightarrow> blk_request \<Rightarrow> (block_dev \<times> rq_outcome) exec" where
  "blkdev_queue_rq dev rq =
     kbind (blkdev_do_request dev rq) (\<lambda>(dev, segs, nr_bytes).
       Done (dev, \<lparr>ro_status = BLK_STS_OK, ro_returned = BLK_STS_OK, ro_segs = segs\<rparr>))"

text \<open>Open and release of the disk, whose \<open>private_data\<close> is the device or \<open>NULL\<close>.\<close>

definition blkdev_open :: "block_dev option \<Rightarrow> block_dev option \<times> unit ret" where
  "blkdev_open dev =
     (case dev of None \<Rightarrow> (None, Inl ENXIO)
      | Some d \<Rightarrow> (Some (d\<lparr>bd_open_counter := s32 (bd_open_counter d + 1)\<rparr>), Inr ()))"

definition blkdev_release :: "block_dev option \<Rightarrow> block_dev option" where
  "blkdev_release dev = map_option (\<lambda>d. d\<lparr>bd_open_counter := s32 (bd_open_counter d - 1)\<rparr>) dev"

definition blkdev_ioctl :: "int \<Rightarrow> int \<Rightarrow> int ret" where
  "blkdev_ioctl cmd arg = Inl ENOTTY"

section \<open>\<^verbatim>\<open>sblkdev.c\<close>\<close>

fun sblkdev_segments :: "int \<Rightarrow> bool \<Rightarrow> byte list owned \<Rightarrow> byte list list \<Rightarrow> int \<Rightarrow> int \<Rightarrow> (byte list owned \<times> byte list list \<times> int) exec" where
  "sblkdev_segments dev_size wr data [] pos nr_bytes = Done (data, [], nr_bytes)"
| "sblkdev_segments dev_size wr data (b_buf # segs) pos nr_bytes =
     (let b_len = int (length b_buf);
          b_len = (if u64 (pos + b_len) > u64 dev_size then u64 (dev_size - pos) else b_len)
      in kbind (memcpy_seg wr data pos b_buf b_len) (\<lambda>(data, b_buf).
         kbind (sblkdev_segments dev_size wr data segs (s64 (pos + b_len)) (u32 (nr_bytes + b_len))) (\<lambda>(data, segs, nr_bytes).
           Done (data, b_buf # segs, nr_bytes))))"

definition do_simple_request :: "block_dev \<Rightarrow> blk_request \<Rightarrow> (block_dev \<times> byte list list \<times> int) exec" where
  "do_simple_request dev rq =
     (let pos = s64 (push_bit SECTOR_SHIFT (rq_sector rq));
          dev_size = s64 (push_bit SECTOR_SHIFT (bd_capacity dev))
      in kbind (sblkdev_segments dev_size (rq_write rq) (bd_data dev) (rq_segs rq) pos 0) (\<lambda>(data, segs, nr_bytes).
           Done (dev\<lparr>bd_data := data\<rparr>, segs, nr_bytes)))"

definition sblkdev_queue_rq :: "block_dev \<Rightarrow> blk_request \<Rightarrow> (block_dev \<times> rq_outcome) exec" where
  "sblkdev_queue_rq dev rq =
     kbind (do_simple_request dev rq) (\<lambda>(dev, segs, nr_bytes).
       Done (dev, \<lparr>ro_status = BLK_STS_OK, ro_returned = BLK_STS_OK, ro_segs = segs\<rparr>))"

definition sblkdev_open :: "block_dev option \<Rightarrow> block_dev option \<times> unit ret" where
  "sblkdev_open dev =
     (case dev of None \<Rightarrow> (None, Inl ENXIO)
      | Some d \<Rightarrow> (Some (d\<lparr>bd_open_counter := s32 (bd_open_counter d + 1)\<rparr>), Inr ()))"

definition sblkdev_release :: "block_dev option \<Rightarrow> block_dev option" where
  "sblkdev_release dev =
     (case dev of Some d \<Rightarrow> Some (d\<lparr>bd_open_counter := s32 (bd_open_counter d - 1)\<rparr>) | None \<Rightarrow> None)"

definition sblkdev_ioctl :: "int \<Rightarrow> int \<Rightarrow> int ret" where
  "sblkdev_ioctl cmd arg = Inl ENOTTY"

section \<open>\<^verbatim>\<open>mq-blkdev.c\<close>\<close>

definition blockdev_open :: "unit ret" where "blockdev_open = Inr ()"
definition blockdev_ioctl :: "int \<Rightarrow> int \<Rightarrow> int ret" where "blockdev_ioctl cmd arg = Inl ENOTTY"

fun mq_segments :: "int \<Rightarrow> bool \<Rightarrow> byte list owned \<Rightarrow> byte list list \<Rightarrow> int \<Rightarrow> int \<Rightarrow> (byte list owned \<times> byte list list \<times> int) exec" where
  "mq_segments dev_size wr data [] pos nr_bytes = Done (data, [], nr_bytes)"
| "mq_segments dev_size wr data (b_buf # segs) pos nr_bytes =
     (let b_len = int (length b_buf);
          b_len = (if u64 (pos + b_len) > u64 dev_size then u64 (dev_size - pos) else b_len)
      in kbind (memcpy_seg wr data pos b_buf b_len) (\<lambda>(data, b_buf).
         kbind (mq_segments dev_size wr data segs (s64 (pos + b_len)) (u32 (nr_bytes + b_len))) (\<lambda>(data, segs, nr_bytes).
           Done (data, b_buf # segs, nr_bytes))))"

definition mq_do_request :: "block_dev \<Rightarrow> blk_request \<Rightarrow> (block_dev \<times> byte list list \<times> int) exec" where
  "mq_do_request dev rq =
     (let pos = s64 (push_bit SECTOR_SHIFT (rq_sector rq));
          dev_size = s64 (push_bit SECTOR_SHIFT (bd_capacity dev))
      in kbind (mq_segments dev_size (rq_write rq) (bd_data dev) (rq_segs rq) pos 0) (\<lambda>(data, segs, nr_bytes).
           Done (dev\<lparr>bd_data := data\<rparr>, segs, nr_bytes)))"

text \<open>
  \<open>blk_update_request\<close> of the block layer is the parameter \<open>update\<close>: \<open>update total n\<close> says whether a
  request of \<open>total\<close> bytes still has bytes pending when \<open>n\<close> of them are completed. The driver calls
  \<open>BUG()\<close> if it has.
\<close>

type_synonym update_request = "nat \<Rightarrow> int \<Rightarrow> bool"

definition mq_queue_rq :: "update_request \<Rightarrow> block_dev \<Rightarrow> blk_request \<Rightarrow> (block_dev \<times> rq_outcome) exec" where
  "mq_queue_rq update dev rq =
     kbind (mq_do_request dev rq) (\<lambda>(dev, segs, nr_bytes).
       if update (rq_bytes rq) nr_bytes then Oops KernelBug
       else Done (dev, \<lparr>ro_status = BLK_STS_OK, ro_returned = BLK_STS_OK, ro_segs = segs\<rparr>))"

text \<open>What the block layer documents: bytes are pending until all of them are completed.\<close>

definition update_documented :: "update_request \<Rightarrow> bool" where
  "update_documented update \<longleftrightarrow> (\<forall>total n. update total n \<longleftrightarrow> n < int total)"

section \<open>\<^verbatim>\<open>rd.c\<close>\<close>

definition DEVICE_SECTOR_SIZE :: int where "DEVICE_SECTOR_SIZE = 512"
definition DEVICE_SIZE :: int where "DEVICE_SIZE = 4 * 1024 * 1024"
definition DEVICE_SECTOR_TOTAL :: int where "DEVICE_SECTOR_TOTAL = DEVICE_SIZE div DEVICE_SECTOR_SIZE"

datatype bio_dir = READA | READ | WRITE | OtherDir

record bio =
  bi_sector :: int
  bi_size :: int
  bi_dir :: bio_dir
  bi_segs :: "byte list list"

text \<open>
  The loop over the segments of a bio, with \<open>hdd_data\<close> as an offset into the disk's memory. The result
  \<open>Inl\<close> is the jump to \<open>fail\<close>, with the segments as they are by then.
\<close>

fun rd_segments :: "bio_dir \<Rightarrow> byte list owned \<Rightarrow> byte list list \<Rightarrow> int \<Rightarrow> (byte list owned \<times> byte list list \<times> unit ret) exec" where
  "rd_segments dir data [] hdd = Done (data, [], Inr ())"
| "rd_segments dir data (buf # segs) hdd =
     (case dir of
        OtherDir \<Rightarrow> Done (data, buf # segs, Inl EIO)
      | _ \<Rightarrow> kbind (memcpy_seg (dir = WRITE) data hdd buf (int (length buf))) (\<lambda>(data, buf).
              kbind (rd_segments dir data segs (hdd + int (length buf))) (\<lambda>(data, segs, r).
                Done (data, buf # segs, r))))"

text \<open>
  \<open>make_request\<close>: \<open>Inr\<close> is the return value 0 after \<open>bio_endio\<close>, \<open>Inl EIO\<close> the return value \<open>-1\<close> after
  \<open>bio_io_error\<close>. \<open>private_data\<close> points to the variable \<open>vdisk\<close>, which is read through the type
  \<open>struct root_device_t\<close>: its first field \<open>data\<close> is what \<open>vdisk\<close> holds.
\<close>

definition device_make_request :: "byte list owned \<Rightarrow> bio \<Rightarrow> (byte list owned \<times> byte list list \<times> unit ret) exec" where
  "device_make_request vdisk bio =
     (if u64 (u64 (bi_sector bio * DEVICE_SECTOR_SIZE) + bi_size bio) > DEVICE_SIZE then Done (vdisk, bi_segs bio, Inl EIO)
      else rd_segments (bi_dir bio) vdisk (bi_segs bio) (u64 (bi_sector bio * DEVICE_SECTOR_SIZE)))"

definition device_open :: "unit ret" where "device_open = Inr ()"
definition device_release :: "unit ret" where "device_release = Inr ()"
definition device_ioctl :: "int \<Rightarrow> int \<Rightarrow> int ret" where "device_ioctl cmd arg = Inl EIO"

section \<open>The three loops are one\<close>

lemma sblkdev_segments_eq: "sblkdev_segments z wr data segs pos n = blkdev_segments z wr data segs pos n"
  by (induction segs arbitrary: data pos n) (auto simp: Let_def intro!: kbind_cong)

lemma mq_segments_eq: "mq_segments z wr data segs pos n = blkdev_segments z wr data segs pos n"
  by (induction segs arbitrary: data pos n) (auto simp: Let_def intro!: kbind_cong)

lemma do_simple_request_eq: "do_simple_request dev rq = blkdev_do_request dev rq"
  by (simp add: do_simple_request_def blkdev_do_request_def sblkdev_segments_eq)

lemma mq_do_request_eq: "mq_do_request dev rq = blkdev_do_request dev rq"
  by (simp add: mq_do_request_def blkdev_do_request_def mq_segments_eq)

section \<open>What the loop transfers\<close>

lemma memcpy_write:
  "p + n \<le> length m \<Longrightarrow> n \<le> length buf \<Longrightarrow>
     memcpy_seg True (Some (a, m)) (int p) buf (int n) = Done (Some (a, overlay m p (take n buf)), buf)"
  by (simp add: memcpy_seg_def mem_read_def mem_write_overlay)

lemma memcpy_read:
  "p + n \<le> length m \<Longrightarrow> n \<le> length buf \<Longrightarrow>
     memcpy_seg False (Some (a, m)) (int p) buf (int n) = Done (Some (a, m), take n (drop p m) @ drop n buf)"
  by (simp add: memcpy_seg_def mem_read_def mem_write_def)

lemma seg_len:
  assumes "p \<le> z" and "z < 2 ^ 62" and "k < 2 ^ 32"
  shows "(if u64 (int p + int k) > u64 (int z) then u64 (int z - int p) else int k) = int (min k (z - p))"
proof -
  have "u64 (int p + int k) = int p + int k" "u64 (int z) = int z" "u64 (int z - int p) = int z - int p"
    using assms by (simp_all add: u64_id)
  then show ?thesis using assms(1) by auto
qed

lemma segments_write:
  assumes "p \<le> length m" and "length m < 2 ^ 62" and "length (concat segs) < 2 ^ 32" and "0 \<le> nr" "nr + int (length (concat segs)) < 2 ^ 32"
  shows "blkdev_segments (int (length m)) True (Some (a, m)) segs (int p) nr =
    Done (Some (a, overlay m p (take (length m - p) (concat segs))), segs,
      nr + int (min (length (concat segs)) (length m - p)))"
  using assms
proof (induction segs arbitrary: m p nr)
  case (Cons b segs)
  define n where "n = min (length b) (length m - p)"
  define m1 where "m1 = overlay m p (take n b)"
  have n: "n \<le> length b" "p + n \<le> length m" "int n < 2 ^ 32" using Cons.prems by (auto simp: n_def)
  have len: "length m1 = length m" using n by (simp add: m1_def)
  have w: "s64 (int p + int n) = int (p + n)" "u32 (nr + int n) = nr + int n"
    using n Cons.prems by (simp_all add: s64_nonneg u32_id)
  have IH: "blkdev_segments (int (length m)) True (Some (a, m1)) segs (int (p + n)) (nr + int n) =
      Done (Some (a, overlay m1 (p + n) (take (length m - (p + n)) (concat segs))), segs,
        nr + int n + int (min (length (concat segs)) (length m - (p + n))))"
    using Cons.IH [of "p + n" m1 "nr + int n"] Cons.prems n by (simp add: len)
  have "blkdev_segments (int (length m)) True (Some (a, m)) (b # segs) (int p) nr =
      kbind (memcpy_seg True (Some (a, m)) (int p) b (int n)) (\<lambda>(data, b_buf).
         kbind (blkdev_segments (int (length m)) True data segs (s64 (int p + int n)) (u32 (nr + int n))) (\<lambda>(data, segs, nr_bytes).
           Done (data, b_buf # segs, nr_bytes)))"
    using seg_len [of p "length m" "length b"] Cons.prems by (simp add: n_def Let_def)
  also have "\<dots> = Done (Some (a, overlay m1 (p + n) (take (length m - (p + n)) (concat segs))), b # segs,
        nr + int n + int (min (length (concat segs)) (length m - (p + n))))"
    unfolding w memcpy_write [OF n(2,1)] m1_def [symmetric] by (simp only: kbind.simps prod.case IH)
  also have "overlay m1 (p + n) (take (length m - (p + n)) (concat segs)) = overlay m p (take (length m - p) (concat (b # segs)))"
  proof -
    have "take (length m - p) (concat (b # segs)) = take n b @ take (length m - (p + n)) (concat segs)"
      by (auto simp: n_def min_def)
    then show ?thesis
      using overlay_append [of p "take n b" "take (length m - (p + n)) (concat segs)" m] n by (simp add: m1_def)
  qed
  also have "nr + int n + int (min (length (concat segs)) (length m - (p + n))) = nr + int (min (length (concat (b # segs))) (length m - p))"
    by (auto simp: n_def min_def)
  finally show ?case .
qed simp

lemma segments_read:
  assumes "p \<le> length m" and "length m < 2 ^ 62" and "length (concat segs) < 2 ^ 32" and "0 \<le> nr" "nr + int (length (concat segs)) < 2 ^ 32"
  shows "blkdev_segments (int (length m)) False (Some (a, m)) segs (int p) nr =
    Done (Some (a, m), pour segs (drop p m), nr + int (min (length (concat segs)) (length m - p)))"
  using assms
proof (induction segs arbitrary: p nr)
  case (Cons b segs)
  define n where "n = min (length b) (length m - p)"
  have n: "n \<le> length b" "p + n \<le> length m" "int n < 2 ^ 32" using Cons.prems by (auto simp: n_def)
  have w: "s64 (int p + int n) = int (p + n)" "u32 (nr + int n) = nr + int n"
    using n Cons.prems by (simp_all add: s64_nonneg u32_id)
  have IH: "blkdev_segments (int (length m)) False (Some (a, m)) segs (int (p + n)) (nr + int n) =
      Done (Some (a, m), pour segs (drop (p + n) m), nr + int n + int (min (length (concat segs)) (length m - (p + n))))"
    using Cons.IH [of "p + n" "nr + int n"] Cons.prems n by simp
  have "blkdev_segments (int (length m)) False (Some (a, m)) (b # segs) (int p) nr =
      kbind (memcpy_seg False (Some (a, m)) (int p) b (int n)) (\<lambda>(data, b_buf).
         kbind (blkdev_segments (int (length m)) False data segs (s64 (int p + int n)) (u32 (nr + int n))) (\<lambda>(data, segs, nr_bytes).
           Done (data, b_buf # segs, nr_bytes)))"
    using seg_len [of p "length m" "length b"] Cons.prems by (simp add: n_def Let_def)
  also have "\<dots> = Done (Some (a, m), (take n (drop p m) @ drop n b) # pour segs (drop (p + n) m),
        nr + int n + int (min (length (concat segs)) (length m - (p + n))))"
    unfolding w memcpy_read [OF n(2,1)] by (simp only: kbind.simps prod.case IH)
  also have "(take n (drop p m) @ drop n b) # pour segs (drop (p + n) m) = pour (b # segs) (drop p m)"
    by (auto simp: n_def min_def add.commute)
  also have "nr + int n + int (min (length (concat segs)) (length m - (p + n))) = nr + int (min (length (concat (b # segs))) (length m - p))"
    by (auto simp: n_def min_def)
  finally show ?case .
qed simp

section \<open>Devices\<close>

text \<open>A device with its buffer: the capacity in sectors is that of the buffer.\<close>

definition bd_contents :: "block_dev \<Rightarrow> byte list" where
  "bd_contents dev = (case bd_data dev of None \<Rightarrow> [] | Some (a, m) \<Rightarrow> m)"

definition bd_ready :: "block_dev \<Rightarrow> bool" where
  "bd_ready dev \<longleftrightarrow> bd_data dev \<noteq> None \<and> 0 \<le> bd_capacity dev \<and> bd_capacity dev < 2 ^ 50 \<and>
     int (length (bd_contents dev)) = bd_capacity dev * 512"

text \<open>
  A request that starts within the capacity: the transfer ends with the device, the number of bytes
  completed is what lay within it.
\<close>

lemma do_request_spec:
  assumes "bd_ready dev" and "0 \<le> rq_sector rq" and "nat (rq_sector rq) * 512 \<le> length (bd_contents dev)" and "rq_bytes rq < 2 ^ 32"
  defines "p \<equiv> nat (rq_sector rq) * 512" and "m \<equiv> bd_contents dev"
  shows "\<exists>dev'. blkdev_do_request dev rq =
      Done (dev', (if rq_write rq then rq_segs rq else pour (rq_segs rq) (drop p m)), int (min (rq_bytes rq) (length m - p))) \<and>
    bd_contents dev' = (if rq_write rq then overlay m p (take (length m - p) (concat (rq_segs rq))) else m) \<and> bd_ready dev'"
proof -
  obtain a where a: "bd_data dev = Some (a, m)"
    using assms(1) by (auto simp: bd_ready_def m_def bd_contents_def)
  have z: "s64 (push_bit SECTOR_SHIFT (bd_capacity dev)) = int (length m)" "length m < 2 ^ 62"
    using assms(1) by (simp_all add: bd_ready_def m_def SECTOR_SHIFT_def push_bit_eq_mult s64_nonneg)
  have p: "p \<le> length m" "s64 (push_bit SECTOR_SHIFT (rq_sector rq)) = int p"
    using assms(2,3) z(2) by (simp_all add: p_def m_def SECTOR_SHIFT_def push_bit_eq_mult s64_nonneg)
  have b: "length (concat (rq_segs rq)) < 2 ^ 32" using assms(4) by (simp add: rq_bytes_def)
  have l: "length (overlay m p (take (length m - p) (concat (rq_segs rq)))) = length m" using p(1) by simp
  show ?thesis
  proof (cases "rq_write rq")
    case True
    then show ?thesis
      using segments_write [OF p(1) z(2) b, of 0 a] a z p b l assms(1)
      by (auto simp: blkdev_do_request_def Let_def rq_bytes_def bd_contents_def bd_ready_def min_def)
  next
    case False
    then show ?thesis
      using segments_read [OF p(1) z(2) b, of 0 a] a z p b l assms(1)
      by (auto simp: blkdev_do_request_def Let_def rq_bytes_def bd_contents_def bd_ready_def)
  qed
qed

section \<open>The contract\<close>

text \<open>What the block layer sees of a request: the device afterwards and the memory of the segments.\<close>

definition served :: "(block_dev \<times> rq_outcome) exec \<Rightarrow> (block_dev \<times> byte list list) exec" where
  "served x = kbind x (\<lambda>(dev, out). Done (dev, ro_segs out))"

lemma pour_take: "pour segs (take (length (concat segs)) s) = pour segs s"
proof (induction segs s rule: pour.induct)
  case (2 b bs s)
  have "drop (length b) (take (length b + length (concat bs)) s) = take (length (concat bs)) (drop (length b) s)"
    by (simp add: drop_take)
  moreover have "drop (min (length s) (length b + length (concat bs))) b = drop (length s) b"
    by (auto simp: min_def)
  ultimately show ?case using 2 by (simp add: min.commute del: drop_take)
qed simp

lemma do_request_in_range:
  assumes "bd_ready dev" and "rq_in_range (length (bd_contents dev)) rq"
  shows "\<exists>dev'. blkdev_do_request dev rq = Done (dev', snd (disk_step (bd_contents dev) rq), int (rq_bytes rq)) \<and>
    bd_contents dev' = fst (disk_step (bd_contents dev) rq) \<and> bd_ready dev'"
proof -
  have "0 \<le> rq_sector rq" "nat (rq_sector rq) * 512 \<le> length (bd_contents dev)" "rq_bytes rq < 2 ^ 32"
    and n: "rq_bytes rq \<le> length (bd_contents dev) - nat (rq_sector rq) * 512"
    using assms(2) by (auto simp: rq_in_range_def)
  from do_request_spec [OF assms(1) this(1-3)] n show ?thesis
    by (auto simp: disk_step_def Let_def rq_bytes_def pour_take min_def split: if_splits)
qed

interpretation blkdev: block_store "\<lambda>dev rq. served (blkdev_queue_rq dev rq)" bd_contents bd_ready
proof unfold_locales
  fix d rq assume "bd_ready d" "rq_in_range (length (bd_contents d)) rq"
  from do_request_in_range [OF this]
  show "\<exists>d'. served (blkdev_queue_rq d rq) = Done (d', snd (disk_step (bd_contents d) rq)) \<and>
      bd_contents d' = fst (disk_step (bd_contents d) rq) \<and> bd_ready d'"
    by (auto simp: served_def blkdev_queue_rq_def)
qed

interpretation sblkdev: block_store "\<lambda>dev rq. served (sblkdev_queue_rq dev rq)" bd_contents bd_ready
proof unfold_locales
  fix d rq assume "bd_ready d" "rq_in_range (length (bd_contents d)) rq"
  from do_request_in_range [OF this]
  show "\<exists>d'. served (sblkdev_queue_rq d rq) = Done (d', snd (disk_step (bd_contents d) rq)) \<and>
      bd_contents d' = fst (disk_step (bd_contents d) rq) \<and> bd_ready d'"
    by (auto simp: served_def sblkdev_queue_rq_def do_simple_request_eq)
qed

text \<open>The driver that calls \<open>BUG()\<close> on a request it did not complete relies on \<open>blk_update_request\<close>.\<close>

lemma mq_serves:
  assumes "update_documented update" and "bd_ready d" "rq_in_range (length (bd_contents d)) rq"
  shows "\<exists>d'. served (mq_queue_rq update d rq) = Done (d', snd (disk_step (bd_contents d) rq)) \<and>
    bd_contents d' = fst (disk_step (bd_contents d) rq) \<and> bd_ready d'"
  using do_request_in_range [OF assms(2,3)] assms(1)
  by (auto simp: served_def mq_queue_rq_def mq_do_request_eq update_documented_def)

interpretation mq: block_store "\<lambda>dev rq. served (mq_queue_rq (\<lambda>total n. n < int total) dev rq)" bd_contents bd_ready
  using mq_serves [of "\<lambda>total n. n < int total"] by unfold_locales (simp add: update_documented_def)

text \<open>The old driver: the bio of a request, and its disk.\<close>

definition rq_bio :: "blk_request \<Rightarrow> bio" where
  "rq_bio rq = \<lparr>bi_sector = rq_sector rq, bi_size = int (rq_bytes rq),
     bi_dir = (if rq_write rq then WRITE else READ), bi_segs = rq_segs rq\<rparr>"

definition rd_serve :: "byte list owned \<Rightarrow> blk_request \<Rightarrow> (byte list owned \<times> byte list list) exec" where
  "rd_serve vdisk rq = kbind (device_make_request vdisk (rq_bio rq)) (\<lambda>(vdisk, segs, r). Done (vdisk, segs))"

definition vdisk_contents :: "byte list owned \<Rightarrow> byte list" where
  "vdisk_contents vdisk = (case vdisk of None \<Rightarrow> [] | Some (a, m) \<Rightarrow> m)"

definition vdisk_ready :: "byte list owned \<Rightarrow> bool" where
  "vdisk_ready vdisk \<longleftrightarrow> vdisk \<noteq> None \<and> int (length (vdisk_contents vdisk)) = DEVICE_SIZE"

lemma rd_segments_write:
  "p + length (concat segs) \<le> length m \<Longrightarrow>
     rd_segments WRITE (Some (a, m)) segs (int p) = Done (Some (a, overlay m p (concat segs)), segs, Inr ())"
proof (induction segs arbitrary: m p)
  case (Cons b segs)
  have "rd_segments WRITE (Some (a, overlay m p b)) segs (int (p + length b)) =
      Done (Some (a, overlay m p (b @ concat segs)), segs, Inr ())"
    using Cons.IH [of "p + length b" "overlay m p b"] Cons.prems by (simp add: overlay_append)
  then show ?case using memcpy_write [of p "length b" m b a] Cons.prems by simp
qed simp

lemma rd_segments_read:
  "p + length (concat segs) \<le> length m \<Longrightarrow>
     rd_segments READ (Some (a, m)) segs (int p) = Done (Some (a, m), pour segs (drop p m), Inr ())"
proof (induction segs arbitrary: p)
  case (Cons b segs)
  have "rd_segments READ (Some (a, m)) segs (int (p + length b)) = Done (Some (a, m), pour segs (drop (p + length b) m), Inr ())"
    using Cons.IH [of "p + length b"] Cons.prems by simp
  then show ?case using memcpy_read [of p "length b" m b a] Cons.prems by (simp add: add.commute)
qed simp

lemma rd_serves:
  assumes "vdisk_ready d" and "rq_in_range (length (vdisk_contents d)) rq"
  shows "\<exists>d'. device_make_request d (rq_bio rq) = Done (d', snd (disk_step (vdisk_contents d) rq), Inr ()) \<and>
    vdisk_contents d' = fst (disk_step (vdisk_contents d) rq) \<and> vdisk_ready d'"
proof -
  obtain a m where d: "d = Some (a, m)" "int (length m) = DEVICE_SIZE"
    using assms(1) by (auto simp: vdisk_ready_def vdisk_contents_def)
  define p where "p = nat (rq_sector rq) * 512"
  have p: "p + length (concat (rq_segs rq)) \<le> length m" "rq_bytes rq = length (concat (rq_segs rq))" "rq_sector rq * 512 = int p"
    using assms(2) d by (simp_all add: rq_in_range_def rq_bytes_def p_def vdisk_contents_def)
  have c: "p + length (concat (rq_segs rq)) \<le> 4194304" using p(1) d(2) by (simp add: DEVICE_SIZE_def)
  have u: "u64 (rq_sector rq * DEVICE_SECTOR_SIZE) = int p" "u64 (int p + int (rq_bytes rq)) = int (p + rq_bytes rq)"
    using c p(2) by (simp_all add: DEVICE_SECTOR_SIZE_def p(3) u64_id)
  have "device_make_request d (rq_bio rq) = rd_segments (if rq_write rq then WRITE else READ) d (rq_segs rq) (int p)"
    using u c p(2) by (simp add: device_make_request_def rq_bio_def DEVICE_SIZE_def)
  then show ?thesis
    using rd_segments_write [OF p(1), of a] rd_segments_read [OF p(1), of a] d p
    by (auto simp: disk_step_def Let_def p_def [symmetric] vdisk_contents_def vdisk_ready_def pour_take)
qed

interpretation rd: block_store rd_serve vdisk_contents vdisk_ready
proof unfold_locales
  fix d rq assume "vdisk_ready d" "rq_in_range (length (vdisk_contents d)) rq"
  from rd_serves [OF this]
  show "\<exists>d'. rd_serve d rq = Done (d', snd (disk_step (vdisk_contents d) rq)) \<and>
      vdisk_contents d' = fst (disk_step (vdisk_contents d) rq) \<and> vdisk_ready d'"
    by (auto simp: rd_serve_def)
qed

section \<open>Properties\<close>

text \<open>
  C25. Each of the four drivers is a disk. Whatever requests within its capacity the block layer submits, cut
  into whatever segments, the driver serves all of them without a fault, leaves exactly the bytes on the
  disk and hands exactly the bytes to the readers that a flat array of bytes would.
\<close>

theorem blk_drivers_refine_disk:
  assumes "bd_ready dev" and "list_all (rq_in_range (length (bd_contents dev))) rqs"
    and "vdisk_ready vdisk" and "list_all (rq_in_range (length (vdisk_contents vdisk))) rqs'"
    and "update_documented update"
  shows "(\<exists>dev'. serve_all (\<lambda>dev rq. served (blkdev_queue_rq dev rq)) dev rqs = Done (dev', snd (disk_run (bd_contents dev) rqs)) \<and>
      bd_contents dev' = fst (disk_run (bd_contents dev) rqs)) \<and>
    (\<exists>dev'. serve_all (\<lambda>dev rq. served (sblkdev_queue_rq dev rq)) dev rqs = Done (dev', snd (disk_run (bd_contents dev) rqs)) \<and>
      bd_contents dev' = fst (disk_run (bd_contents dev) rqs)) \<and>
    (\<exists>dev'. serve_all (\<lambda>dev rq. served (mq_queue_rq update dev rq)) dev rqs = Done (dev', snd (disk_run (bd_contents dev) rqs)) \<and>
      bd_contents dev' = fst (disk_run (bd_contents dev) rqs)) \<and>
    (\<exists>vdisk'. serve_all rd_serve vdisk rqs' = Done (vdisk', snd (disk_run (vdisk_contents vdisk) rqs')) \<and>
      vdisk_contents vdisk' = fst (disk_run (vdisk_contents vdisk) rqs'))"
proof -
  have "update = (\<lambda>total n. n < int total)" using assms(5) by (simp add: update_documented_def fun_eq_iff)
  then show ?thesis
    using blkdev.serves_all [OF assms(1,2)] sblkdev.serves_all [OF assms(1,2)] mq.serves_all [OF assms(1,2)]
      rd.serves_all [OF assms(3,4)] by blast
qed

text \<open>
  What one request writes, a later request for the same bytes reads back from the device, however either
  is cut into segments, also when a request to other sectors comes in between.
\<close>

theorem blk_write_read_back:
  assumes "bd_ready dev" and "rq_in_range (length (bd_contents dev)) w" and "rq_write w"
    and "\<not> rq_write r" "rq_sector r = rq_sector w" "rq_bytes r = rq_bytes w"
    and "rq_in_range (length (bd_contents dev)) x" "nat (rq_sector x) * 512 + rq_bytes x \<le> nat (rq_sector w) * 512
      \<or> nat (rq_sector w) * 512 + rq_bytes w \<le> nat (rq_sector x) * 512"
  shows "\<exists>dev' o1 o2 out. serve_all (\<lambda>dev rq. served (blkdev_queue_rq dev rq)) dev [w, x, r] = Done (dev', [o1, o2, out]) \<and>
    concat out = concat (rq_segs w) \<and> map length out = map length (rq_segs r)"
  by (rule blkdev.write_read_back [OF assms])

lemma segments_behind_end:
  assumes "b \<noteq> []" "length b < 2 ^ 32" and "z < p" "p < 2 ^ 62" and "0 \<le> z"
  shows "blkdev_segments z wr (Some (a, m)) (b # segs) p 0 = Oops OutOfBounds"
proof -
  have "u64 (z - p) = z - p + 2 ^ 64"
  proof -
    have "(z - p) mod 2 ^ 64 = (z - p + 2 ^ 64) mod 2 ^ 64" by simp
    also have "\<dots> = z - p + 2 ^ 64" using assms by (intro mod_pos_pos_trivial) auto
    finally show ?thesis by (simp add: u64_def take_bit_eq_mod)
  qed
  moreover have "u64 (p + int (length b)) = p + int (length b)" "u64 z = z" using assms by (simp_all add: u64_id)
  ultimately have "u64 z < u64 (p + int (length b))" "u64 (z - p) > int (length b)" using assms by auto
  moreover from this have "memcpy_seg wr (Some (a, m)) p b (u64 (z - p)) = Oops OutOfBounds"
    by (auto simp: memcpy_seg_def mem_read_def mem_write_def)
  ultimately show ?thesis by (simp add: Let_def)
qed

text \<open>
  C26. A request that reaches beyond the end of the device. If it starts within the device, all three
  multi-queue drivers transfer exactly the bytes that lie on it and access nothing else; \<^verbatim>\<open>blkdev.c\<close> and
  \<^verbatim>\<open>sblkdev.c\<close> complete it as a success although bytes are missing, \<^verbatim>\<open>mq-blkdev.c\<close> runs into \<open>BUG()\<close>
  exactly if bytes are missing. If it starts behind the end, the length that is left becomes a huge
  unsigned number and all three copy out of bounds.
\<close>

theorem blk_request_past_end:
  assumes "bd_ready dev" and "0 \<le> rq_sector rq" and "rq_bytes rq < 2 ^ 32" and "update_documented update"
  defines "p \<equiv> nat (rq_sector rq) * 512" and "m \<equiv> bd_contents dev"
  shows "(p \<le> length m \<longrightarrow> (\<exists>dev' segs n. blkdev_do_request dev rq = Done (dev', segs, int n) \<and>
        n = min (rq_bytes rq) (length m - p) \<and>
        bd_contents dev' = (if rq_write rq then overlay m p (take n (concat (rq_segs rq))) else m) \<and>
        concat segs = (if rq_write rq then concat (rq_segs rq) else take n (drop p m) @ drop n (concat (rq_segs rq))) \<and>
        blkdev_queue_rq dev rq = Done (dev', \<lparr>ro_status = BLK_STS_OK, ro_returned = BLK_STS_OK, ro_segs = segs\<rparr>) \<and>
        sblkdev_queue_rq dev rq = Done (dev', \<lparr>ro_status = BLK_STS_OK, ro_returned = BLK_STS_OK, ro_segs = segs\<rparr>) \<and>
        (mq_queue_rq update dev rq = Oops KernelBug \<longleftrightarrow> length m < p + rq_bytes rq))) \<and>
    (length m < p \<and> p < 2 ^ 62 \<and> rq_segs rq \<noteq> [] \<and> hd (rq_segs rq) \<noteq> [] \<longrightarrow>
        blkdev_queue_rq dev rq = Oops OutOfBounds \<and> sblkdev_queue_rq dev rq = Oops OutOfBounds \<and>
        mq_queue_rq update dev rq = Oops OutOfBounds)"
proof (intro conjI impI)
  assume le: "p \<le> length m"
  define n where "n = min (rq_bytes rq) (length m - p)"
  define segs where "segs = (if rq_write rq then rq_segs rq else pour (rq_segs rq) (drop p m))"
  obtain dev' where d: "blkdev_do_request dev rq = Done (dev', segs, int n)"
    and c: "bd_contents dev' = (if rq_write rq then overlay m p (take (length m - p) (concat (rq_segs rq))) else m)"
    using do_request_spec [OF assms(1,2) _ assms(3)] le by (auto simp: p_def m_def n_def segs_def)
  have c': "bd_contents dev' = (if rq_write rq then overlay m p (take n (concat (rq_segs rq))) else m)"
    unfolding c n_def by (cases "rq_bytes rq \<le> length m - p") (simp_all add: rq_bytes_def)
  have segs: "concat segs = (if rq_write rq then concat (rq_segs rq) else take n (drop p m) @ drop n (concat (rq_segs rq)))"
    unfolding n_def by (cases "rq_bytes rq \<le> length m - p") (simp_all add: rq_bytes_def concat_pour segs_def)
  have mq: "mq_queue_rq update dev rq = Oops KernelBug \<longleftrightarrow> length m < p + rq_bytes rq"
    using d assms(4) le by (auto simp: mq_queue_rq_def mq_do_request_eq update_documented_def n_def)
  have "blkdev_queue_rq dev rq = Done (dev', \<lparr>ro_status = BLK_STS_OK, ro_returned = BLK_STS_OK, ro_segs = segs\<rparr>)"
    "sblkdev_queue_rq dev rq = Done (dev', \<lparr>ro_status = BLK_STS_OK, ro_returned = BLK_STS_OK, ro_segs = segs\<rparr>)"
    using d by (simp_all add: blkdev_queue_rq_def sblkdev_queue_rq_def do_simple_request_eq)
  with d c' segs mq n_def show "\<exists>dev' segs n. blkdev_do_request dev rq = Done (dev', segs, int n) \<and>
        n = min (rq_bytes rq) (length m - p) \<and>
        bd_contents dev' = (if rq_write rq then overlay m p (take n (concat (rq_segs rq))) else m) \<and>
        concat segs = (if rq_write rq then concat (rq_segs rq) else take n (drop p m) @ drop n (concat (rq_segs rq))) \<and>
        blkdev_queue_rq dev rq = Done (dev', \<lparr>ro_status = BLK_STS_OK, ro_returned = BLK_STS_OK, ro_segs = segs\<rparr>) \<and>
        sblkdev_queue_rq dev rq = Done (dev', \<lparr>ro_status = BLK_STS_OK, ro_returned = BLK_STS_OK, ro_segs = segs\<rparr>) \<and>
        (mq_queue_rq update dev rq = Oops KernelBug \<longleftrightarrow> length m < p + rq_bytes rq)"
    by (intro exI conjI)
next
  assume A: "length m < p \<and> p < 2 ^ 62 \<and> rq_segs rq \<noteq> [] \<and> hd (rq_segs rq) \<noteq> []"
  then obtain b segs where s: "rq_segs rq = b # segs" "b \<noteq> []" by (cases "rq_segs rq") auto
  then have b: "length b < 2 ^ 32" using assms(3) by (simp add: rq_bytes_def)
  obtain a where a: "bd_data dev = Some (a, m)"
    using assms(1) by (auto simp: bd_ready_def m_def bd_contents_def)
  have z: "s64 (push_bit SECTOR_SHIFT (bd_capacity dev)) = int (length m)"
    "s64 (push_bit SECTOR_SHIFT (rq_sector rq)) = int p"
    using assms(1,2) A by (auto simp: bd_ready_def m_def p_def SECTOR_SHIFT_def push_bit_eq_mult nat_less_iff intro!: s64_nonneg)
  have "blkdev_do_request dev rq = Oops OutOfBounds"
    using segments_behind_end [OF s(2) b, of "int (length m)" "int p" "rq_write rq" a m segs] A
    by (simp add: blkdev_do_request_def z a s(1))
  then show "blkdev_queue_rq dev rq = Oops OutOfBounds" "sblkdev_queue_rq dev rq = Oops OutOfBounds"
    "mq_queue_rq update dev rq = Oops OutOfBounds"
    by (simp_all add: blkdev_queue_rq_def sblkdev_queue_rq_def mq_queue_rq_def do_simple_request_eq mq_do_request_eq)
qed

section \<open>Witnesses\<close>

definition bd_ex :: block_dev where
  "bd_ex = \<lparr>bd_capacity = 1, bd_data = Some (5, replicate 512 0), bd_open_counter = 0, bd_tags = True,
     bd_queue = Some 6, bd_gdisk = Some 7\<rparr>"

definition vdisk_ex :: "byte list owned" where
  "vdisk_ex = Some (5, replicate 4194304 0)"

lemma ex_ready [simp]: "bd_ready bd_ex" "length (bd_contents bd_ex) = 512" "vdisk_ready vdisk_ex"
  "update_documented (\<lambda>total n. n < int total)" "length (vdisk_contents vdisk_ex) = 4194304"
  by (simp_all add: bd_ready_def bd_contents_def bd_ex_def vdisk_ready_def vdisk_ex_def vdisk_contents_def
      DEVICE_SIZE_def update_documented_def)

definition w_ex :: blk_request where "w_ex = \<lparr>rq_sector = 0, rq_write = True, rq_segs = [[1, 2], [3]]\<rparr>"
definition r_ex :: blk_request where "r_ex = \<lparr>rq_sector = 0, rq_write = False, rq_segs = [[0], [0, 0]]\<rparr>"
definition x_ex :: blk_request where "x_ex = \<lparr>rq_sector = 1, rq_write = True, rq_segs = [[]]\<rparr>"

lemma rq_ex [simp]: "rq_in_range 512 w_ex" "rq_in_range 512 r_ex" "rq_in_range 512 x_ex" "rq_in_range 4194304 w_ex"
  by (simp_all add: rq_in_range_def rq_bytes_def w_ex_def r_ex_def x_ex_def)

theorem blk_drivers_refine_disk_witness:
  "(\<exists>dev' outs. serve_all (\<lambda>dev rq. served (mq_queue_rq (\<lambda>total n. n < int total) dev rq)) bd_ex [w_ex, r_ex] = Done (dev', outs)) \<and>
    (\<exists>vdisk' outs. serve_all rd_serve vdisk_ex [w_ex] = Done (vdisk', outs))"
  using blk_drivers_refine_disk [of bd_ex "[w_ex, r_ex]" vdisk_ex "[w_ex]" "\<lambda>total n. n < int total"]
  by (simp del: serve_all.simps) blast

theorem blk_write_read_back_witness:
  "\<exists>dev' o1 o2 out. serve_all (\<lambda>dev rq. served (blkdev_queue_rq dev rq)) bd_ex [w_ex, x_ex, r_ex] = Done (dev', [o1, o2, out]) \<and>
    concat out = [1, 2, 3]"
proof -
  have "rq_write w_ex" "\<not> rq_write r_ex" "rq_sector r_ex = rq_sector w_ex" "rq_bytes r_ex = rq_bytes w_ex"
    "nat (rq_sector x_ex) * 512 + rq_bytes x_ex \<le> nat (rq_sector w_ex) * 512 \<or>
      nat (rq_sector w_ex) * 512 + rq_bytes w_ex \<le> nat (rq_sector x_ex) * 512" "concat (rq_segs w_ex) = [1, 2, 3]"
    by (simp_all add: w_ex_def r_ex_def x_ex_def rq_bytes_def)
  then show ?thesis using blk_write_read_back [of bd_ex w_ex r_ex x_ex] by (simp del: serve_all.simps) blast
qed

theorem blk_request_past_end_witness:
  "blkdev_queue_rq bd_ex (w_ex\<lparr>rq_sector := 2\<rparr>) = Oops OutOfBounds \<and>
    mq_queue_rq (\<lambda>total n. n < int total) bd_ex (w_ex\<lparr>rq_sector := 1\<rparr>) = Oops KernelBug"
  using blk_request_past_end [of bd_ex "w_ex\<lparr>rq_sector := 2\<rparr>" "\<lambda>total n. n < int total"]
    blk_request_past_end [of bd_ex "w_ex\<lparr>rq_sector := 1\<rparr>" "\<lambda>total n. n < int total"]
  by (simp add: rq_bytes_def w_ex_def) blast

end
