(* ===== verification/Blk_Module.thy ===== *)
theory Blk_Module
  imports Blk_Dev "HOL-Library.Multiset"
begin

text \<open>
  Loading and unloading the four disks. What the code gets from the kernel and gives back is recorded as a
  list of calls; the resources that such a list leaves behind are what unloading has leaked.
\<close>

section \<open>Calls and resources\<close>

datatype blk_call =
    RegisterBlkdev int | UnregisterBlkdev int
  | AllocBlock addr | FreeBlock addr
  | InitQueue addr | CleanupQueue addr
  | InitTagSet | FreeTagSet
  | AllocDisk addr | PutDisk addr
  | AddDisk addr | DelGendisk addr

datatype blk_res = Major int | Block addr | Queue addr | TagSet | Disk addr | LiveDisk addr

primrec acquires :: "blk_call \<Rightarrow> blk_res list" where
  "acquires (RegisterBlkdev m) = [Major m]"
| "acquires (UnregisterBlkdev m) = []"
| "acquires (AllocBlock a) = [Block a]"
| "acquires (FreeBlock a) = []"
| "acquires (InitQueue q) = [Queue q]"
| "acquires (CleanupQueue q) = []"
| "acquires InitTagSet = [TagSet]"
| "acquires FreeTagSet = []"
| "acquires (AllocDisk g) = [Disk g]"
| "acquires (PutDisk g) = []"
| "acquires (AddDisk g) = [LiveDisk g]"
| "acquires (DelGendisk g) = []"

primrec releases :: "blk_call \<Rightarrow> blk_res list" where
  "releases (RegisterBlkdev m) = []"
| "releases (UnregisterBlkdev m) = [Major m]"
| "releases (AllocBlock a) = []"
| "releases (FreeBlock a) = [Block a]"
| "releases (InitQueue q) = []"
| "releases (CleanupQueue q) = [Queue q]"
| "releases InitTagSet = []"
| "releases FreeTagSet = [TagSet]"
| "releases (AllocDisk g) = []"
| "releases (PutDisk g) = [Disk g]"
| "releases (AddDisk g) = []"
| "releases (DelGendisk g) = [LiveDisk g]"

definition acquired :: "blk_call list \<Rightarrow> blk_res multiset" where
  "acquired t = mset (concat (map acquires t))"

definition released :: "blk_call list \<Rightarrow> blk_res multiset" where
  "released t = mset (concat (map releases t))"

text \<open>
  The outcomes of the kernel's functions: the return value of \<open>register_blkdev\<close>, the allocations, the
  queue (\<open>Inl\<close> is an error pointer) and whether the tag set has tags afterwards.
\<close>

record blk_env =
  be_register :: int
  be_dev :: "addr option"
  be_buffer :: "int \<Rightarrow> byte list owned"
  be_queue :: "addr ret"
  be_tags :: bool
  be_disk :: "addr option"

text \<open>\<open>register_blkdev\<close> asked for a dynamic number returns the number, or a negative error.\<close>

definition register_calls :: "int \<Rightarrow> blk_call list" where
  "register_calls r = (if r > 0 then [RegisterBlkdev r] else [])"

text \<open>A disk driver as it is loaded: its major number and its device.\<close>

record blk_module =
  bm_major :: int
  bm_dev :: "block_dev owned"

section \<open>\<^verbatim>\<open>blkdev.c\<close>\<close>

definition BLKDEV_BUFSIZ :: int where "BLKDEV_BUFSIZ = 16 * PAGE_SIZE"

definition blkdev_alloc_buffer :: "blk_env \<Rightarrow> block_dev \<Rightarrow> block_dev \<times> unit ret \<times> blk_call list" where
  "blkdev_alloc_buffer env dev =
     (let dev = dev\<lparr>bd_capacity := drop_bit SECTOR_SHIFT BLKDEV_BUFSIZ\<rparr>;
          dev = dev\<lparr>bd_data := be_buffer env (push_bit SECTOR_SHIFT (bd_capacity dev))\<rparr>
      in case bd_data dev of
           None \<Rightarrow> (dev, Inl ENOMEM, [])
         | Some (a, m) \<Rightarrow> (dev, Inr (), [AllocBlock a]))"

definition blkdev_free_buffer :: "block_dev \<Rightarrow> block_dev \<times> blk_call list" where
  "blkdev_free_buffer dev =
     (case bd_data dev of
        None \<Rightarrow> (dev, [])
      | Some (a, m) \<Rightarrow> (dev\<lparr>bd_data := None, bd_capacity := 0\<rparr>, [FreeBlock a]))"

text \<open>The blocks of pointers that are \<open>NULL\<close> unless they were set.\<close>

definition opt_call :: "(addr \<Rightarrow> blk_call) \<Rightarrow> addr option \<Rightarrow> blk_call list" where
  "opt_call c p = (case p of None \<Rightarrow> [] | Some a \<Rightarrow> [c a])"

definition blkdev_remove_device :: "blk_module \<Rightarrow> blk_module \<times> blk_call list" where
  "blkdev_remove_device m =
     (case bm_dev m of
        None \<Rightarrow> (m, [])
      | Some (a, dev) \<Rightarrow>
          let t1 = opt_call DelGendisk (bd_gdisk dev);
              t2 = opt_call CleanupQueue (bd_queue dev);
              dev = dev\<lparr>bd_queue := None\<rparr>;
              t3 = (if bd_tags dev then [FreeTagSet] else []);
              t4 = opt_call PutDisk (bd_gdisk dev);
              dev = dev\<lparr>bd_gdisk := None\<rparr>;
              (dev, t5) = blkdev_free_buffer dev
          in (m\<lparr>bm_dev := None\<rparr>, t1 @ t2 @ t3 @ t4 @ t5 @ [FreeBlock a]))"

definition zero_dev :: block_dev where
  "zero_dev = \<lparr>bd_capacity = 0, bd_data = None, bd_open_counter = 0, bd_tags = False, bd_queue = None, bd_gdisk = None\<rparr>"

text \<open>The body of the loop that runs once; \<open>Inl\<close> is a \<open>break\<close> with \<open>ret\<close> set.\<close>

definition blkdev_add_body :: "blk_env \<Rightarrow> block_dev \<Rightarrow> block_dev \<times> unit ret \<times> blk_call list" where
  "blkdev_add_body env dev =
     (case blkdev_alloc_buffer env dev of
        (dev, Inl e, t) \<Rightarrow> (dev, Inl e, t)
      | (dev, Inr _, t) \<Rightarrow>
          (let dev = dev\<lparr>bd_tags := be_tags env\<rparr>; t = t @ (if be_tags env then [InitTagSet] else [])
           in case be_queue env of
                Inl e \<Rightarrow> (dev, Inl e, t)
              | Inr q \<Rightarrow>
                  (let dev = dev\<lparr>bd_queue := Some q\<rparr>; t = t @ [InitQueue q]
                   in case be_disk env of
                        None \<Rightarrow> (dev, Inl ENOMEM, t)
                      | Some g \<Rightarrow> (dev\<lparr>bd_gdisk := Some g\<rparr>, Inr (), t @ [AllocDisk g, AddDisk g]))))"

definition blkdev_add_device :: "blk_env \<Rightarrow> blk_module \<Rightarrow> blk_module \<times> unit ret \<times> blk_call list" where
  "blkdev_add_device env m =
     (case be_dev env of
        None \<Rightarrow> (m, Inl ENOMEM, [])
      | Some a \<Rightarrow>
          (case blkdev_add_body env zero_dev of
             (dev, Inr _, t) \<Rightarrow> (m\<lparr>bm_dev := Some (a, dev)\<rparr>, Inr (), AllocBlock a # t)
           | (dev, Inl e, t) \<Rightarrow>
               (let (m, t') = blkdev_remove_device (m\<lparr>bm_dev := Some (a, dev)\<rparr>)
                in (m, Inl e, AllocBlock a # t @ t'))))"

definition blkdev_init :: "blk_env \<Rightarrow> blk_module \<Rightarrow> blk_module \<times> unit ret \<times> blk_call list" where
  "blkdev_init env m =
     (let m = m\<lparr>bm_major := be_register env\<rparr>; t = register_calls (be_register env)
      in if bm_major m \<le> 0 then (m, Inl EBUSY, t)
         else case blkdev_add_device env m of
                (m, Inr _, t') \<Rightarrow> (m, Inr (), t @ t')
              | (m, Inl e, t') \<Rightarrow> (m, Inl e, t @ t' @ [UnregisterBlkdev (bm_major m)]))"

definition blkdev_exit :: "blk_module \<Rightarrow> blk_module \<times> blk_call list" where
  "blkdev_exit m =
     (let (m, t) = blkdev_remove_device m
      in (m, t @ (if bm_major m > 0 then [UnregisterBlkdev (bm_major m)] else [])))"

section \<open>\<^verbatim>\<open>sblkdev.c\<close>\<close>

definition sblkdev_buffer_size :: int where "sblkdev_buffer_size = 16 * PAGE_SIZE"

definition sblkdev_allocate_buffer :: "blk_env \<Rightarrow> block_dev \<Rightarrow> block_dev \<times> unit ret \<times> blk_call list" where
  "sblkdev_allocate_buffer env dev =
     (let dev = dev\<lparr>bd_capacity := drop_bit SECTOR_SHIFT sblkdev_buffer_size\<rparr>;
          dev = dev\<lparr>bd_data := be_buffer env (push_bit SECTOR_SHIFT (bd_capacity dev))\<rparr>
      in case bd_data dev of
           None \<Rightarrow> (dev, Inl ENOMEM, [])
         | Some (a, m) \<Rightarrow> (dev, Inr (), [AllocBlock a]))"

definition sblkdev_free_buffer :: "block_dev \<Rightarrow> block_dev \<times> blk_call list" where
  "sblkdev_free_buffer dev =
     (case bd_data dev of
        None \<Rightarrow> (dev, [])
      | Some (a, m) \<Rightarrow> (dev\<lparr>bd_data := None, bd_capacity := 0\<rparr>, [FreeBlock a]))"

definition sblkdev_remove_device :: "blk_module \<Rightarrow> blk_module \<times> blk_call list" where
  "sblkdev_remove_device m =
     (case bm_dev m of
        None \<Rightarrow> (m, [])
      | Some (a, dev) \<Rightarrow>
          let t1 = opt_call DelGendisk (bd_gdisk dev);
              t2 = opt_call CleanupQueue (bd_queue dev);
              dev = dev\<lparr>bd_queue := None\<rparr>;
              t3 = (if bd_tags dev then [FreeTagSet] else []);
              t4 = opt_call PutDisk (bd_gdisk dev);
              dev = dev\<lparr>bd_gdisk := None\<rparr>;
              (dev, t5) = sblkdev_free_buffer dev
          in (m\<lparr>bm_dev := None\<rparr>, t1 @ t2 @ t3 @ t4 @ t5 @ [FreeBlock a]))"

definition sblkdev_add_body :: "blk_env \<Rightarrow> block_dev \<Rightarrow> block_dev \<times> unit ret \<times> blk_call list" where
  "sblkdev_add_body env dev =
     (case sblkdev_allocate_buffer env dev of
        (dev, Inl e, t) \<Rightarrow> (dev, Inl e, t)
      | (dev, Inr _, t) \<Rightarrow>
          (let dev = dev\<lparr>bd_tags := be_tags env\<rparr>; t = t @ (if be_tags env then [InitTagSet] else [])
           in case be_queue env of
                Inl e \<Rightarrow> (dev, Inl e, t)
              | Inr q \<Rightarrow>
                  (let dev = dev\<lparr>bd_queue := Some q\<rparr>; t = t @ [InitQueue q]
                   in case be_disk env of
                        None \<Rightarrow> (dev, Inl ENOMEM, t)
                      | Some g \<Rightarrow> (dev\<lparr>bd_gdisk := Some g\<rparr>, Inr (), t @ [AllocDisk g, AddDisk g]))))"

definition sblkdev_add_device :: "blk_env \<Rightarrow> blk_module \<Rightarrow> blk_module \<times> unit ret \<times> blk_call list" where
  "sblkdev_add_device env m =
     (case be_dev env of
        None \<Rightarrow> (m, Inl ENOMEM, [])
      | Some a \<Rightarrow>
          (case sblkdev_add_body env zero_dev of
             (dev, Inr _, t) \<Rightarrow> (m\<lparr>bm_dev := Some (a, dev)\<rparr>, Inr (), AllocBlock a # t)
           | (dev, Inl e, t) \<Rightarrow>
               (let (m, t') = sblkdev_remove_device (m\<lparr>bm_dev := Some (a, dev)\<rparr>)
                in (m, Inl e, AllocBlock a # t @ t'))))"

text \<open>The major number is an \<open>unsigned int\<close> here: an error of \<open>register_blkdev\<close> is a large positive number.\<close>

definition sblkdev_init :: "blk_env \<Rightarrow> blk_module \<Rightarrow> blk_module \<times> unit ret \<times> blk_call list" where
  "sblkdev_init env m =
     (let m = m\<lparr>bm_major := u32 (be_register env)\<rparr>; t = register_calls (be_register env)
      in if bm_major m \<le> 0 then (m, Inl EBUSY, t)
         else case sblkdev_add_device env m of
                (m, Inr _, t') \<Rightarrow> (m, Inr (), t @ t')
              | (m, Inl e, t') \<Rightarrow> (m, Inl e, t @ t' @ [UnregisterBlkdev (bm_major m)]))"

definition sblkdev_exit :: "blk_module \<Rightarrow> blk_module \<times> blk_call list" where
  "sblkdev_exit m =
     (let (m, t) = sblkdev_remove_device m
      in (m, t @ (if bm_major m > 0 then [UnregisterBlkdev (bm_major m)] else [])))"

section \<open>\<^verbatim>\<open>mq-blkdev.c\<close>\<close>

text \<open>
  The queue is compared with \<open>NULL\<close>, but \<open>blk_mq_init_sq_queue\<close> reports an error by an error pointer,
  through which the next statement writes. The disk is not checked at all.
\<close>

definition myblock_driver_init :: "blk_env \<Rightarrow> blk_module \<Rightarrow> (blk_module \<times> unit ret \<times> blk_call list) exec" where
  "myblock_driver_init env m =
     (let m = m\<lparr>bm_major := be_register env\<rparr>; t = register_calls (be_register env)
      in case be_dev env of
           None \<Rightarrow> Done (m\<lparr>bm_dev := None\<rparr>, Inl ENOMEM, t @ [UnregisterBlkdev (bm_major m)])
         | Some a \<Rightarrow>
             (let cap = drop_bit 9 (112 * PAGE_SIZE); t = t @ [AllocBlock a]
              in case be_buffer env (push_bit 9 cap) of
                   None \<Rightarrow> Done (m\<lparr>bm_dev := None\<rparr>, Inl ENOMEM, t @ [UnregisterBlkdev (bm_major m), FreeBlock a])
                 | Some (b, buf) \<Rightarrow>
                     (let t = t @ [AllocBlock b] @ (if be_tags env then [InitTagSet] else [])
                      in case be_queue env of
                           Inl e \<Rightarrow> Oops NullDeref
                         | Inr q \<Rightarrow>
                             (case be_disk env of
                                None \<Rightarrow> Oops NullDeref
                              | Some g \<Rightarrow>
                                  Done (m\<lparr>bm_dev := Some (a, zero_dev\<lparr>bd_capacity := cap, bd_data := Some (b, buf),
                                           bd_tags := be_tags env, bd_queue := Some q, bd_gdisk := Some g\<rparr>)\<rparr>,
                                        Inr (), t @ [InitQueue q, AllocDisk g, AddDisk g])))))"

definition myblock_driver_exit :: "blk_module \<Rightarrow> blk_call list exec" where
  "myblock_driver_exit m =
     (case bm_dev m of
        None \<Rightarrow> Oops NullDeref
      | Some (a, dev) \<Rightarrow>
          Done ((case bd_gdisk dev of None \<Rightarrow> [] | Some g \<Rightarrow> [DelGendisk g, PutDisk g]) @
                opt_call CleanupQueue (bd_queue dev) @
                (case bd_data dev of None \<Rightarrow> [] | Some (b, buf) \<Rightarrow> [FreeBlock b]) @
                [UnregisterBlkdev (bm_major m), FreeBlock a]))"

section \<open>\<^verbatim>\<open>rd.c\<close>\<close>

text \<open>
  The number 250 is fixed and whether it could be registered is not looked at; \<open>be_register\<close> is 0 on
  success. Neither the disk nor the queue is checked before it is used.
\<close>

record root_device =
  rd_vdisk :: "byte list owned"
  rd_queue :: addr
  rd_gd :: addr

definition device_init :: "blk_env \<Rightarrow> (root_device \<times> blk_call list) exec" where
  "device_init env =
     (let vdisk = be_buffer env DEVICE_SIZE;
          t = (case vdisk of None \<Rightarrow> [] | Some (a, m) \<Rightarrow> [AllocBlock a]) @
              (if be_register env = 0 then [RegisterBlkdev 250] else [])
      in case (be_disk env, be_queue env) of
           (Some g, Inr q) \<Rightarrow>
             Done (\<lparr>rd_vdisk = vdisk, rd_queue = q, rd_gd = g\<rparr>, t @ [AllocDisk g, InitQueue q, AddDisk g])
         | _ \<Rightarrow> Oops NullDeref)"

definition device_exit :: "root_device \<Rightarrow> blk_call list" where
  "device_exit r =
     [DelGendisk (rd_gd r), PutDisk (rd_gd r), UnregisterBlkdev 250] @
     (case rd_vdisk r of None \<Rightarrow> [] | Some (a, m) \<Rightarrow> [FreeBlock a])"

section \<open>Lemmas\<close>

lemma acquired_simps [simp]: "acquired [] = {#}" "acquired (c # t) = mset (acquires c) + acquired t"
  "acquired (t @ t') = acquired t + acquired t'"
  by (simp_all add: acquired_def)

lemma released_simps [simp]: "released [] = {#}" "released (c # t) = mset (releases c) + released t"
  "released (t @ t') = released t + released t'"
  by (simp_all add: released_def)

lemma opt_call_simps [simp]: "opt_call c None = []" "opt_call c (Some a) = [c a]"
  by (simp_all add: opt_call_def)

text \<open>The two multi-queue drivers with an error path do the same with their devices.\<close>

lemma sblkdev_device_eq:
  "sblkdev_remove_device m = blkdev_remove_device m" "sblkdev_add_device env m = blkdev_add_device env m"
proof -
  have "sblkdev_free_buffer = blkdev_free_buffer"
    by (rule ext) (simp add: sblkdev_free_buffer_def blkdev_free_buffer_def)
  then have r: "sblkdev_remove_device = blkdev_remove_device"
    by (intro ext) (simp only: sblkdev_remove_device_def blkdev_remove_device_def)
  have "sblkdev_allocate_buffer = blkdev_alloc_buffer"
    by (intro ext) (simp add: sblkdev_allocate_buffer_def blkdev_alloc_buffer_def sblkdev_buffer_size_def BLKDEV_BUFSIZ_def)
  then have "sblkdev_add_body = blkdev_add_body"
    by (intro ext) (simp only: sblkdev_add_body_def blkdev_add_body_def)
  then show "sblkdev_remove_device m = blkdev_remove_device m" "sblkdev_add_device env m = blkdev_add_device env m"
    by (simp_all only: r sblkdev_add_device_def blkdev_add_device_def)
qed

text \<open>What a device holds, as resources; every way through the body leaves this account true.\<close>

definition holdings :: "block_dev \<Rightarrow> blk_res multiset" where
  "holdings dev = mset
     ((case bd_data dev of None \<Rightarrow> [] | Some (a, m) \<Rightarrow> [Block a]) @ (if bd_tags dev then [TagSet] else []) @
      (case bd_queue dev of None \<Rightarrow> [] | Some q \<Rightarrow> [Queue q]) @
      (case bd_gdisk dev of None \<Rightarrow> [] | Some g \<Rightarrow> [Disk g, LiveDisk g]))"

lemma add_body_holdings:
  "blkdev_add_body env zero_dev = (dev, r, t) \<Longrightarrow> acquired t = holdings dev \<and> released t = {#}"
  by (auto simp: blkdev_add_body_def blkdev_alloc_buffer_def zero_dev_def holdings_def Let_def
      split: option.splits sum.splits if_splits prod.splits)

lemma remove_device_holdings:
  "bm_dev m = Some (a, dev) \<Longrightarrow> blkdev_remove_device m = (m', t) \<Longrightarrow>
     released t = add_mset (Block a) (holdings dev) \<and> acquired t = {#} \<and> m' = m\<lparr>bm_dev := None\<rparr>"
  by (cases "bd_data dev"; cases "bd_queue dev"; cases "bd_gdisk dev")
    (auto simp: blkdev_remove_device_def blkdev_free_buffer_def holdings_def Let_def)

lemma add_body_ready:
  assumes "blkdev_add_body env zero_dev = (dev, Inr u, t)" and "\<And>n a m. be_buffer env n = Some (a, m) \<Longrightarrow> length m = nat n"
  shows "bd_ready dev \<and> length (bd_contents dev) = 65536"
proof -
  obtain a m where "be_buffer env 65536 = Some (a, m)" "bd_data dev = Some (a, m)" "bd_capacity dev = 128"
    using assms(1)
    by (auto simp: blkdev_add_body_def blkdev_alloc_buffer_def zero_dev_def Let_def BLKDEV_BUFSIZ_def PAGE_SIZE_def
        SECTOR_SHIFT_def drop_bit_eq_div push_bit_eq_mult split: option.splits sum.splits if_splits prod.splits)
  then show ?thesis using assms(2) [of 65536 a m] by (simp add: bd_ready_def bd_contents_def)
qed

lemma add_device_cases:
  assumes "blkdev_add_device env m = (m', r, t)" and "bm_dev m = None"
  shows "(\<exists>e. r = Inl e) \<and> m' = m \<and> acquired t = released t \<or>
    (\<exists>a dev tb. be_dev env = Some a \<and> r = Inr () \<and> blkdev_add_body env zero_dev = (dev, Inr (), tb) \<and>
       m' = m\<lparr>bm_dev := Some (a, dev)\<rparr> \<and> acquired t = add_mset (Block a) (holdings dev) \<and> released t = {#})"
proof (cases "be_dev env")
  case None
  then show ?thesis using assms(1) by (auto simp: blkdev_add_device_def)
next
  case (Some a)
  obtain dev rb tb where b: "blkdev_add_body env zero_dev = (dev, rb, tb)" by (cases "blkdev_add_body env zero_dev") auto
  obtain m2 t2 where r: "blkdev_remove_device (m\<lparr>bm_dev := Some (a, dev)\<rparr>) = (m2, t2)" by fastforce
  have "m\<lparr>bm_dev := None\<rparr> = m" using assms(2) by simp
  then show ?thesis
    using assms Some b r add_body_holdings [OF b] remove_device_holdings [OF _ r]
    by (cases rb) (auto simp: blkdev_add_device_def)
qed

section \<open>Properties\<close>

text \<open>
  A failed load has given back what it got and has no device; after a successful one there is a device with a
  buffer of its capacity, and unloading gives back what was got.
\<close>

definition clean_lifecycle :: "blk_module \<times> unit ret \<times> blk_call list \<Rightarrow> (blk_module \<Rightarrow> blk_module \<times> blk_call list) \<Rightarrow> bool" where
  "clean_lifecycle loaded unload =
     (case loaded of
        (m1, Inl e, t) \<Rightarrow> acquired t = released t \<and> bm_dev m1 = None
      | (m1, Inr _, t) \<Rightarrow> (\<exists>a dev. bm_dev m1 = Some (a, dev) \<and> bd_ready dev \<and> length (bd_contents dev) = 65536) \<and>
          (case unload m1 of (m2, t') \<Rightarrow> acquired (t @ t') = released (t @ t') \<and> bm_dev m2 = None))"

text \<open>Adding the device and removing it again, under any major number.\<close>

lemma add_remove_device:
  assumes "bm_dev m = None" and "\<And>n a b. be_buffer env n = Some (a, b) \<Longrightarrow> length b = nat n"
    and "blkdev_add_device env m = (m', r, t)" and "blkdev_remove_device m' = (m2, t2)"
  shows "case r of
      Inl e \<Rightarrow> m' = m \<and> acquired t = released t
    | Inr _ \<Rightarrow> bm_major m' = bm_major m \<and> m2 = m \<and> acquired t + acquired t2 = released t + released t2 \<and>
        (\<exists>a dev. bm_dev m' = Some (a, dev) \<and> bd_ready dev \<and> length (bd_contents dev) = 65536)"
  using add_device_cases [OF assms(3,1)]
proof (elim disjE conjE exE)
  fix a dev tb assume h: "r = Inr ()" "blkdev_add_body env zero_dev = (dev, Inr (), tb)" "m' = m\<lparr>bm_dev := Some (a, dev)\<rparr>"
    "acquired t = add_mset (Block a) (holdings dev)" "released t = {#}"
  have d: "bm_dev m' = Some (a, dev)" using h(3) by simp
  have "m\<lparr>bm_dev := None\<rparr> = m" using assms(1) by simp
  then show ?thesis using h remove_device_holdings [OF d assms(4)] add_body_ready [OF h(2) assms(2)] by simp
qed simp

text \<open>
  C27. Whatever the kernel grants or refuses, loading \<^verbatim>\<open>blkdev.c\<close> either fails with every resource it got
  given back exactly once, or leaves a device with a buffer of its capacity; unloading then gives back exactly
  what loading got. The same holds for \<^verbatim>\<open>sblkdev.c\<close> as long as \<open>register_blkdev\<close> does not return an
  error. If it does, \<^verbatim>\<open>sblkdev.c\<close> takes the error for a major number and goes on: whether the load then fails or
  the driver is unloaded later, it gives back what it got and, besides, this number, which it never got.
\<close>

theorem blk_lifecycle_balanced:
  assumes "bm_dev m = None" and "\<And>n a b. be_buffer env n = Some (a, b) \<Longrightarrow> length b = nat n"
  shows "clean_lifecycle (blkdev_init env m) blkdev_exit \<and>
    (0 \<le> be_register env \<and> be_register env < 2 ^ 31 \<longrightarrow> clean_lifecycle (sblkdev_init env m) sblkdev_exit) \<and>
    (- (2 ^ 31) \<le> be_register env \<and> be_register env < 0 \<longrightarrow>
      (case sblkdev_init env m of
         (m1, Inl e, t) \<Rightarrow> released t = add_mset (Major (2 ^ 32 + be_register env)) (acquired t) \<and> bm_dev m1 = None
       | (m1, Inr _, t) \<Rightarrow>
           (case sblkdev_exit m1 of
              (m2, t') \<Rightarrow> released (t @ t') = add_mset (Major (2 ^ 32 + be_register env)) (acquired (t @ t')) \<and> bm_dev m2 = None)))"
proof -
  define M where "M = (if be_register env < 0 then 2 ^ 32 + be_register env else be_register env)"
  define m0 where "m0 = m\<lparr>bm_major := M\<rparr>"
  obtain m' r t where ad: "blkdev_add_device env m0 = (m', r, t)" by (cases "blkdev_add_device env m0") auto
  obtain m2 t2 where rm: "blkdev_remove_device m' = (m2, t2)" by fastforce
  have m0: "bm_dev m0 = None" "bm_major m0 = M" using assms(1) by (simp_all add: m0_def)
  note acc = add_remove_device [OF m0(1) assms(2) ad rm]
  have "clean_lifecycle (blkdev_init env m) blkdev_exit"
    using acc ad rm m0 assms(1)
    by (cases r) (auto simp: clean_lifecycle_def blkdev_init_def blkdev_exit_def M_def m0_def register_calls_def Let_def)
  moreover have "sblkdev_init env m = blkdev_init env m" if "0 \<le> be_register env \<and> be_register env < 2 ^ 31"
    using that by (simp add: sblkdev_init_def blkdev_init_def sblkdev_device_eq u32_id Let_def)
  moreover have ex: "sblkdev_exit = blkdev_exit"
    by (rule ext) (simp add: sblkdev_exit_def blkdev_exit_def sblkdev_device_eq)
  moreover have "case sblkdev_init env m of
         (m1, Inl e, t) \<Rightarrow> released t = add_mset (Major (2 ^ 32 + be_register env)) (acquired t) \<and> bm_dev m1 = None
       | (m1, Inr _, t) \<Rightarrow>
           (case sblkdev_exit m1 of
              (m2, t') \<Rightarrow> released (t @ t') = add_mset (Major (2 ^ 32 + be_register env)) (acquired (t @ t')) \<and> bm_dev m2 = None)"
    if neg: "- (2 ^ 31) \<le> be_register env \<and> be_register env < 0"
  proof -
    have "be_register env mod 2 ^ 32 = (2 ^ 32 + be_register env) mod 2 ^ 32" by simp
    also have "\<dots> = 2 ^ 32 + be_register env" using neg by (intro mod_pos_pos_trivial) auto
    finally have "u32 (be_register env) = M" using neg by (simp add: u32_def take_bit_eq_mod M_def)
    moreover have "0 < M" "M = 2 ^ 32 + be_register env" using neg by (simp_all add: M_def)
    ultimately show ?thesis using acc ad rm m0 neg
      by (cases r) (auto simp: sblkdev_init_def ex blkdev_exit_def sblkdev_device_eq m0_def register_calls_def Let_def)
  qed
  ultimately show ?thesis by simp
qed

text \<open>
  What the other drivers leave behind. \<^verbatim>\<open>sblkdev.c\<close> takes the error of \<open>register_blkdev\<close> for a major
  number, loads, and on unloading gives back a number it never got. \<^verbatim>\<open>mq-blkdev.c\<close> writes through the error
  pointer of the queue and leaks its tag set, \<^verbatim>\<open>rd.c\<close> its queue.
\<close>

theorem blk_lifecycle_leaks:
  assumes "be_dev env = Some a" and "\<And>n. be_buffer env n = Some (b, buf)" and "be_disk env = Some g" and "bm_dev m = None"
  shows "(\<forall>q. be_queue env = Inr q \<and> be_register env = - 16 \<longrightarrow>
      (\<exists>m1 t t' m2. sblkdev_init env m = (m1, Inr (), t) \<and> sblkdev_exit m1 = (m2, t') \<and>
        released (t @ t') = add_mset (Major (2 ^ 32 - 16)) (acquired (t @ t')))) \<and>
    (\<forall>e. be_queue env = Inl e \<longrightarrow> myblock_driver_init env m = Oops NullDeref) \<and>
    (\<forall>q. be_queue env = Inr q \<and> be_tags env \<and> 0 < be_register env \<longrightarrow>
      (\<exists>m1 t t'. myblock_driver_init env m = Done (m1, Inr (), t) \<and> myblock_driver_exit m1 = Done t' \<and>
        acquired (t @ t') = add_mset TagSet (released (t @ t')))) \<and>
    (\<forall>q. be_queue env = Inr q \<and> be_register env = 0 \<longrightarrow>
      (\<exists>r t. device_init env = Done (r, t) \<and>
        acquired (t @ device_exit r) = add_mset (Queue q) (released (t @ device_exit r))))"
proof (intro conjI allI impI)
  fix q assume q: "be_queue env = Inr q \<and> be_register env = - 16"
  have u: "u32 (- 16) = 2 ^ 32 - 16" by (simp add: u32_def take_bit_eq_mod)
  define m0 where "m0 = m\<lparr>bm_major := 2 ^ 32 - 16\<rparr>"
  obtain m' r t where ad: "blkdev_add_device env m0 = (m', r, t)" by (cases "blkdev_add_device env m0") auto
  have "\<exists>dev tb. blkdev_add_body env zero_dev = (dev, Inr (), tb)"
    using assms q by (simp add: blkdev_add_body_def blkdev_alloc_buffer_def)
  then have "r = Inr ()" using ad assms(1) by (auto simp: blkdev_add_device_def)
  moreover have "bm_dev m0 = None" using assms(4) by (simp add: m0_def)
  ultimately obtain dev where h: "m' = m0\<lparr>bm_dev := Some (a, dev)\<rparr>" "acquired t = add_mset (Block a) (holdings dev)" "released t = {#}"
    using add_device_cases [OF ad] assms(1) by auto
  obtain m2 t2 where x: "blkdev_remove_device m' = (m2, t2)" by fastforce
  have "bm_dev m' = Some (a, dev)" using h(1) by simp
  note rm = remove_device_holdings [OF this x]
  have "sblkdev_init env m = (m', Inr (), t)"
    using ad \<open>r = Inr ()\<close> q by (simp add: sblkdev_init_def sblkdev_device_eq u m0_def register_calls_def Let_def)
  moreover have "sblkdev_exit m' = (m2, t2 @ [UnregisterBlkdev (2 ^ 32 - 16)])"
    using x rm h(1) by (simp add: sblkdev_exit_def sblkdev_device_eq m0_def)
  ultimately show "\<exists>m1 t t' m2. sblkdev_init env m = (m1, Inr (), t) \<and> sblkdev_exit m1 = (m2, t') \<and>
        released (t @ t') = add_mset (Major (2 ^ 32 - 16)) (acquired (t @ t'))"
    using h rm by (intro exI [of _ m'] exI [of _ t] exI [of _ "t2 @ [UnregisterBlkdev (2 ^ 32 - 16)]"] exI [of _ m2]) simp
next
  fix q assume q: "be_queue env = Inr q \<and> be_tags env \<and> 0 < be_register env"
  then show "\<exists>m1 t t'. myblock_driver_init env m = Done (m1, Inr (), t) \<and> myblock_driver_exit m1 = Done t' \<and>
        acquired (t @ t') = add_mset TagSet (released (t @ t'))"
    using assms by (simp add: myblock_driver_init_def myblock_driver_exit_def register_calls_def Let_def zero_dev_def)
next
  fix q assume q: "be_queue env = Inr q \<and> be_register env = 0"
  then show "\<exists>r t. device_init env = Done (r, t) \<and>
        acquired (t @ device_exit r) = add_mset (Queue q) (released (t @ device_exit r))"
    using assms by (simp add: device_init_def device_exit_def)
qed (use assms in \<open>simp add: myblock_driver_init_def Let_def\<close>)

section \<open>Witnesses\<close>

definition blk_env_ex :: blk_env where
  "blk_env_ex = \<lparr>be_register = 240, be_dev = Some 1, be_buffer = (\<lambda>n. Some (2, replicate (nat n) 0)),
     be_queue = Inr 3, be_tags = True, be_disk = None\<rparr>"

definition blk_module_ex :: blk_module where
  "blk_module_ex = \<lparr>bm_major = 0, bm_dev = None\<rparr>"

text \<open>The allocation of the disk fails.\<close>

theorem blk_lifecycle_balanced_witness:
  "(case blkdev_init blk_env_ex blk_module_ex of (m1, r, t) \<Rightarrow> r = Inl ENOMEM \<and> acquired t = released t \<and> bm_dev m1 = None) \<and>
   (case sblkdev_init (blk_env_ex\<lparr>be_register := - 16\<rparr>) blk_module_ex of
      (m1, r, t) \<Rightarrow> r = Inl ENOMEM \<and> released t = add_mset (Major (2 ^ 32 - 16)) (acquired t))"
proof -
  obtain m1 t where b: "blkdev_init blk_env_ex blk_module_ex = (m1, Inl ENOMEM, t)"
    by (simp add: blkdev_init_def blk_env_ex_def blkdev_add_device_def blkdev_add_body_def blkdev_alloc_buffer_def
        blkdev_remove_device_def blkdev_free_buffer_def Let_def)
  obtain m2 t' where s: "sblkdev_init (blk_env_ex\<lparr>be_register := - 16\<rparr>) blk_module_ex = (m2, Inl ENOMEM, t')"
    by (simp add: sblkdev_init_def blk_env_ex_def sblkdev_add_device_def sblkdev_add_body_def sblkdev_allocate_buffer_def
        sblkdev_remove_device_def sblkdev_free_buffer_def Let_def u32_def take_bit_eq_mod)
  have e: "length x = nat n" if "be_buffer blk_env_ex n = Some (a, x)" for n a x using that by (auto simp: blk_env_ex_def)
  have m: "bm_dev blk_module_ex = None" by (simp add: blk_module_ex_def)
  show ?thesis
    using blk_lifecycle_balanced [OF m, of blk_env_ex] blk_lifecycle_balanced [OF m, of "blk_env_ex\<lparr>be_register := - 16\<rparr>"] b s e
    by (auto simp: clean_lifecycle_def)
qed

theorem blk_lifecycle_leaks_witness:
  "\<exists>r t. device_init \<lparr>be_register = 0, be_dev = Some 1, be_buffer = (\<lambda>n. Some (2, [])), be_queue = Inr 3, be_tags = True, be_disk = Some 4\<rparr> = Done (r, t) \<and>
     acquired (t @ device_exit r) = add_mset (Queue 3) (released (t @ device_exit r))"
  using blk_lifecycle_leaks [of "\<lparr>be_register = 0, be_dev = Some 1, be_buffer = (\<lambda>n. Some (2, [])), be_queue = Inr 3, be_tags = True, be_disk = Some 4\<rparr>"
      1 2 "[]" 4 blk_module_ex] by (simp add: blk_module_ex_def)

end
