(* ===== verification/Skb.thy ===== *)
theory Skb
  imports Kernel_Base
begin

text \<open>
  Packets, for the network code (\<^verbatim>\<open>linux/net/ipv4/ip_input.c\<close> and \<^verbatim>\<open>m_modules/net\<close>).

  A socket buffer has a linear part, the memory \<open>skb->data\<close> points into, and may have more bytes in pages.
  \<open>skb_head\<close> are the bytes of the linear part from the network header on, \<open>skb_off\<close> is how far \<open>skb->data\<close>
  lies behind the network header, \<open>skb_frags\<close> are the bytes in pages. A read through \<open>skb->data\<close> beyond the
  linear part is out of bounds.
\<close>

datatype pkt_type = PACKET_HOST | PACKET_BROADCAST | PACKET_MULTICAST | PACKET_OTHERHOST | PACKET_OUTGOING

datatype rt_type = RTN_UNICAST | RTN_LOCAL | RTN_BROADCAST | RTN_MULTICAST

record dst_entry =
  dst_id :: nat
  dst_rt_type :: rt_type

record sk_buff =
  skb_id :: nat
  skb_pkt_type :: pkt_type
  skb_dev :: nat
  skb_iif :: int
  skb_head :: "byte list"
  skb_frags :: "byte list"
  skb_off :: nat
  skb_transport :: nat
  skb_gso_segs :: nat
  skb_dst :: "dst_entry option"
  skb_sk :: bool
  cb_iif :: int
  cb_optlen :: int

definition skb_len :: "sk_buff \<Rightarrow> nat" where
  "skb_len skb = length (skb_head skb) + length (skb_frags skb) - skb_off skb"

text \<open>All bytes of a packet from the network header on, wherever they are stored.\<close>

definition skb_bytes :: "sk_buff \<Rightarrow> byte list" where
  "skb_bytes skb = skb_head skb @ skb_frags skb"

text \<open>The byte \<open>*(skb->data + i)\<close>.\<close>

definition skb_data :: "sk_buff \<Rightarrow> nat \<Rightarrow> byte exec" where
  "skb_data skb i = arr_get (skb_head skb) (int (skb_off skb + i))"

section \<open>The IP header\<close>

record iphdr =
  ip_ihl :: nat
  ip_version :: nat
  ip_tos :: nat
  ip_tot_len :: nat
  ip_frag_off :: nat
  ip_protocol :: nat
  ip_saddr :: "byte list"
  ip_daddr :: "byte list"

text \<open>The size of \<open>struct iphdr\<close>; numbers of two bytes are in network order.\<close>

definition IPHDR :: nat where "IPHDR = 20"

definition be16 :: "byte \<Rightarrow> byte \<Rightarrow> nat" where
  "be16 a b = unat a * 256 + unat b"

definition parse_iphdr :: "byte list \<Rightarrow> iphdr" where
  "parse_iphdr b =
     \<lparr>ip_ihl = unat (b ! 0) mod 16, ip_version = unat (b ! 0) div 16, ip_tos = unat (b ! 1),
      ip_tot_len = be16 (b ! 2) (b ! 3), ip_frag_off = be16 (b ! 6) (b ! 7), ip_protocol = unat (b ! 9),
      ip_saddr = take 4 (drop 12 b), ip_daddr = take 4 (drop 16 b)\<rparr>"

text \<open>Using the header through the pointer \<open>ip_hdr(skb)\<close> needs the linear part to hold it.\<close>

definition ip_hdr :: "sk_buff \<Rightarrow> iphdr exec" where
  "ip_hdr skb = (if length (skb_head skb) < IPHDR then Oops OutOfBounds else Done (parse_iphdr (skb_head skb)))"

text \<open>\<open>frag_off & htons(IP_MF | IP_OFFSET)\<close>\<close>

definition ip_is_fragment :: "iphdr \<Rightarrow> bool" where
  "ip_is_fragment iph \<longleftrightarrow> ip_frag_off iph mod 0x4000 \<noteq> 0"

lemma ip_hdr_Done [exec_simps]:
  "ip_hdr skb = Done iph \<longleftrightarrow> IPHDR \<le> length (skb_head skb) \<and> iph = parse_iphdr (skb_head skb)"
  by (auto simp: ip_hdr_def)

lemma parse_iphdr_bounds: "ip_ihl (parse_iphdr b) < 16" "ip_version (parse_iphdr b) < 16" "ip_protocol (parse_iphdr b) < 256"
  "ip_tot_len (parse_iphdr b) < 65536"
proof -
  have u: "unat (x::byte) < 256" for x using unsigned_less [of x] by simp
  show "ip_protocol (parse_iphdr b) < 256" "ip_version (parse_iphdr b) < 16"
    using u [of "b ! 9"] u [of "b ! 0"] by (simp_all add: parse_iphdr_def less_mult_imp_div_less)
  show "ip_tot_len (parse_iphdr b) < 65536"
    using u [of "b ! 2"] u [of "b ! 3"] by (simp add: parse_iphdr_def be16_def)
qed (simp add: parse_iphdr_def)

lemma parse_iphdr_append [simp]: "IPHDR \<le> length b \<Longrightarrow> parse_iphdr (b @ c) = parse_iphdr b"
  by (cases b) (auto simp: parse_iphdr_def IPHDR_def nth_append)

lemma parse_iphdr_take [simp]: "IPHDR \<le> n \<Longrightarrow> parse_iphdr (take n b) = parse_iphdr b"
  by (simp add: parse_iphdr_def IPHDR_def drop_take min_def)

section \<open>Looking for a keyword\<close>

text \<open>
  The walker over the bytes of a packet in \<open>ip_rcv_core\<close>: it counts how many
  characters of \<^verbatim>\<open>HTTP\<close> the last bytes matched and starts over at the byte \<^emph>\<open>after\<close> a mismatch. \<open>walk\<close>
  is one step of it.
\<close>

definition keyword :: "byte list" where
  "keyword = [0x48, 0x54, 0x54, 0x50]"

definition walk :: "nat \<Rightarrow> byte \<Rightarrow> nat" where
  "walk w ch = (if w < 4 \<and> ch = keyword ! w then w + 1 else 0)"

text \<open>Whether the walker, started in state \<open>w\<close>, reaches the end of the keyword.\<close>

fun scan :: "nat \<Rightarrow> byte list \<Rightarrow> bool" where
  "scan w [] = False"
| "scan w (b # bs) = (walk w b = 4 \<or> scan (walk w b) bs)"

lemma walk_le: "walk w b \<le> 4"
  by (simp add: walk_def)

lemma walk_pos:
  assumes "w < 4" and "0 < walk w b"
  shows "b = 0x48 \<or> b = 0x54 \<or> (w = 3 \<and> b = 0x50)"
proof -
  consider "w = 0" | "w = 1" | "w = 2" | "w = 3" using assms(1) by linarith
  then show ?thesis using assms(2) by cases (auto simp: walk_def keyword_def split: if_splits)
qed

text \<open>In state \<open>w\<close> the last \<open>w\<close> bytes are the first \<open>w\<close> bytes of the keyword.\<close>

lemma scan_sound:
  assumes "scan w bs" and "w < 4"
  shows "\<exists>pre post. take w keyword @ bs = pre @ keyword @ post"
  using assms
proof (induction w bs rule: scan.induct)
  case (2 w b bs)
  have len: "length keyword = 4" by (simp add: keyword_def)
  show ?case
  proof (cases "b = keyword ! w")
    case True
    then have w1: "walk w b = w + 1" using 2(3) by (simp add: walk_def)
    have tk: "take (w + 1) keyword = take w keyword @ [b]"
      using True 2(3) len by (simp add: take_Suc_conv_app_nth)
    show ?thesis
    proof (cases "w + 1 = 4")
      case True
      then have "take w keyword @ [b] = keyword" using tk len by simp
      then have "take w keyword @ b # bs = [] @ keyword @ bs" by (metis append.assoc append_Cons append_Nil)
      then show ?thesis by blast
    next
      case False
      with 2(2,3) w1 have "scan (w + 1) bs" "w + 1 < 4" by auto
      with 2(1) w1 obtain pre post where "take (w + 1) keyword @ bs = pre @ keyword @ post" by auto
      then show ?thesis unfolding tk by auto
    qed
  next
    case False
    then have "walk w b = 0" by (simp add: walk_def)
    with 2 obtain pre post where "bs = pre @ keyword @ post" by auto
    then have "take w keyword @ b # bs = (take w keyword @ b # pre) @ keyword @ post" by simp
    then show ?thesis by blast
  qed
qed simp

text \<open>The walker finds the keyword whenever it is in its first state just before it.\<close>

lemma scan_keyword: "scan 0 (keyword @ post)"
  by (simp add: keyword_def walk_def)

lemma scan_append:
  "w < 4 \<Longrightarrow> scan w (pre @ bs) \<longleftrightarrow> scan w pre \<or> scan (fold (\<lambda>b w. walk w b) pre w) bs"
proof (induction w pre rule: scan.induct)
  case (2 w b pre)
  then show ?case using walk_le [of w b] by (cases "walk w b = 4") auto
qed simp

lemma fold_walk_le: "w \<le> 4 \<Longrightarrow> fold (\<lambda>b w. walk w b) bs w \<le> 4"
  by (induction bs arbitrary: w) (auto simp: walk_le)

lemma scan_reaches: "fold (\<lambda>b w. walk w b) bs w = 4 \<Longrightarrow> w < 4 \<Longrightarrow> scan w bs"
proof (induction w bs rule: scan.induct)
  case (2 w b bs)
  then show ?case using walk_le [of w b] by (cases "walk w b = 4") auto
qed simp

text \<open>
  So it finds every occurrence at the start and every one behind a byte other than \<^verbatim>\<open>H\<close> and \<^verbatim>\<open>T\<close>; behind
  those it may overlook it.
\<close>

lemma scan_complete:
  assumes "pre = [] \<or> (last pre \<noteq> 0x48 \<and> last pre \<noteq> 0x54)"
  shows "scan 0 (pre @ keyword @ post)"
proof (cases "scan 0 pre")
  case False
  have "fold (\<lambda>b w. walk w b) pre 0 = 0"
  proof (cases pre rule: rev_cases)
    case (snoc ys y)
    have *: "\<not> scan 0 ys" "\<not> scan (fold (\<lambda>b w. walk w b) ys 0) [y]" using False snoc scan_append [of 0 ys "[y]"] by auto
    have "fold (\<lambda>b w. walk w b) ys 0 < 4"
    proof (rule ccontr)
      assume "\<not> ?thesis"
      then have "fold (\<lambda>b w. walk w b) ys 0 = 4" using fold_walk_le [of 0 ys] by simp
      then show False using * scan_reaches [of ys] by simp
    qed
    from walk_pos [OF this, of y] show ?thesis
      using assms snoc * by (cases "walk (fold (\<lambda>b w. walk w b) ys 0) y = 0") (auto simp: walk_def keyword_def)
  qed simp
  then show ?thesis using scan_append [of 0 pre "keyword @ post"] scan_keyword by simp
qed (simp add: scan_append)

end
