(* ===== verification/Ip_Input.thy ===== *)
theory Ip_Input
  imports Skb "HOL-Library.Multiset"
begin

text \<open>
  The receive path of IPv4 (\<^verbatim>\<open>linux/net/ipv4/ip_input.c\<close>), in the repository's version that drops packets in
  which it finds the word \<^verbatim>\<open>HTTP\<close>: from the entry points \<open>ip_rcv\<close> (one packet) and \<open>ip_list_rcv\<close> (a batch)
  over the validation of the header and the routing decision to the delivery to protocols and raw sockets.

  What the path asks of the rest of the kernel is the record \<open>ip_env\<close>: moving bytes into the linear part,
  checksums, packet filter hooks, routing, options, defragmentation, protocol handlers. These are functions of the packet:
  a hook or a handler that keeps state between packets is not covered. The model follows the
  configuration without \<^verbatim>\<open>CONFIG_IP_ROUTE_CLASSID\<close>. Statistics and the ends a packet can meet are recorded
  as events.
\<close>

section \<open>Events and the environment\<close>

datatype mib =
    MIB_IN | MIB_INDISCARDS | MIB_INHDRERRORS | MIB_CSUMERRORS | MIB_INTRUNCATEDPKTS | MIB_ECN nat
  | MIB_INMCAST | MIB_INBCAST | MIB_INDELIVERS | MIB_INUNKNOWNPROTOS | MIB_IPRPFILTER

record sock =
  sk_id :: nat
  sk_inet_num :: nat
  sk_bound_dev_if :: int

datatype ip_event =
    IncStats mib | AddStats mib nat | UpdPoStats mib nat
  | KfreeSkb nat | ConsumeSkb nat | DstInput nat | RawRcv nat nat | IcmpProtUnreach nat | NfReset nat
  | HandlerCall nat nat int

record in_device =
  id_source_route :: bool
  id_drop_unicast_in_l2_multicast :: bool

record net_protocol =
  np_no_policy :: bool
  np_early_demux :: "(sk_buff \<Rightarrow> errno + sk_buff) option"
  np_handler :: "sk_buff \<Rightarrow> int \<times> sk_buff"

text \<open>
  Functions that may give a packet away return \<open>None\<close> (or \<open>Inl\<close> with the result of the hook) when it is gone;
  a \<open>Some\<close> or \<open>Inr\<close> is the packet as they leave it.
\<close>

record ip_env =
  e_share_check :: "sk_buff \<Rightarrow> sk_buff option"
  e_may_pull :: "sk_buff \<Rightarrow> nat \<Rightarrow> sk_buff option"
  e_fast_csum :: "byte list \<Rightarrow> int"
  e_trim_rcsum :: "sk_buff \<Rightarrow> nat \<Rightarrow> sk_buff option"
  e_pre_routing :: "sk_buff \<Rightarrow> int + sk_buff"
  e_local_in :: "sk_buff \<Rightarrow> int + sk_buff"
  e_l3mdev_rcv :: "sk_buff \<Rightarrow> sk_buff option"
  e_route_use_hint :: "sk_buff \<Rightarrow> sk_buff \<Rightarrow> errno + sk_buff"
  e_early_demux :: bool
  e_inet_protos :: "nat \<Rightarrow> net_protocol option"
  e_valid_dst :: "sk_buff \<Rightarrow> bool"
  e_route_input :: "sk_buff \<Rightarrow> errno + sk_buff"
  e_skb_cow :: "sk_buff \<Rightarrow> sk_buff option"
  e_options_compile :: "sk_buff \<Rightarrow> bool option"
  e_options_rcv_srr :: "sk_buff \<Rightarrow> sk_buff option"
  e_in_dev :: "nat \<Rightarrow> in_device option"
  e_dst_input :: "sk_buff \<Rightarrow> int"
  e_dev_net :: "nat \<Rightarrow> nat"
  e_custom_rules :: bool
  e_defrag :: "sk_buff \<Rightarrow> sk_buff option"
  e_raw_local_deliver :: "sk_buff \<Rightarrow> nat \<Rightarrow> bool"
  e_policy_check :: "sk_buff \<Rightarrow> bool"
  e_clone :: "sk_buff \<Rightarrow> sk_buff option"

section \<open>Validation\<close>

text \<open>The loop that looks for the keyword in all \<open>skb->len\<close> bytes behind \<open>skb->data\<close>.\<close>

function http_loop :: "sk_buff \<Rightarrow> nat \<Rightarrow> nat \<Rightarrow> bool exec" where
  "http_loop skb loop_ctr keyword_walker =
     (if loop_ctr < skb_len skb
      then kbind (skb_data skb loop_ctr) (\<lambda>ch.
           kbind (arr_get keyword (int keyword_walker)) (\<lambda>k.
             let keyword_walker = (if ch = k then keyword_walker + 1 else 0)
             in if keyword_walker = 4 then Done True else http_loop skb (loop_ctr + 1) keyword_walker))
      else Done False)"
  by pat_completeness auto
termination by (relation "measure (\<lambda>(skb, i, w). skb_len skb - i)") auto

declare http_loop.simps [simp del]

definition drop_skb :: "ip_event list \<Rightarrow> sk_buff \<Rightarrow> (sk_buff option \<times> ip_event list) exec" where
  "drop_skb t skb = Done (None, t @ [KfreeSkb (skb_id skb)])"

definition inhdr_error :: "ip_event list \<Rightarrow> sk_buff \<Rightarrow> (sk_buff option \<times> ip_event list) exec" where
  "inhdr_error t skb = drop_skb (t @ [IncStats MIB_INHDRERRORS]) skb"

definition csum_error :: "ip_event list \<Rightarrow> sk_buff \<Rightarrow> (sk_buff option \<times> ip_event list) exec" where
  "csum_error t skb = inhdr_error (t @ [IncStats MIB_CSUMERRORS]) skb"

text \<open>The part behind the keyword search, once the fixed header is in the linear part.\<close>

definition ip_rcv_header :: "ip_env \<Rightarrow> ip_event list \<Rightarrow> sk_buff \<Rightarrow> (sk_buff option \<times> ip_event list) exec" where
  "ip_rcv_header env t skb =
     kbind (ip_hdr skb) (\<lambda>iph.
       if ip_ihl iph < 5 \<or> ip_version iph \<noteq> 4 then inhdr_error t skb
       else let t = t @ [AddStats (MIB_ECN (ip_tos iph mod 4)) (max 1 (skb_gso_segs skb mod 65536))]
       in case e_may_pull env skb (ip_ihl iph * 4) of
            None \<Rightarrow> inhdr_error t skb
          | Some skb \<Rightarrow>
              kbind (ip_hdr skb) (\<lambda>iph.
                if e_fast_csum env (take (ip_ihl iph * 4) (skb_head skb)) \<noteq> 0 then csum_error t skb
                else let len = ip_tot_len iph
                in if skb_len skb < len then drop_skb (t @ [IncStats MIB_INTRUNCATEDPKTS]) skb
                   else if len < ip_ihl iph * 4 then inhdr_error t skb
                   else case e_trim_rcsum env skb len of
                          None \<Rightarrow> drop_skb (t @ [IncStats MIB_INDISCARDS]) skb
                        | Some skb \<Rightarrow>
                            kbind (ip_hdr skb) (\<lambda>iph.
                              Done (Some (skb\<lparr>skb_transport := ip_ihl iph * 4, cb_iif := skb_iif skb, cb_optlen := 0,
                                              skb_sk := False\<rparr>), t))))"

definition ip_rcv_core :: "ip_env \<Rightarrow> sk_buff \<Rightarrow> (sk_buff option \<times> ip_event list) exec" where
  "ip_rcv_core env skb =
     (if skb_pkt_type skb = PACKET_OTHERHOST then drop_skb [] skb
      else let t = [UpdPoStats MIB_IN (skb_len skb)]
      in case e_share_check env skb of
           None \<Rightarrow> Done (None, t @ [IncStats MIB_INDISCARDS])
         | Some skb \<Rightarrow>
             (case e_may_pull env skb IPHDR of
                None \<Rightarrow> inhdr_error t skb
              | Some skb \<Rightarrow>
                  kbind (http_loop skb 0 0) (\<lambda>found.
                    if found then drop_skb t skb else ip_rcv_header env t skb)))"

section \<open>Routing\<close>

datatype net_rx = NET_RX_SUCCESS | NET_RX_DROP

definition ip_rcv_options :: "ip_env \<Rightarrow> sk_buff \<Rightarrow> nat \<Rightarrow> (bool \<times> sk_buff \<times> ip_event list) exec" where
  "ip_rcv_options env skb dev =
     (case e_skb_cow env skb of
        None \<Rightarrow> Done (True, skb, [IncStats MIB_INDISCARDS])
      | Some skb \<Rightarrow>
          kbind (ip_hdr skb) (\<lambda>iph.
            let skb = skb\<lparr>cb_optlen := int (ip_ihl iph * 4) - int IPHDR\<rparr>
            in case e_options_compile env skb of
                 None \<Rightarrow> Done (True, skb, [IncStats MIB_INHDRERRORS])
               | Some srr \<Rightarrow>
                   if srr then
                     if (case e_in_dev env dev of Some in_dev \<Rightarrow> \<not> id_source_route in_dev | None \<Rightarrow> False)
                     then Done (True, skb, [])
                     else (case e_options_rcv_srr env skb of
                             None \<Rightarrow> Done (True, skb, [])
                           | Some skb \<Rightarrow> Done (False, skb, []))
                   else Done (False, skb, [])))"

definition ip_can_use_hint :: "sk_buff \<Rightarrow> iphdr \<Rightarrow> sk_buff option \<Rightarrow> bool exec" where
  "ip_can_use_hint skb iph hint =
     (case hint of
        None \<Rightarrow> Done False
      | Some h \<Rightarrow>
          if skb_dst skb \<noteq> None then Done False
          else kbind (ip_hdr h) (\<lambda>hi. Done (ip_daddr hi = ip_daddr iph \<and> ip_tos hi = ip_tos iph)))"

definition drop_error :: "errno \<Rightarrow> sk_buff \<Rightarrow> (net_rx \<times> sk_buff \<times> ip_event list) exec" where
  "drop_error err skb =
     Done (NET_RX_DROP, skb, (if err = EXDEV then [IncStats MIB_IPRPFILTER] else []) @ [KfreeSkb (skb_id skb)])"

text \<open>The early look for a socket, if the packet has neither a route nor a socket and is no fragment.\<close>

definition early_demux :: "ip_env \<Rightarrow> sk_buff \<Rightarrow> iphdr \<Rightarrow> errno + sk_buff" where
  "early_demux env skb iph =
     (if e_early_demux env \<and> skb_dst skb = None \<and> \<not> skb_sk skb \<and> \<not> ip_is_fragment iph
      then (case e_inet_protos env (ip_protocol iph) of
              None \<Rightarrow> Inr skb
            | Some ipprot \<Rightarrow> (case np_early_demux ipprot of None \<Rightarrow> Inr skb | Some edemux \<Rightarrow> edemux skb))
      else Inr skb)"

text \<open>The last part: options, and what kind of route was found.\<close>

definition ip_rcv_routed :: "ip_env \<Rightarrow> sk_buff \<Rightarrow> iphdr \<Rightarrow> nat \<Rightarrow> (net_rx \<times> sk_buff \<times> ip_event list) exec" where
  "ip_rcv_routed env skb iph dev =
     kbind (if ip_ihl iph > 5 then ip_rcv_options env skb dev else Done (False, skb, [])) (\<lambda>(dropped, skb, t).
       if dropped then Done (NET_RX_DROP, skb, t @ [KfreeSkb (skb_id skb)])
       else case skb_dst skb of
              None \<Rightarrow> Oops NullDeref
            | Some rt \<Rightarrow>
                if dst_rt_type rt = RTN_MULTICAST
                then Done (NET_RX_SUCCESS, skb, t @ [UpdPoStats MIB_INMCAST (skb_len skb)])
                else if dst_rt_type rt = RTN_BROADCAST
                then Done (NET_RX_SUCCESS, skb, t @ [UpdPoStats MIB_INBCAST (skb_len skb)])
                else if (skb_pkt_type skb = PACKET_BROADCAST \<or> skb_pkt_type skb = PACKET_MULTICAST) \<and>
                        (case e_in_dev env dev of Some d \<Rightarrow> id_drop_unicast_in_l2_multicast d | None \<Rightarrow> False)
                then Done (NET_RX_DROP, skb, t @ [KfreeSkb (skb_id skb)])
                else Done (NET_RX_SUCCESS, skb, t))"

definition ip_rcv_finish_core :: "ip_env \<Rightarrow> sk_buff \<Rightarrow> nat \<Rightarrow> sk_buff option \<Rightarrow> (net_rx \<times> sk_buff \<times> ip_event list) exec" where
  "ip_rcv_finish_core env skb dev hint =
     kbind (ip_hdr skb) (\<lambda>iph.
     kbind (ip_can_use_hint skb iph hint) (\<lambda>use.
       case (if use then e_route_use_hint env skb (the hint) else Inr skb) of
         Inl err \<Rightarrow> drop_error err skb
       | Inr skb \<Rightarrow>
           (case early_demux env skb iph of
              Inl err \<Rightarrow> drop_error err skb
            | Inr skb \<Rightarrow>
                kbind (ip_hdr skb) (\<lambda>iph.
                  case (if e_valid_dst env skb then Inr skb else e_route_input env skb) of
                    Inl err \<Rightarrow> drop_error err skb
                  | Inr skb \<Rightarrow> ip_rcv_routed env skb iph dev))))"

definition dst_input :: "ip_env \<Rightarrow> sk_buff \<Rightarrow> int \<times> ip_event list" where
  "dst_input env skb = (e_dst_input env skb, [DstInput (skb_id skb)])"

definition net_rx_code :: "net_rx \<Rightarrow> int" where
  "net_rx_code r = (case r of NET_RX_SUCCESS \<Rightarrow> 0 | NET_RX_DROP \<Rightarrow> 1)"

definition ip_rcv_finish :: "ip_env \<Rightarrow> sk_buff \<Rightarrow> (int \<times> ip_event list) exec" where
  "ip_rcv_finish env skb =
     (let dev = skb_dev skb
      in case e_l3mdev_rcv env skb of
           None \<Rightarrow> Done (net_rx_code NET_RX_SUCCESS, [])
         | Some skb \<Rightarrow>
             kbind (ip_rcv_finish_core env skb dev None) (\<lambda>(ret, skb, t).
               if ret \<noteq> NET_RX_DROP
               then (case dst_input env skb of (r, t') \<Rightarrow> Done (r, t @ t'))
               else Done (net_rx_code ret, t)))"

definition ip_rcv :: "ip_env \<Rightarrow> sk_buff \<Rightarrow> (int \<times> ip_event list) exec" where
  "ip_rcv env skb =
     kbind (ip_rcv_core env skb) (\<lambda>(r, t).
       case r of
         None \<Rightarrow> Done (net_rx_code NET_RX_DROP, t)
       | Some skb \<Rightarrow>
           (case e_pre_routing env skb of
              Inl ret \<Rightarrow> Done (ret, t)
            | Inr skb \<Rightarrow> kbind (ip_rcv_finish env skb) (\<lambda>(ret, t'). Done (ret, t @ t'))))"

section \<open>Batches\<close>

definition ip_sublist_rcv_finish :: "ip_env \<Rightarrow> sk_buff list \<Rightarrow> ip_event list" where
  "ip_sublist_rcv_finish env skbs = concat (map (\<lambda>skb. snd (dst_input env skb)) skbs)"

definition ip_extract_route_hint :: "ip_env \<Rightarrow> sk_buff \<Rightarrow> rt_type \<Rightarrow> sk_buff option" where
  "ip_extract_route_hint env skb rt = (if e_custom_rules env \<or> rt = RTN_BROADCAST then None else Some skb)"

text \<open>
  The loop over a batch that came through the hook. \<open>curr_dst\<close> is the route of the packets in \<open>sublist\<close>;
  the sublist is dispatched when a packet with another route comes, and at the end.
\<close>

fun ip_list_finish_loop :: "ip_env \<Rightarrow> sk_buff option \<Rightarrow> dst_entry option \<Rightarrow> sk_buff list \<Rightarrow> sk_buff list \<Rightarrow> ip_event list exec" where
  "ip_list_finish_loop env hint curr_dst sublist [] = Done (ip_sublist_rcv_finish env sublist)"
| "ip_list_finish_loop env hint curr_dst sublist (skb # skbs) =
     (let dev = skb_dev skb
      in case e_l3mdev_rcv env skb of
           None \<Rightarrow> ip_list_finish_loop env hint curr_dst sublist skbs
         | Some skb \<Rightarrow>
             kbind (ip_rcv_finish_core env skb dev hint) (\<lambda>(ret, skb, t).
               if ret = NET_RX_DROP
               then kbind (ip_list_finish_loop env hint curr_dst sublist skbs) (\<lambda>t'. Done (t @ t'))
               else if curr_dst \<noteq> skb_dst skb
               then (case skb_dst skb of
                       None \<Rightarrow> Oops NullDeref
                     | Some dst \<Rightarrow>
                         kbind (ip_list_finish_loop env (ip_extract_route_hint env skb (dst_rt_type dst)) (Some dst) [skb] skbs)
                           (\<lambda>t'. Done (t @ ip_sublist_rcv_finish env sublist @ t')))
               else kbind (ip_list_finish_loop env hint curr_dst (sublist @ [skb]) skbs) (\<lambda>t'. Done (t @ t'))))"

definition ip_list_rcv_finish :: "ip_env \<Rightarrow> sk_buff list \<Rightarrow> ip_event list exec" where
  "ip_list_rcv_finish env head = ip_list_finish_loop env None None [] head"

text \<open>The hook on a list keeps the packets it accepts.\<close>

fun nf_hook_list :: "(sk_buff \<Rightarrow> int + sk_buff) \<Rightarrow> sk_buff list \<Rightarrow> sk_buff list" where
  "nf_hook_list hook [] = []"
| "nf_hook_list hook (skb # skbs) =
     (case hook skb of Inl ret \<Rightarrow> nf_hook_list hook skbs | Inr skb \<Rightarrow> skb # nf_hook_list hook skbs)"

definition ip_sublist_rcv :: "ip_env \<Rightarrow> sk_buff list \<Rightarrow> ip_event list exec" where
  "ip_sublist_rcv env head = ip_list_rcv_finish env (nf_hook_list (e_pre_routing env) head)"

definition dispatch_sublist :: "ip_env \<Rightarrow> sk_buff list \<Rightarrow> ip_event list exec" where
  "dispatch_sublist env sublist = (if sublist \<noteq> [] then ip_sublist_rcv env sublist else Done [])"

fun ip_list_rcv_loop :: "ip_env \<Rightarrow> (nat \<times> nat) option \<Rightarrow> sk_buff list \<Rightarrow> sk_buff list \<Rightarrow> ip_event list exec" where
  "ip_list_rcv_loop env cur sublist [] = dispatch_sublist env sublist"
| "ip_list_rcv_loop env cur sublist (skb # skbs) =
     (let dev = skb_dev skb; net = e_dev_net env dev
      in kbind (ip_rcv_core env skb) (\<lambda>(r, t).
           case r of
             None \<Rightarrow> kbind (ip_list_rcv_loop env cur sublist skbs) (\<lambda>t'. Done (t @ t'))
           | Some skb \<Rightarrow>
               if cur \<noteq> Some (dev, net)
               then kbind (dispatch_sublist env sublist) (\<lambda>t1.
                    kbind (ip_list_rcv_loop env (Some (dev, net)) [skb] skbs) (\<lambda>t2. Done (t @ t1 @ t2)))
               else kbind (ip_list_rcv_loop env cur (sublist @ [skb]) skbs) (\<lambda>t'. Done (t @ t'))))"

definition ip_list_rcv :: "ip_env \<Rightarrow> sk_buff list \<Rightarrow> ip_event list exec" where
  "ip_list_rcv env head = ip_list_rcv_loop env None [] head"

section \<open>Delivery\<close>

text \<open>
  One round of \<open>ip_protocol_deliver_rcu\<close>: the packet goes to raw sockets and to the handler of the protocol,
  which may ask by a negative result to have it delivered again under another protocol number. \<open>Inl\<close> is that
  \<open>resubmit\<close>. The table of handlers has 256 entries. \<open>HandlerCall\<close> records the packet, the number and the result of
  the call of a handler.
\<close>

definition deliver_round :: "ip_env \<Rightarrow> sk_buff \<Rightarrow> int \<Rightarrow> ((sk_buff \<times> int) + unit) exec \<times> ip_event list" where
  "deliver_round env skb protocol =
     (if protocol < 0 \<or> 256 \<le> protocol then (Oops OutOfBounds, [])
      else let raw = e_raw_local_deliver env skb (nat protocol)
      in case e_inet_protos env (nat protocol) of
           Some ipprot \<Rightarrow>
             if \<not> np_no_policy ipprot \<and> \<not> e_policy_check env skb then (Done (Inr ()), [KfreeSkb (skb_id skb)])
             else let (ret, skb') = np_handler ipprot skb;
                      t = (if np_no_policy ipprot then [] else [NfReset (skb_id skb)]) @ [HandlerCall (skb_id skb) (nat protocol) ret]
             in if ret < 0 then (Done (Inl (skb', s32 (- ret))), t)
                else (Done (Inr ()), t @ [IncStats MIB_INDELIVERS])
         | None \<Rightarrow>
             if \<not> raw then
               (Done (Inr ()),
                (if e_policy_check env skb then [IncStats MIB_INUNKNOWNPROTOS, IcmpProtUnreach (skb_id skb)] else []) @
                [KfreeSkb (skb_id skb)])
             else (Done (Inr ()), [IncStats MIB_INDELIVERS, ConsumeSkb (skb_id skb)]))"

text \<open>The loop of rounds; \<open>None\<close> stands for a loop that does not end.\<close>

partial_function (option) ip_protocol_deliver_rcu :: "ip_env \<Rightarrow> sk_buff \<Rightarrow> int \<Rightarrow> (unit exec \<times> ip_event list) option" where
  "ip_protocol_deliver_rcu env skb protocol =
     (case deliver_round env skb protocol of
        (Oops e, t) \<Rightarrow> Some (Oops e, t)
      | (Done (Inr u), t) \<Rightarrow> Some (Done (), t)
      | (Done (Inl (skb', p)), t) \<Rightarrow>
          Option.bind (ip_protocol_deliver_rcu env skb' p) (\<lambda>(r, t'). Some (r, t @ t')))"

text \<open>\<open>__skb_pull\<close> moves \<open>skb->data\<close> by the length of the network header.\<close>

definition ip_local_deliver_finish :: "ip_env \<Rightarrow> sk_buff \<Rightarrow> (unit exec \<times> ip_event list) option" where
  "ip_local_deliver_finish env skb =
     (case ip_hdr skb of
        Oops e \<Rightarrow> Some (Oops e, [])
      | Done iph \<Rightarrow> ip_protocol_deliver_rcu env (skb\<lparr>skb_off := skb_off skb + skb_transport skb\<rparr>) (int (ip_protocol iph)))"

definition ip_local_deliver :: "ip_env \<Rightarrow> sk_buff \<Rightarrow> (unit exec \<times> ip_event list) option" where
  "ip_local_deliver env skb =
     (case ip_hdr skb of
        Oops e \<Rightarrow> Some (Oops e, [])
      | Done iph \<Rightarrow>
          (case (if ip_is_fragment iph then e_defrag env skb else Some skb) of
             None \<Rightarrow> Some (Done (), [])
           | Some skb \<Rightarrow>
               (case e_local_in env skb of
                  Inl ret \<Rightarrow> Some (Done (), [])
                | Inr skb \<Rightarrow> ip_local_deliver_finish env skb)))"

text \<open>
  The chain of sockets that want packets with the router alert option. A match is remembered in \<open>last_sk\<close>; the one
  remembered before it gets a clone, if there is memory for one.
\<close>

definition ra_matches :: "nat \<Rightarrow> int \<Rightarrow> sock option \<Rightarrow> bool" where
  "ra_matches protocol ifindex sk =
     (case sk of
        None \<Rightarrow> False
      | Some s \<Rightarrow> sk_inet_num s = protocol \<and> (sk_bound_dev_if s = 0 \<or> sk_bound_dev_if s = ifindex))"

fun ra_loop :: "ip_env \<Rightarrow> nat \<Rightarrow> int \<Rightarrow> sk_buff \<Rightarrow> sock option \<Rightarrow> sock option list \<Rightarrow> (bool \<times> ip_event list) exec" where
  "ra_loop env protocol ifindex skb last_sk [] =
     (case last_sk of None \<Rightarrow> Done (False, []) | Some s \<Rightarrow> Done (True, [RawRcv (sk_id s) (skb_id skb)]))"
| "ra_loop env protocol ifindex skb last_sk (sk # ra) =
     (if ra_matches protocol ifindex sk then
        kbind (ip_hdr skb) (\<lambda>iph.
          case (if ip_is_fragment iph then e_defrag env skb else Some skb) of
            None \<Rightarrow> Done (True, [])
          | Some skb \<Rightarrow>
              (let t = (case last_sk of
                          None \<Rightarrow> []
                        | Some s \<Rightarrow> (case e_clone env skb of None \<Rightarrow> [] | Some skb2 \<Rightarrow> [RawRcv (sk_id s) (skb_id skb2)]))
               in kbind (ra_loop env protocol ifindex skb sk ra) (\<lambda>(r, t'). Done (r, t @ t'))))
      else ra_loop env protocol ifindex skb last_sk ra)"

definition ip_call_ra_chain :: "ip_env \<Rightarrow> sock option list \<Rightarrow> sk_buff \<Rightarrow> (bool \<times> ip_event list) exec" where
  "ip_call_ra_chain env ra_chain skb =
     kbind (ip_hdr skb) (\<lambda>iph. ra_loop env (ip_protocol iph) (int (skb_dev skb)) skb None ra_chain)"

section \<open>The keyword search\<close>

lemma keyword_walk:
  "w < 4 \<Longrightarrow> arr_get keyword (int w) = Done (keyword ! w)"
  by (simp add: arr_get_def keyword_def)

lemma http_loop_scan:
  assumes "skb_off skb = 0" and "w < 4" and "i \<le> length (skb_head skb)"
  shows "http_loop skb i w =
    (if scan w (drop i (skb_head skb)) then Done True else if skb_frags skb = [] then Done False else Oops OutOfBounds)"
  using assms
proof (induction skb i w rule: http_loop.induct)
  case (1 skb i w)
  show ?case
  proof (cases "i < length (skb_head skb)")
    case True
    let ?b = "skb_head skb ! i" and ?w = "if skb_head skb ! i = keyword ! w then w + 1 else 0"
    have d: "skb_data skb i = Done ?b" "i < skb_len skb" "drop i (skb_head skb) = ?b # drop (i + 1) (skb_head skb)"
      using True 1(2) by (simp_all add: skb_data_def arr_get_def skb_len_def Cons_nth_drop_Suc)
    have w: "walk w ?b = ?w" using 1(3) by (simp add: walk_def)
    show ?thesis
    proof (cases "?w = 4")
      case True
      then show ?thesis using d 1(3) w by (simp add: http_loop.simps [of skb i] keyword_walk)
    next
      case False
      then have "?w < 4" using walk_le [of w ?b] w by linarith
      with 1(1) [OF d(2,1) keyword_walk [OF 1(3)] refl False] 1(2) True
      have "http_loop skb (i + 1) ?w =
          (if scan ?w (drop (i + 1) (skb_head skb)) then Done True
           else if skb_frags skb = [] then Done False else Oops OutOfBounds)" by simp
      then show ?thesis
        using d 1(3) w False by (simp add: http_loop.simps [of skb i] keyword_walk Let_def)
    qed
  next
    case False
    then have e: "i = length (skb_head skb)" using 1(4) by simp
    have "i < skb_len skb \<longleftrightarrow> skb_frags skb \<noteq> []" using e 1(2) by (simp add: skb_len_def)
    moreover have "skb_data skb i = Oops OutOfBounds" using e 1(2) by (simp add: skb_data_def arr_get_def)
    ultimately show ?thesis using e by (simp add: http_loop.simps [of skb "length (skb_head skb)"])
  qed
qed

text \<open>
  C31. What the search for \<^verbatim>\<open>HTTP\<close> in \<open>ip_rcv_core\<close> finds. In a linear packet it never faults and never claims a
  keyword that is not there; it finds the keyword at the start of the packet and behind every byte other than
  \<^verbatim>\<open>H\<close> and \<^verbatim>\<open>T\<close>. Behind those it can overlook it, as in \<^verbatim>\<open>HHTTP\<close>. In a packet with bytes in pages the search
  reads out of bounds unless the linear part has the keyword.
\<close>

theorem ip_http_search:
  assumes "skb_off skb = 0"
  shows "(skb_frags skb = [] \<longrightarrow>
      (\<exists>found. http_loop skb 0 0 = Done found \<and>
        (found \<longrightarrow> (\<exists>pre post. skb_head skb = pre @ keyword @ post)) \<and>
        (\<forall>pre post. skb_head skb = pre @ keyword @ post \<and> (pre = [] \<or> last pre \<noteq> 0x48 \<and> last pre \<noteq> 0x54) \<longrightarrow> found)) \<and>
      (skb_head skb = 0x48 # keyword \<longrightarrow> http_loop skb 0 0 = Done False)) \<and>
    (skb_frags skb \<noteq> [] \<longrightarrow> http_loop skb 0 0 = (if scan 0 (skb_head skb) then Done True else Oops OutOfBounds))"
proof (intro conjI impI)
  assume lin: "skb_frags skb = []"
  have h: "http_loop skb 0 0 = Done (scan 0 (skb_head skb))" using http_loop_scan [of skb 0 0] assms lin by simp
  then show "\<exists>found. http_loop skb 0 0 = Done found \<and>
        (found \<longrightarrow> (\<exists>pre post. skb_head skb = pre @ keyword @ post)) \<and>
        (\<forall>pre post. skb_head skb = pre @ keyword @ post \<and> (pre = [] \<or> last pre \<noteq> 0x48 \<and> last pre \<noteq> 0x54) \<longrightarrow> found)"
    using scan_sound [of 0 "skb_head skb"] scan_complete scan_keyword by auto
  assume "skb_head skb = 0x48 # keyword"
  then show "http_loop skb 0 0 = Done False" unfolding h by (simp add: keyword_def walk_def)
qed (use http_loop_scan [of skb 0 0] assms in simp)

section \<open>Acceptance\<close>

text \<open>
  What the kernel documents of its functions on linear packets: nothing has to be moved, a packet that is
  shared is replaced by a copy, trimming cuts the end off.
\<close>

definition linear_documented :: "ip_env \<Rightarrow> bool" where
  "linear_documented env \<longleftrightarrow>
     (\<forall>skb skb'. e_share_check env skb = Some skb' \<longrightarrow> skb' = skb\<lparr>skb_id := skb_id skb'\<rparr>) \<and>
     (\<forall>skb n. skb_frags skb = [] \<longrightarrow> skb_off skb = 0 \<longrightarrow>
        e_may_pull env skb n = (if n \<le> length (skb_head skb) then Some skb else None)) \<and>
     (\<forall>skb n skb'. skb_frags skb = [] \<longrightarrow> skb_off skb = 0 \<longrightarrow> e_trim_rcsum env skb n = Some skb' \<longrightarrow>
        skb' = skb\<lparr>skb_head := take n (skb_head skb)\<rparr>)"

text \<open>The conditions on the header of a packet and its length.\<close>

definition ip_acceptable :: "ip_env \<Rightarrow> byte list \<Rightarrow> bool" where
  "ip_acceptable env b \<longleftrightarrow> IPHDR \<le> length b \<and> \<not> scan 0 b \<and>
     (let iph = parse_iphdr b
      in 5 \<le> ip_ihl iph \<and> ip_version iph = 4 \<and> ip_ihl iph * 4 \<le> length b \<and>
         e_fast_csum env (take (ip_ihl iph * 4) b) = 0 \<and>
         ip_ihl iph * 4 \<le> ip_tot_len iph \<and> ip_tot_len iph \<le> length b)"

definition frees :: "ip_event list \<Rightarrow> nat list" where
  "frees t = concat (map (\<lambda>e. case e of KfreeSkb i \<Rightarrow> [i] | _ \<Rightarrow> []) t)"

lemma frees_simps [simp]: "frees [] = []" "frees (t @ t') = frees t @ frees t'" "frees (KfreeSkb i # t) = i # frees t"
  "frees (IncStats m # t) = frees t" "frees (AddStats m n # t) = frees t" "frees (UpdPoStats m n # t) = frees t"
  by (simp_all add: frees_def)

lemma linear_pull: "linear_documented env \<Longrightarrow> skb_frags skb = [] \<Longrightarrow> skb_off skb = 0 \<Longrightarrow>
    e_may_pull env skb n = (if n \<le> length (skb_head skb) then Some skb else None)"
  by (simp add: linear_documented_def)

lemma linear_trim: "linear_documented env \<Longrightarrow> skb_frags skb = [] \<Longrightarrow> skb_off skb = 0 \<Longrightarrow>
    e_trim_rcsum env skb n = Some skb' \<Longrightarrow> skb' = skb\<lparr>skb_head := take n (skb_head skb)\<rparr>"
  unfolding linear_documented_def by blast

lemma ip_rcv_header_linear:
  assumes doc: "linear_documented env" and lin: "skb_frags skb = []" "skb_off skb = 0" and len: "IPHDR \<le> length (skb_head skb)"
    and "frees t = []"
  defines "iph \<equiv> parse_iphdr (skb_head skb)"
  shows "\<exists>r t'. ip_rcv_header env t skb = Done (r, t') \<and>
    (if 5 \<le> ip_ihl iph \<and> ip_version iph = 4 \<and> ip_ihl iph * 4 \<le> length (skb_head skb) \<and>
        e_fast_csum env (take (ip_ihl iph * 4) (skb_head skb)) = 0 \<and>
        ip_ihl iph * 4 \<le> ip_tot_len iph \<and> ip_tot_len iph \<le> length (skb_head skb) \<and> e_trim_rcsum env skb (ip_tot_len iph) \<noteq> None
     then r = Some (skb\<lparr>skb_head := take (ip_tot_len iph) (skb_head skb), skb_transport := ip_ihl iph * 4,
                        cb_iif := skb_iif skb, cb_optlen := 0, skb_sk := False\<rparr>) \<and> frees t' = []
     else r = None \<and> frees t' = [skb_id skb])"
proof (cases "5 \<le> ip_ihl iph \<and> ip_version iph = 4 \<and> ip_ihl iph * 4 \<le> length (skb_head skb) \<and>
        e_fast_csum env (take (ip_ihl iph * 4) (skb_head skb)) = 0 \<and>
        ip_ihl iph * 4 \<le> ip_tot_len iph \<and> ip_tot_len iph \<le> length (skb_head skb) \<and> e_trim_rcsum env skb (ip_tot_len iph) \<noteq> None")
  case True
  then obtain skb' where tr: "e_trim_rcsum env skb (ip_tot_len iph) = Some skb'" by blast
  have s: "skb' = skb\<lparr>skb_head := take (ip_tot_len iph) (skb_head skb)\<rparr>" by (rule linear_trim [OF doc lin tr])
  have l: "IPHDR \<le> ip_tot_len iph" using True by (simp add: IPHDR_def)
  have "ip_hdr skb = Done iph" "ip_hdr skb' = Done iph"
    using len l True s by (simp_all add: ip_hdr_def iph_def min_def)
  then show ?thesis
    using True tr s lin assms(5) by (simp add: ip_rcv_header_def linear_pull [OF doc lin] Let_def skb_len_def)
next
  case False
  have "ip_hdr skb = Done iph" using len by (simp add: ip_hdr_def iph_def)
  then show ?thesis
    using False lin assms(5)
    by (auto simp: ip_rcv_header_def linear_pull [OF doc lin] Let_def skb_len_def inhdr_error_def csum_error_def drop_skb_def
        split: option.splits)
qed

text \<open>The copy that replaces a shared packet is linear like it, and \<open>ip_rcv_core\<close> continues with the copy.\<close>

lemma shared_linear:
  assumes "linear_documented env" and "skb_frags skb = []" and "skb_off skb = 0" and "e_share_check env skb = Some skb1"
  shows "skb_frags skb1 = []" "skb_off skb1 = 0" "skb_head skb1 = skb_head skb"
proof -
  have "skb1 = skb\<lparr>skb_id := skb_id skb1\<rparr>" using assms(1,4) unfolding linear_documented_def by blast
  then show "skb_frags skb1 = []" "skb_off skb1 = 0" "skb_head skb1 = skb_head skb"
    using assms(2,3) by (metis sk_buff.select_convs sk_buff.surjective sk_buff.update_convs(1))+
qed

lemma ip_rcv_core_linear:
  assumes "linear_documented env" and "skb_frags skb = []" and "skb_off skb = 0"
    and "skb_pkt_type skb \<noteq> PACKET_OTHERHOST" and "e_share_check env skb = Some skb1"
  defines "t \<equiv> [UpdPoStats MIB_IN (skb_len skb)]"
  shows "ip_rcv_core env skb =
    (if IPHDR \<le> length (skb_head skb)
     then (if scan 0 (skb_head skb) then drop_skb t skb1 else ip_rcv_header env t skb1)
     else inhdr_error t skb1)"
proof -
  note lin = shared_linear [OF assms(1-3,5)]
  show ?thesis
    using assms(4,5) lin http_loop_scan [of skb1 0 0]
    by (simp add: ip_rcv_core_def linear_pull [OF assms(1) lin(1,2)] Let_def t_def)
qed

text \<open>What is known of a packet that was accepted.\<close>

lemma ip_rcv_core_accepted:
  assumes "linear_documented env" and "skb_frags skb = []" and "skb_off skb = 0" and "ip_rcv_core env skb = Done (Some skb', t)"
  shows "\<not> scan 0 (skb_head skb)" and "\<exists>n. skb_head skb' = take n (skb_head skb)"
proof -
  have host: "skb_pkt_type skb \<noteq> PACKET_OTHERHOST" using assms(4) by (auto simp: ip_rcv_core_def drop_skb_def)
  obtain skb1 where sh: "e_share_check env skb = Some skb1" using assms(4) host by (auto simp: ip_rcv_core_def Let_def split: option.splits)
  note lin = shared_linear [OF assms(1-3) sh] and core = ip_rcv_core_linear [OF assms(1-3) host sh]
  have c: "IPHDR \<le> length (skb_head skb)" "\<not> scan 0 (skb_head skb)"
    using assms(4) by (auto simp: core inhdr_error_def drop_skb_def split: if_splits)
  then show "\<not> scan 0 (skb_head skb)" by simp
  show "\<exists>n. skb_head skb' = take n (skb_head skb)"
    using ip_rcv_header_linear [OF assms(1) lin(1,2), of "[UpdPoStats MIB_IN (skb_len skb)]"] assms(4) c lin(3)
    by (auto simp: core split: if_splits)
qed


text \<open>
  C29. Which linear packets \<open>ip_rcv_core\<close> accepts: exactly those for this host whose header is complete, of
  version 4, has the right checksum and a total length between the header's length and the received length,
  and in which the search finds no keyword. The packet it passes on holds exactly the bytes of the datagram, with the
  transport header inside of it. A packet it does not accept is freed exactly once (or was given away when
  it could not be copied), an accepted one is not freed.
\<close>

theorem ip_rcv_core_accepts:
  assumes "linear_documented env" and "skb_frags skb = []" and "skb_off skb = 0"
  defines "iph \<equiv> parse_iphdr (skb_head skb)"
  shows "\<exists>r t. ip_rcv_core env skb = Done (r, t) \<and>
    (r \<noteq> None \<longleftrightarrow> skb_pkt_type skb \<noteq> PACKET_OTHERHOST \<and> ip_acceptable env (skb_head skb) \<and>
      (\<exists>skb1. e_share_check env skb = Some skb1 \<and> e_trim_rcsum env skb1 (ip_tot_len iph) \<noteq> None)) \<and>
    (\<forall>skb'. r = Some skb' \<longrightarrow> skb_bytes skb' = take (ip_tot_len iph) (skb_head skb) \<and> skb_len skb' = ip_tot_len iph \<and>
      skb_transport skb' = ip_ihl iph * 4 \<and> skb_transport skb' \<le> skb_len skb' \<and> frees t = []) \<and>
    (r = None \<longrightarrow> length (frees t) = (if skb_pkt_type skb \<noteq> PACKET_OTHERHOST \<and> e_share_check env skb = None then 0 else 1))"
proof (cases "skb_pkt_type skb = PACKET_OTHERHOST")
  case True
  then show ?thesis by (simp add: ip_rcv_core_def drop_skb_def)
next
  case host: False
  show ?thesis
  proof (cases "e_share_check env skb")
    case None
    then show ?thesis using host by (simp add: ip_rcv_core_def)
  next
    case (Some skb1)
    note sh = shared_linear [OF assms(1-3) Some]
    note lin = sh(1,2) and h = sh(3) and core = ip_rcv_core_linear [OF assms(1-3) host Some]
    let ?t = "[UpdPoStats MIB_IN (skb_len skb)]"
    show ?thesis
    proof (cases "IPHDR \<le> length (skb_head skb) \<and> \<not> scan 0 (skb_head skb)")
      case False
      then show ?thesis using core host Some by (auto simp: ip_acceptable_def inhdr_error_def drop_skb_def)
    next
      case True
      then obtain r t' where r: "ip_rcv_core env skb = Done (r, t')"
        "if 5 \<le> ip_ihl iph \<and> ip_version iph = 4 \<and> ip_ihl iph * 4 \<le> length (skb_head skb) \<and>
            e_fast_csum env (take (ip_ihl iph * 4) (skb_head skb)) = 0 \<and>
            ip_ihl iph * 4 \<le> ip_tot_len iph \<and> ip_tot_len iph \<le> length (skb_head skb) \<and> e_trim_rcsum env skb1 (ip_tot_len iph) \<noteq> None
         then r = Some (skb1\<lparr>skb_head := take (ip_tot_len iph) (skb_head skb), skb_transport := ip_ihl iph * 4,
                            cb_iif := skb_iif skb1, cb_optlen := 0, skb_sk := False\<rparr>) \<and> frees t' = []
         else r = None \<and> frees t' = [skb_id skb1]"
        using ip_rcv_header_linear [OF assms(1) lin, of ?t] core h by (auto simp: iph_def)
      then show ?thesis
        using True host Some lin
        by (auto simp: ip_acceptable_def Let_def iph_def skb_bytes_def skb_len_def split: if_splits)
    qed
  qed
qed

section \<open>Batches and single packets\<close>

text \<open>The packets handed to \<open>dst_input\<close>, in order, and the events of a computation that returns.\<close>

definition dst_inputs :: "ip_event list \<Rightarrow> nat list" where
  "dst_inputs t = concat (map (\<lambda>e. case e of DstInput i \<Rightarrow> [i] | _ \<Rightarrow> []) t)"

definition events :: "(int \<times> ip_event list) exec \<Rightarrow> ip_event list" where
  "events m = (case m of Done (r, t) \<Rightarrow> t | Oops e \<Rightarrow> [])"

lemma dst_inputs_simps [simp]: "dst_inputs [] = []" "dst_inputs (t @ t') = dst_inputs t @ dst_inputs t'"
  "dst_inputs (DstInput i # t) = i # dst_inputs t" "dst_inputs (KfreeSkb i # t) = dst_inputs t"
  "dst_inputs (IncStats m # t) = dst_inputs t" "dst_inputs (AddStats m n # t) = dst_inputs t"
  "dst_inputs (UpdPoStats m n # t) = dst_inputs t"
  by (simp_all add: dst_inputs_def)

lemma events_Done [simp]: "events (Done (r, t)) = t"
  by (simp add: events_def)

lemma drops_dst_inputs:
  "drop_skb t skb = Done (r, t') \<Longrightarrow> dst_inputs t' = dst_inputs t"
  "inhdr_error t skb = Done (r, t') \<Longrightarrow> dst_inputs t' = dst_inputs t"
  "csum_error t skb = Done (r, t') \<Longrightarrow> dst_inputs t' = dst_inputs t"
  by (auto simp: drop_skb_def inhdr_error_def csum_error_def)

lemma ip_rcv_header_dst_inputs:
  "ip_rcv_header env t skb = Done (r, t') \<Longrightarrow> dst_inputs t' = dst_inputs t"
  by (auto simp: ip_rcv_header_def Let_def exec_simps dest!: drops_dst_inputs split: if_splits option.splits)

lemma ip_rcv_core_dst_inputs: "ip_rcv_core env skb = Done (r, t) \<Longrightarrow> dst_inputs t = []"
  by (auto simp: ip_rcv_core_def Let_def exec_simps dest!: drops_dst_inputs ip_rcv_header_dst_inputs
      split: if_splits option.splits)

lemma ip_rcv_options_dst_inputs: "ip_rcv_options env skb dev = Done (b, skb', t) \<Longrightarrow> dst_inputs t = []"
  by (auto simp: ip_rcv_options_def Let_def exec_simps split: if_splits option.splits)

lemma ip_rcv_routed_dst_inputs:
  assumes "ip_rcv_routed env skb iph dev = Done (r, skb', t)"
  shows "dst_inputs t = [] \<and> (r \<noteq> NET_RX_DROP \<longrightarrow> skb_dst skb' \<noteq> None)"
proof -
  obtain d skb1 t1 where o: "(if ip_ihl iph > 5 then ip_rcv_options env skb dev else Done (False, skb, [])) = Done (d, skb1, t1)"
    using assms by (auto simp: ip_rcv_routed_def kbind_eq_Done)
  then have t1: "dst_inputs t1 = []" by (auto dest: ip_rcv_options_dst_inputs split: if_splits)
  show ?thesis
  proof (cases d)
    case True
    then show ?thesis using assms o t1 by (auto simp: ip_rcv_routed_def)
  next
    case False
    then obtain rt where "skb_dst skb1 = Some rt" using assms o by (cases "skb_dst skb1") (auto simp: ip_rcv_routed_def)
    then show ?thesis using assms o t1 False unfolding ip_rcv_routed_def o
      by (simp split: if_splits) auto
  qed
qed

lemma drop_error_dst_inputs:
  "drop_error err skb = Done (r, skb', t) \<Longrightarrow> dst_inputs t = [] \<and> (r \<noteq> NET_RX_DROP \<longrightarrow> skb_dst skb' \<noteq> None)"
  by (auto simp: drop_error_def)

lemma ip_rcv_finish_core_dst_inputs:
  assumes "ip_rcv_finish_core env skb dev hint = Done (r, skb', t)"
  shows "dst_inputs t = [] \<and> (r \<noteq> NET_RX_DROP \<longrightarrow> skb_dst skb' \<noteq> None)"
proof -
  obtain iph u where i: "ip_hdr skb = Done iph" "ip_can_use_hint skb iph hint = Done u"
    using assms by (auto simp: ip_rcv_finish_core_def kbind_eq_Done)
  define h where "h = (if u then e_route_use_hint env skb (the hint) else Inr skb)"
  have f: "(case h of Inl err \<Rightarrow> drop_error err skb
      | Inr skb \<Rightarrow> (case early_demux env skb iph of Inl err \<Rightarrow> drop_error err skb
          | Inr skb \<Rightarrow> kbind (ip_hdr skb) (\<lambda>iph.
              case (if e_valid_dst env skb then Inr skb else e_route_input env skb) of
                Inl err \<Rightarrow> drop_error err skb | Inr skb \<Rightarrow> ip_rcv_routed env skb iph dev))) = Done (r, skb', t)"
    using assms i by (simp add: ip_rcv_finish_core_def h_def)
  show ?thesis
  proof (cases h)
    case (Inr skb1)
    note h1 = this
    show ?thesis
    proof (cases "early_demux env skb1 iph")
      case (Inr skb2)
      define q where "q = (if e_valid_dst env skb2 then Inr skb2 else e_route_input env skb2)"
      obtain iph2 where "ip_hdr skb2 = Done iph2" using f h1 Inr by (auto simp: kbind_eq_Done)
      then have "(case q of Inl err \<Rightarrow> drop_error err skb2 | Inr skb \<Rightarrow> ip_rcv_routed env skb iph2 dev) = Done (r, skb', t)"
        using f h1 Inr by (simp add: q_def)
      then show ?thesis by (cases q) (auto dest: drop_error_dst_inputs ip_rcv_routed_dst_inputs)
    qed (use f h1 in \<open>auto dest: drop_error_dst_inputs\<close>)
  qed (use f in \<open>auto dest: drop_error_dst_inputs\<close>)
qed

lemma finish_sublist_dst_inputs [simp]: "dst_inputs (ip_sublist_rcv_finish env skbs) = map skb_id skbs"
  by (induction skbs) (simp_all add: ip_sublist_rcv_finish_def dst_input_def)

lemma mset_finish_sublist [simp]:
  "mset (ip_sublist_rcv_finish env (skbs @ [skb])) = mset (ip_sublist_rcv_finish env skbs) + {#DstInput (skb_id skb)#}"
  "ip_sublist_rcv_finish env [skb] = [DstInput (skb_id skb)]" "ip_sublist_rcv_finish env [] = []"
  by (simp_all add: ip_sublist_rcv_finish_def dst_input_def)

text \<open>With no hint, the loop does to every packet what \<open>ip_rcv_finish\<close> does, and only delays \<open>dst_input\<close>.\<close>

lemma ip_list_finish_loop_single:
  assumes "e_custom_rules env" and "\<forall>skb \<in> set skbs. is_done (ip_rcv_finish env skb)"
  shows "\<exists>t. ip_list_finish_loop env None cur sublist skbs = Done t \<and>
    dst_inputs t = map skb_id sublist @ concat (map (\<lambda>skb. dst_inputs (events (ip_rcv_finish env skb))) skbs) \<and>
    mset t = mset (ip_sublist_rcv_finish env sublist) + (\<Sum>skb\<leftarrow>skbs. mset (events (ip_rcv_finish env skb)))"
  using assms(2)
proof (induction skbs arbitrary: cur sublist)
  case (Cons skb skbs)
  show ?case
  proof (cases "e_l3mdev_rcv env skb")
    case None
    then have "events (ip_rcv_finish env skb) = []" by (simp add: ip_rcv_finish_def)
    then show ?thesis using None Cons by simp
  next
    case (Some skb1)
    obtain ret skb' t where c: "ip_rcv_finish_core env skb1 (skb_dev skb) None = Done (ret, skb', t)"
      using Cons.prems Some by (auto simp: ip_rcv_finish_def is_done_kbind)
    note core = ip_rcv_finish_core_dst_inputs [OF c]
    show ?thesis
    proof (cases "ret = NET_RX_DROP")
      case True
      then have e: "events (ip_rcv_finish env skb) = t" using c Some by (simp add: ip_rcv_finish_def)
      then show ?thesis using True c Some core Cons.IH [of cur sublist] Cons.prems by (auto simp: Let_def)
    next
      case False
      then have e: "events (ip_rcv_finish env skb) = t @ [DstInput (skb_id skb')]"
        using c Some by (simp add: ip_rcv_finish_def dst_input_def)
      obtain dst where dst: "skb_dst skb' = Some dst" using core False by auto
      show ?thesis
      proof (cases "cur = Some dst")
        case True
        then show ?thesis using False c Some core e dst Cons.IH [of cur "sublist @ [skb']"] Cons.prems
          by (auto simp: Let_def)
      next
        case diff: False
        have h: "ip_extract_route_hint env skb' rt = None" for rt using assms(1) by (simp add: ip_extract_route_hint_def)
        show ?thesis using False diff c Some core e dst h Cons.IH [of "Some dst" "[skb']"] Cons.prems
          by (auto simp: Let_def)
      qed
    qed
  qed
qed simp

text \<open>What happens to a packet that has passed \<open>ip_rcv_core\<close>: the hook, then \<open>ip_rcv_finish\<close>.\<close>

definition after_core :: "ip_env \<Rightarrow> sk_buff \<Rightarrow> (int \<times> ip_event list) exec" where
  "after_core env skb = (case e_pre_routing env skb of Inl ret \<Rightarrow> Done (ret, []) | Inr skb \<Rightarrow> ip_rcv_finish env skb)"

lemma ip_rcv_after_core:
  "ip_rcv_core env skb = Done (None, t) \<Longrightarrow> events (ip_rcv env skb) = t"
  "ip_rcv_core env skb = Done (Some skb', t) \<Longrightarrow> is_done (ip_rcv env skb) \<Longrightarrow>
     is_done (after_core env skb') \<and> events (ip_rcv env skb) = t @ events (after_core env skb')"
  by (auto simp: ip_rcv_def after_core_def is_done_iff exec_simps split: sum.splits)

lemma nf_hook_list_after_core:
  "concat (map (\<lambda>skb. dst_inputs (events (ip_rcv_finish env skb))) (nf_hook_list (e_pre_routing env) skbs)) =
     concat (map (\<lambda>skb. dst_inputs (events (after_core env skb))) skbs)"
  "(\<Sum>skb\<leftarrow>nf_hook_list (e_pre_routing env) skbs. mset (events (ip_rcv_finish env skb))) =
     (\<Sum>skb\<leftarrow>skbs. mset (events (after_core env skb)))"
  "\<forall>skb \<in> set skbs. is_done (after_core env skb) \<Longrightarrow>
     \<forall>skb \<in> set (nf_hook_list (e_pre_routing env) skbs). is_done (ip_rcv_finish env skb)"
  by (induction skbs) (auto simp: after_core_def split: sum.splits)

lemma dispatch_sublist_single:
  assumes "e_custom_rules env" and "\<forall>skb \<in> set sublist. is_done (after_core env skb)"
  shows "\<exists>t. dispatch_sublist env sublist = Done t \<and>
    dst_inputs t = concat (map (\<lambda>skb. dst_inputs (events (after_core env skb))) sublist) \<and>
    mset t = (\<Sum>skb\<leftarrow>sublist. mset (events (after_core env skb)))"
  using ip_list_finish_loop_single [OF assms(1) nf_hook_list_after_core(3) [OF assms(2)], of None "[]"]
  by (auto simp: dispatch_sublist_def ip_sublist_rcv_def ip_list_rcv_finish_def nf_hook_list_after_core)

lemma ip_list_rcv_loop_single:
  assumes "e_custom_rules env" and "\<forall>skb \<in> set skbs. is_done (ip_rcv env skb)" and "\<forall>skb \<in> set sublist. is_done (after_core env skb)"
  shows "\<exists>t. ip_list_rcv_loop env cur sublist skbs = Done t \<and>
    dst_inputs t = concat (map (\<lambda>skb. dst_inputs (events (after_core env skb))) sublist) @
      concat (map (\<lambda>skb. dst_inputs (events (ip_rcv env skb))) skbs) \<and>
    mset t = (\<Sum>skb\<leftarrow>sublist. mset (events (after_core env skb))) + (\<Sum>skb\<leftarrow>skbs. mset (events (ip_rcv env skb)))"
  using assms(2,3)
proof (induction skbs arbitrary: cur sublist)
  case Nil
  then show ?case using dispatch_sublist_single [OF assms(1) Nil(2)] by simp
next
  case (Cons skb skbs)
  obtain r t where c: "ip_rcv_core env skb = Done (r, t)"
    using Cons.prems(1) by (auto simp: ip_rcv_def is_done_kbind)
  note d = ip_rcv_core_dst_inputs [OF c]
  show ?case
  proof (cases r)
    case None
    then show ?thesis
      using c d ip_rcv_after_core(1) [of env skb t] Cons.IH [of sublist cur] Cons.prems by (auto simp: Let_def)
  next
    case (Some skb')
    then have a: "is_done (after_core env skb')" "events (ip_rcv env skb) = t @ events (after_core env skb')"
      using c ip_rcv_after_core(2) [of env skb skb' t] Cons.prems(1) by auto
    let ?here = "(skb_dev skb, e_dev_net env (skb_dev skb))"
    show ?thesis
    proof (cases "cur = Some ?here")
      case True
      then show ?thesis using Some c d a Cons.IH [of "sublist @ [skb']" cur] Cons.prems by (auto simp: Let_def)
    next
      case False
      then show ?thesis
        using Some c d a dispatch_sublist_single [OF assms(1) Cons.prems(2)]
          Cons.IH [of "[skb']" "Some ?here"] Cons.prems by (auto simp: Let_def)
    qed
  qed
qed

text \<open>
  C28. Receiving a batch is receiving its packets one by one. If route hints are not in use (custom routing
  rules), and filter hooks and routing answer for a packet the same way whatever came before it, \<open>ip_list_rcv\<close> on any list of packets, from any mixture of devices and to any mixture of routes, hands to
  \<open>dst_input\<close> exactly the packets that \<open>ip_rcv\<close> on each of them would, in the same order, and produces the
  same statistics and the same frees: splitting the batch into sublists loses, repeats and reorders nothing.
\<close>

theorem ip_list_rcv_single:
  assumes "e_custom_rules env" and "\<forall>skb \<in> set skbs. is_done (ip_rcv env skb)"
  shows "\<exists>t. ip_list_rcv env skbs = Done t \<and>
    dst_inputs t = concat (map (\<lambda>skb. dst_inputs (events (ip_rcv env skb))) skbs) \<and>
    mset t = (\<Sum>skb\<leftarrow>skbs. mset (events (ip_rcv env skb)))"
  using ip_list_rcv_loop_single [OF assms, of "[]" None] by (simp add: ip_list_rcv_def)

section \<open>Delivery ends\<close>

text \<open>
  A handler that asks for another round has taken bytes off the packet, as the handlers of encapsulations do,
  and names a protocol number of the table.
\<close>

definition handlers_progress :: "ip_env \<Rightarrow> bool" where
  "handlers_progress env \<longleftrightarrow>
     (\<forall>p h skb ret skb'. e_inet_protos env p = Some h \<longrightarrow> np_handler h skb = (ret, skb') \<longrightarrow> ret < 0 \<longrightarrow>
        - 256 < ret \<and> skb_len skb' < skb_len skb)"

text \<open>
  A packet meets its end when it is freed, when it is consumed, or when a handler keeps it. The calls of
  handlers follow the numbers that the results of the calls before them name.
\<close>

fun is_end :: "ip_event \<Rightarrow> bool" where
  "is_end (KfreeSkb i) = True"
| "is_end (ConsumeSkb i) = True"
| "is_end (HandlerCall i p ret) = (0 \<le> ret)"
| "is_end e = False"

fun handler_calls :: "ip_event list \<Rightarrow> (nat \<times> int) list" where
  "handler_calls [] = []"
| "handler_calls (HandlerCall i p ret # t) = (p, ret) # handler_calls t"
| "handler_calls (e # t) = handler_calls t"

fun resubmits :: "int \<Rightarrow> (nat \<times> int) list \<Rightarrow> bool" where
  "resubmits p [] = True"
| "resubmits p ((q, ret) # cs) = (int q = p \<and> (if ret < 0 then resubmits (- ret) cs else cs = []))"

text \<open>
  A delivery that went right: the packet met one end, it is counted as delivered unless it was freed, and the
  handlers called are those named, \<open>n\<close> of them at most.
\<close>

definition delivered :: "nat \<Rightarrow> int \<Rightarrow> ip_event list \<Rightarrow> bool" where
  "delivered n p t \<longleftrightarrow> length (filter is_end t) = 1 \<and>
     (length (filter (\<lambda>e. e = IncStats MIB_INDELIVERS) t) = (if \<exists>i. KfreeSkb i \<in> set t then 0 else 1)) \<and>
     resubmits p (handler_calls t) \<and> length (handler_calls t) \<le> n"

lemma handler_calls_append [simp]: "handler_calls (t @ t') = handler_calls t @ handler_calls t'"
  by (induction t rule: handler_calls.induct) simp_all

lemma deliver_round_cases:
  assumes "handlers_progress env" and "0 \<le> protocol" "protocol < 256"
  shows "(\<exists>skb' p t. deliver_round env skb protocol =
         (Done (Inl (skb', p)), t @ [HandlerCall (skb_id skb) (nat protocol) (- p)]) \<and>
       skb_len skb' < skb_len skb \<and> 0 < p \<and> p < 256 \<and> set t \<subseteq> {NfReset (skb_id skb)}) \<or>
     (\<exists>t. deliver_round env skb protocol = (Done (Inr ()), t) \<and> delivered 1 protocol t)"
proof (cases "e_inet_protos env (nat protocol)")
  case None
  then show ?thesis using assms(2,3) by (auto simp: deliver_round_def delivered_def)
next
  case (Some h)
  obtain ret skb' where h: "np_handler h skb = (ret, skb')" by fastforce
  have "ret < 0 \<Longrightarrow> - 256 < ret \<and> skb_len skb' < skb_len skb" using assms(1) Some h unfolding handlers_progress_def by blast
  then show ?thesis using assms(2,3) Some h
    by (cases "ret < 0") (auto simp: deliver_round_def delivered_def s32_id Let_def)
qed

lemma ip_protocol_deliver_ends:
  assumes "handlers_progress env" and "0 \<le> protocol" "protocol < 256"
  shows "\<exists>t. ip_protocol_deliver_rcu env skb protocol = Some (Done (), t) \<and> delivered (skb_len skb + 1) protocol t"
  using assms(2,3)
proof (induction "skb_len skb" arbitrary: skb protocol rule: less_induct)
  case less
  from deliver_round_cases [OF assms(1) less(2,3), of skb] show ?case
  proof (elim disjE exE conjE)
    fix skb' p t assume r: "deliver_round env skb protocol = (Done (Inl (skb', p)), t @ [HandlerCall (skb_id skb) (nat protocol) (- p)])"
      "skb_len skb' < skb_len skb" "0 < p" "p < 256" "set t \<subseteq> {NfReset (skb_id skb)}"
    from less(1) [OF r(2) _ r(4)] r(3) obtain t' where
      t': "ip_protocol_deliver_rcu env skb' p = Some (Done (), t')" "delivered (skb_len skb' + 1) p t'" by auto
    have q: "filter is_end t = []" "filter (\<lambda>e. e = IncStats MIB_INDELIVERS) t = []" "KfreeSkb i \<notin> set t" "handler_calls t = []" for i
      using r(5) by (induction t) auto
    have "delivered (skb_len skb + 1) protocol (t @ HandlerCall (skb_id skb) (nat protocol) (- p) # t')"
      using t'(2) q r(2,3) less(2) by (simp add: delivered_def)
    then show ?thesis using r(1) t'(1) by (subst ip_protocol_deliver_rcu.simps) simp
  next
    fix t assume "deliver_round env skb protocol = (Done (Inr ()), t)" "delivered 1 protocol t"
    then show ?thesis by (subst ip_protocol_deliver_rcu.simps) (auto simp: delivered_def)
  qed
qed


lemma ip_protocol_deliver_loops:
  assumes "\<And>skb. \<exists>skb' t. deliver_round env skb p = (Done (Inl (skb', p)), t)"
  shows "ip_protocol_deliver_rcu env skb p = None"
proof -
  have no: "ip_protocol_deliver_rcu e s q = Some y \<Longrightarrow> e = env \<Longrightarrow> q = p \<Longrightarrow> False" for e s q y
  proof (induction rule: ip_protocol_deliver_rcu.raw_induct [rotated, consumes 1, case_names step])
    case (step f e s q y)
    then obtain s' t where "deliver_round e s q = (Done (Inl (s', q)), t)" using assms [of s] by auto
    moreover from this obtain r where "f e s' q = Some r" using step(2) by (auto simp: bind_eq_Some_conv)
    ultimately show ?case using step(1,3,4) by blast
  qed
  show ?thesis
  proof (rule ccontr)
    assume "ip_protocol_deliver_rcu env skb p \<noteq> None"
    then obtain y where "ip_protocol_deliver_rcu env skb p = Some y" by blast
    then show False by (rule no [OF _ refl refl])
  qed
qed

text \<open>
  C30. Delivery ends. \<open>ip_protocol_deliver_rcu\<close> goes round as long as handlers ask for it. It relies on every
  handler that does so having taken bytes off the packet and naming a number of the table. Then delivering a
  packet with a complete header returns without a fault, after at most one call of a handler per byte of the packet and one
  more; every call is of the handler that the header, or the result of the call before, names; the packet
  meets exactly one end, that is, it is freed, or consumed, or kept by the last handler called; and it is
  counted as delivered once, unless it was freed. A handler that always asks for its own number keeps the loop
  going for ever.
\<close>

theorem ip_deliver_terminates:
  assumes "IPHDR \<le> length (skb_head skb)"
  shows "(handlers_progress env \<longrightarrow> (\<exists>t. ip_local_deliver_finish env skb = Some (Done (), t) \<and>
      length (filter is_end t) = 1 \<and>
      length (filter (\<lambda>e. e = IncStats MIB_INDELIVERS) t) = (if \<exists>i. KfreeSkb i \<in> set t then 0 else 1) \<and>
      resubmits (int (ip_protocol (parse_iphdr (skb_head skb)))) (handler_calls t) \<and>
      length (handler_calls t) \<le> skb_len skb + 1)) \<and>
    (\<forall>p h. e_inet_protos env p = Some h \<and> np_no_policy h \<and> 0 < p \<and> p < 256 \<and> (\<forall>s. fst (np_handler h s) = - int p) \<and>
       ip_protocol (parse_iphdr (skb_head skb)) = p \<longrightarrow> ip_local_deliver_finish env skb = None)"
proof (intro conjI allI impI)
  assume "handlers_progress env"
  let ?skb = "skb\<lparr>skb_off := skb_off skb + skb_transport skb\<rparr>" and ?p = "int (ip_protocol (parse_iphdr (skb_head skb)))"
  from ip_protocol_deliver_ends [OF \<open>handlers_progress env\<close>, of ?p ?skb] parse_iphdr_bounds(3) obtain t where
    "ip_protocol_deliver_rcu env ?skb ?p = Some (Done (), t)" "delivered (skb_len ?skb + 1) ?p t" by auto
  moreover have "skb_len ?skb \<le> skb_len skb" by (simp add: skb_len_def)
  ultimately show "\<exists>t. ip_local_deliver_finish env skb = Some (Done (), t) \<and>
      length (filter is_end t) = 1 \<and>
      length (filter (\<lambda>e. e = IncStats MIB_INDELIVERS) t) = (if \<exists>i. KfreeSkb i \<in> set t then 0 else 1) \<and>
      resubmits ?p (handler_calls t) \<and> length (handler_calls t) \<le> skb_len skb + 1"
    using assms by (auto simp: ip_local_deliver_finish_def ip_hdr_def delivered_def)
next
  fix p h assume a: "e_inet_protos env p = Some h \<and> np_no_policy h \<and> 0 < p \<and> p < 256 \<and> (\<forall>s. fst (np_handler h s) = - int p) \<and>
       ip_protocol (parse_iphdr (skb_head skb)) = p"
  have "\<exists>skb' t. deliver_round env s (int p) = (Done (Inl (skb', int p)), t)" for s
  proof -
    obtain s' where "np_handler h s = (- int p, s')" using a by (metis prod.collapse)
    then show ?thesis using a by (simp add: deliver_round_def Let_def s32_id)
  qed
  from ip_protocol_deliver_loops [OF this] show "ip_local_deliver_finish env skb = None"
    using assms a by (simp add: ip_local_deliver_finish_def ip_hdr_def)
qed

text \<open>
  The router alert chain: every socket of the chain that wants the packet gets it once, in the order of the
  chain, the last one the packet itself and the others clones; the packet is taken exactly if someone wants it.
\<close>

definition raw_rcvs :: "ip_event list \<Rightarrow> nat list" where
  "raw_rcvs t = concat (map (\<lambda>e. case e of RawRcv s i \<Rightarrow> [s] | _ \<Rightarrow> []) t)"

lemma ra_loop_delivers:
  assumes "IPHDR \<le> length (skb_head skb)" and "\<not> ip_is_fragment (parse_iphdr (skb_head skb))" and "\<And>s. e_clone env s \<noteq> None"
  shows "\<exists>t. ra_loop env protocol ifindex skb last_sk ra =
      Done (last_sk \<noteq> None \<or> filter (ra_matches protocol ifindex) ra \<noteq> [], t) \<and>
    raw_rcvs t = (case last_sk of None \<Rightarrow> [] | Some s \<Rightarrow> [sk_id s]) @
      map (\<lambda>sk. sk_id (the sk)) (filter (ra_matches protocol ifindex) ra)"
proof (induction ra arbitrary: last_sk)
  case (Cons sk ra)
  obtain s2 where c: "e_clone env skb = Some s2" using assms(3) by blast
  have h: "ip_hdr skb = Done (parse_iphdr (skb_head skb))" using assms(1) by (simp add: ip_hdr_def)
  show ?case
  proof (cases "ra_matches protocol ifindex sk")
    case True
    then obtain s where s: "sk = Some s" by (auto simp: ra_matches_def split: option.splits)
    then show ?thesis
      using True Cons [of sk] h c assms(2) by (cases last_sk) (auto simp: Let_def raw_rcvs_def)
  qed (use Cons in simp)
qed (auto simp: raw_rcvs_def split: option.splits)

theorem ip_call_ra_chain_delivers:
  fixes ra_chain :: "sock option list"
  assumes "IPHDR \<le> length (skb_head skb)" and "\<not> ip_is_fragment (parse_iphdr (skb_head skb))" and "\<And>s. e_clone env s \<noteq> None"
  defines "m \<equiv> filter (ra_matches (ip_protocol (parse_iphdr (skb_head skb))) (int (skb_dev skb))) ra_chain"
  shows "\<exists>t. ip_call_ra_chain env ra_chain skb = Done (m \<noteq> [], t) \<and> raw_rcvs t = map (\<lambda>sk. sk_id (the sk)) m"
  using ra_loop_delivers [OF assms(1-3), of "ip_protocol (parse_iphdr (skb_head skb))" "int (skb_dev skb)" None ra_chain] assms(1)
  by (simp add: ip_call_ra_chain_def ip_hdr_def m_def)

section \<open>Witnesses\<close>

text \<open>A kernel in which every request is granted, every packet is routed to one local route, and protocol 4 strips a header.\<close>

definition dst_ex :: dst_entry where "dst_ex = \<lparr>dst_id = 1, dst_rt_type = RTN_LOCAL\<rparr>"

definition ipip_ex :: net_protocol where
  "ipip_ex = \<lparr>np_no_policy = True, np_early_demux = None,
     np_handler = (\<lambda>skb. if skb_len skb < 20 then (0, skb) else (- 4, skb\<lparr>skb_off := skb_off skb + 20\<rparr>))\<rparr>"

definition ip_env_ex :: ip_env where
  "ip_env_ex = \<lparr>e_share_check = Some, e_may_pull = (\<lambda>skb n. if n \<le> length (skb_head skb) then Some skb else None),
     e_fast_csum = (\<lambda>b. 0), e_trim_rcsum = (\<lambda>skb n. Some (skb\<lparr>skb_head := take n (skb_head skb)\<rparr>)),
     e_pre_routing = Inr, e_local_in = Inr, e_l3mdev_rcv = Some, e_route_use_hint = (\<lambda>skb h. Inr skb),
     e_early_demux = False, e_inet_protos = (\<lambda>p. if p = 4 then Some ipip_ex else None), e_valid_dst = (\<lambda>skb. False),
     e_route_input = (\<lambda>skb. Inr (skb\<lparr>skb_dst := Some dst_ex\<rparr>)), e_skb_cow = Some, e_options_compile = (\<lambda>skb. Some False),
     e_options_rcv_srr = Some, e_in_dev = (\<lambda>d. None), e_dst_input = (\<lambda>skb. 0), e_dev_net = (\<lambda>d. 0), e_custom_rules = True,
     e_defrag = Some, e_raw_local_deliver = (\<lambda>skb p. False), e_policy_check = (\<lambda>skb. True), e_clone = Some\<rparr>"

definition skb_ex :: sk_buff where
  "skb_ex = \<lparr>skb_id = 7, skb_pkt_type = PACKET_HOST, skb_dev = 2, skb_iif = 2,
     skb_head = [0x45, 0, 0, 22, 0, 0, 0, 0, 64, 4, 0, 0, 10, 0, 0, 1, 10, 0, 0, 2, 1, 2, 0, 0], skb_frags = [], skb_off = 0,
     skb_transport = 20, skb_gso_segs = 0, skb_dst = None, skb_sk = False, cb_iif = 0, cb_optlen = 0\<rparr>"

lemma ip_env_ex_linear [simp]: "linear_documented ip_env_ex"
  by (simp add: linear_documented_def ip_env_ex_def)

lemma skb_ex_header [simp]: "skb_off skb_ex = 0" "skb_frags skb_ex = []" "IPHDR \<le> length (skb_head skb_ex)"
  "length (skb_head skb_ex) = 24" "IPHDR \<le> 24" "ip_tot_len (parse_iphdr (skb_head skb_ex)) = 22" "ip_ihl (parse_iphdr (skb_head skb_ex)) = 5"
  "ip_version (parse_iphdr (skb_head skb_ex)) = 4" "ip_protocol (parse_iphdr (skb_head skb_ex)) = 4"
  by (simp_all add: skb_ex_def IPHDR_def parse_iphdr_def be16_def)

lemma skb_ex_no_keyword [simp]: "\<not> scan 0 (skb_head skb_ex)"
  by (simp add: skb_ex_def walk_def keyword_def)

theorem ip_http_search_witness:
  "http_loop (skb_ex\<lparr>skb_head := 0x48 # keyword\<rparr>) 0 0 = Done False \<and>
    http_loop (skb_ex\<lparr>skb_head := 1 # keyword\<rparr>) 0 0 = Done True"
proof -
  let ?a = "skb_ex\<lparr>skb_head := 0x48 # keyword\<rparr>" and ?b = "skb_ex\<lparr>skb_head := 1 # keyword\<rparr>"
  have "skb_off ?b = 0" "skb_frags ?b = []" by simp_all
  from ip_http_search [of ?b, THEN conjunct1, THEN mp, THEN conjunct1, OF this] obtain found where
    f: "http_loop ?b 0 0 = Done found" and
    c: "\<forall>pre post. skb_head ?b = pre @ keyword @ post \<and> (pre = [] \<or> last pre \<noteq> 0x48 \<and> last pre \<noteq> 0x54) \<longrightarrow> found"
    by blast
  have found using c [rule_format, of "[1]" "[]"] by simp
  with f have "http_loop ?b 0 0 = Done True" by simp
  then show ?thesis using ip_http_search [of ?a] by simp
qed

theorem ip_rcv_core_accepts_witness:
  "\<exists>skb' t. ip_rcv_core ip_env_ex skb_ex = Done (Some skb', t) \<and> skb_len skb' = 22 \<and> skb_transport skb' = 20"
proof -
  have "ip_acceptable ip_env_ex (skb_head skb_ex)" by (simp add: ip_acceptable_def Let_def) (simp add: ip_env_ex_def)
  moreover have "skb_pkt_type skb_ex \<noteq> PACKET_OTHERHOST" "e_share_check ip_env_ex skb_ex = Some skb_ex" "e_trim_rcsum ip_env_ex skb_ex 22 \<noteq> None"
    by (simp_all add: skb_ex_def ip_env_ex_def)
  ultimately show ?thesis using ip_rcv_core_accepts [of ip_env_ex skb_ex] by auto
qed

lemma ip_rcv_ex: "ip_rcv ip_env_ex skb_ex = Done (0, [UpdPoStats MIB_IN 24, AddStats (MIB_ECN 0) 1, DstInput 7])"
proof -
  have "http_loop skb_ex 0 0 = Done False" using http_loop_scan [of skb_ex 0 0] by simp
  then show ?thesis
    by (simp add: ip_rcv_def ip_rcv_core_def ip_rcv_header_def ip_rcv_finish_def ip_rcv_finish_core_def ip_can_use_hint_def
        early_demux_def ip_rcv_routed_def dst_input_def ip_env_ex_def skb_ex_def ip_hdr_def parse_iphdr_def IPHDR_def be16_def
        skb_len_def dst_ex_def)
qed

theorem ip_list_rcv_single_witness:
  "\<exists>t. ip_list_rcv ip_env_ex [skb_ex, skb_ex] = Done t \<and> dst_inputs t = [7, 7]"
proof -
  have "e_custom_rules ip_env_ex" by (simp add: ip_env_ex_def)
  then show ?thesis using ip_list_rcv_single [of ip_env_ex "[skb_ex, skb_ex]"] by (auto simp: ip_rcv_ex)
qed

theorem ip_deliver_terminates_witness:
  "\<exists>t. ip_local_deliver_finish ip_env_ex skb_ex = Some (Done (), t) \<and> length (filter is_end t) = 1 \<and>
     resubmits 4 (handler_calls t)"
proof -
  have "handlers_progress ip_env_ex"
    by (auto simp: handlers_progress_def ip_env_ex_def ipip_ex_def skb_len_def split: if_splits)
  then show ?thesis using ip_deliver_terminates [of skb_ex ip_env_ex] by auto
qed

end
