(* ===== verification/Ds_List.thy ===== *)
theory Ds_List
  imports Kernel_Base
begin

text \<open>
  The circular doubly linked list of \<^verbatim>\<open>m_modules/ds/list.h\<close> on a heap of pointers, and the program
  \<^verbatim>\<open>m_modules/ds/linked.c\<close> that uses it.

  Each field of the structures is a function on addresses of its own: \<open>lm_next\<close> and \<open>lm_prev\<close> on the addresses
  of \<open>struct list_head\<close> objects, \<open>lm_number\<close> on those of \<open>struct item\<close> objects. Only live list heads may be
  used. The contract \<open>linked_list\<close> says what the pointer operations do to the sequence of entries; the client
  lemmas are proved from it.
\<close>

section \<open>The heap\<close>

record list_mem =
  lm_next :: "addr \<Rightarrow> addr"
  lm_prev :: "addr \<Rightarrow> addr"
  lm_number :: "addr \<Rightarrow> int"
  lm_live :: "addr \<Rightarrow> bool"

definition NULL :: addr where "NULL = 0"

text \<open>\<open>list\<close> is at offset 8 of \<open>struct item\<close>; \<open>container_of\<close> goes back from it.\<close>

definition offsetof_list :: nat where "offsetof_list = 8"

definition container_of :: "addr \<Rightarrow> addr" where
  "container_of ptr = ptr - offsetof_list"

definition get_next :: "list_mem \<Rightarrow> addr \<Rightarrow> addr exec" where
  "get_next m p = (if lm_live m p then Done (lm_next m p) else Oops NullDeref)"

definition get_prev :: "list_mem \<Rightarrow> addr \<Rightarrow> addr exec" where
  "get_prev m p = (if lm_live m p then Done (lm_prev m p) else Oops NullDeref)"

definition set_next :: "addr \<Rightarrow> addr \<Rightarrow> list_mem \<Rightarrow> list_mem exec" where
  "set_next p v m = (if lm_live m p then Done (m\<lparr>lm_next := (lm_next m)(p := v)\<rparr>) else Oops NullDeref)"

definition set_prev :: "addr \<Rightarrow> addr \<Rightarrow> list_mem \<Rightarrow> list_mem exec" where
  "set_prev p v m = (if lm_live m p then Done (m\<lparr>lm_prev := (lm_prev m)(p := v)\<rparr>) else Oops NullDeref)"

section \<open>\<^verbatim>\<open>list.h\<close>\<close>

definition list_add3 :: "addr \<Rightarrow> addr \<Rightarrow> addr \<Rightarrow> list_mem \<Rightarrow> list_mem exec" where
  "list_add3 new prev nxt m =
     kbind (set_prev nxt new m) (\<lambda>m.
     kbind (set_next new nxt m) (\<lambda>m.
     kbind (set_prev new prev m) (\<lambda>m.
     set_next prev new m)))"

definition list_add :: "addr \<Rightarrow> addr \<Rightarrow> list_mem \<Rightarrow> list_mem exec" where
  "list_add new head m = kbind (get_next m head) (\<lambda>nxt. list_add3 new head nxt m)"

definition list_del2 :: "addr \<Rightarrow> addr \<Rightarrow> list_mem \<Rightarrow> list_mem exec" where
  "list_del2 prev nxt m = kbind (set_prev nxt prev m) (\<lambda>m. set_next prev nxt m)"

definition list_del :: "addr \<Rightarrow> list_mem \<Rightarrow> list_mem exec" where
  "list_del entry m =
     kbind (get_prev m entry) (\<lambda>prev.
     kbind (get_next m entry) (\<lambda>nxt.
     kbind (list_del2 prev nxt m) (\<lambda>m.
     kbind (set_next entry NULL m) (\<lambda>m.
     set_prev entry NULL m))))"

text \<open>
  \<open>for_each_item\<close> goes backwards from the head and uses each item; here it collects the numbers. It may not
  end on a list that is not circular: \<open>None\<close> stands for that.
\<close>

definition list_to_item :: "list_mem \<Rightarrow> addr \<Rightarrow> addr exec" where
  "list_to_item m head = kbind (get_prev m head) (\<lambda>q. Done (container_of q))"

definition prev_item :: "list_mem \<Rightarrow> addr \<Rightarrow> addr exec" where
  "prev_item m p = kbind (get_prev m (p + offsetof_list)) (\<lambda>q. Done (container_of q))"

partial_function (option) for_each_from :: "list_mem \<Rightarrow> addr \<Rightarrow> addr \<Rightarrow> int list exec option" where
  "for_each_from m head p =
     (if p + offsetof_list = head then Some (Done [])
      else case prev_item m p of
             Oops e \<Rightarrow> Some (Oops e)
           | Done q \<Rightarrow>
               Option.bind (for_each_from m head q) (\<lambda>r. Some (kbind r (\<lambda>ns. Done (lm_number m p # ns)))))"

definition for_each_item :: "list_mem \<Rightarrow> addr \<Rightarrow> int list exec option" where
  "for_each_item m head =
     (case list_to_item m head of Oops e \<Rightarrow> Some (Oops e) | Done p \<Rightarrow> for_each_from m head p)"

section \<open>Lists in the heap\<close>

text \<open>
  From \<open>p\<close> over the entries \<open>xs\<close> to \<open>q\<close>, every two neighbours point at each other; a list is such a chain from
  the head back to the head.
\<close>

fun chain :: "list_mem \<Rightarrow> addr \<Rightarrow> addr list \<Rightarrow> addr \<Rightarrow> bool" where
  "chain m p [] q \<longleftrightarrow> lm_next m p = q \<and> lm_prev m q = p"
| "chain m p (x # xs) q \<longleftrightarrow> lm_next m p = x \<and> lm_prev m x = p \<and> chain m x xs q"

definition is_list :: "addr \<Rightarrow> list_mem \<Rightarrow> addr list \<Rightarrow> bool" where
  "is_list head m xs \<longleftrightarrow> chain m head xs head \<and> distinct (head # xs) \<and> list_all (lm_live m) (head # xs) \<and>
     list_all (\<lambda>x. offsetof_list \<le> x) (head # xs) \<and> \<not> lm_live m NULL"

lemma chain_frame:
  "chain m p xs q \<Longrightarrow> (\<And>a. a \<in> set (p # xs) \<Longrightarrow> lm_next m' a = lm_next m a) \<Longrightarrow>
     (\<And>a. a \<in> insert q (set xs) \<Longrightarrow> lm_prev m' a = lm_prev m a) \<Longrightarrow> chain m' p xs q"
  by (induction xs arbitrary: p) auto

lemma chain_append: "chain m p (xs @ x # ys) q \<longleftrightarrow> chain m p xs x \<and> chain m x ys q"
  by (induction xs arbitrary: p) auto

lemma chain_ends: "chain m p xs q \<Longrightarrow> lm_next m p = hd (xs @ [q]) \<and> lm_prev m q = last (p # xs)"
  by (induction xs arbitrary: p) auto

lemma chain_unlink:
  assumes "chain m p (xs @ x # ys) q" and "distinct (xs @ x # ys)" and "p \<notin> set (xs @ x # ys)" "q \<notin> set (xs @ x # ys)"
  shows "chain (m\<lparr>lm_prev := (lm_prev m)(hd (ys @ [q]) := last (p # xs)),
      lm_next := (lm_next m)(last (p # xs) := hd (ys @ [q]))\<rparr>) p (xs @ ys) q"
  using assms
proof (induction xs arbitrary: p)
  case Nil
  then show ?case by (cases ys) (auto elim!: chain_frame)
next
  case (Cons a xs)
  let ?l = "last (a # xs)" and ?h = "hd (ys @ [q])"
  have "?l \<in> set (a # xs)" by (rule last_in_set) simp
  moreover have "?h = q \<or> ?h \<in> set ys" by (cases ys) auto
  ultimately have "?l \<noteq> p" "?h \<noteq> a" using Cons.prems by auto
  then show ?case using Cons.IH [of a] Cons.prems by auto
qed

lemma is_list_add:
  assumes "is_list head m xs" and "lm_live m x" and "x \<notin> set (head # xs)" and "offsetof_list \<le> x"
  shows "\<exists>m'. list_add x head m = Done m' \<and> is_list head m' (x # xs) \<and> lm_live m' = lm_live m \<and> lm_number m' = lm_number m"
proof -
  have l: "lm_live m head" "lm_live m (lm_next m head)" "lm_live m x"
    using assms by (cases xs; auto simp: is_list_def)+
  show ?thesis
  proof (cases xs)
    case Nil
    then show ?thesis using assms l by (auto simp: is_list_def list_add_def list_add3_def get_next_def set_next_def set_prev_def)
  next
    case (Cons y ys)
    then show ?thesis using assms l
      by (auto simp: is_list_def list_add_def list_add3_def get_next_def set_next_def set_prev_def elim!: chain_frame)
  qed
qed

lemma is_list_del:
  assumes "is_list head m (xs @ x # ys)"
  shows "\<exists>m'. list_del x m = Done m' \<and> is_list head m' (xs @ ys) \<and> lm_live m' = lm_live m \<and> lm_number m' = lm_number m \<and>
    lm_next m' x = NULL \<and> lm_prev m' x = NULL"
proof -
  let ?l = "last (head # xs)" and ?h = "hd (ys @ [head])"
  have c: "chain m head (xs @ x # ys) head" "distinct (xs @ x # ys)" "head \<notin> set (xs @ x # ys)"
    using assms by (auto simp: is_list_def)
  have ends: "lm_prev m x = ?l" "lm_next m x = ?h" using c(1) chain_ends by (auto simp: chain_append)
  have in_l: "?l \<in> set (head # xs)" by (rule last_in_set) simp
  have in_h: "?h \<in> set (head # ys)" by (cases ys) auto
  have live: "lm_live m x" "lm_live m ?l" "lm_live m ?h"
    using assms in_l in_h by (auto simp: is_list_def list_all_iff)
  have ne: "?l \<noteq> x" "?h \<noteq> x" using in_l in_h c by auto
  let ?m1 = "m\<lparr>lm_prev := (lm_prev m)(?h := ?l), lm_next := (lm_next m)(?l := ?h)\<rparr>"
  have "chain ?m1 head (xs @ ys) head" using chain_unlink [OF c(1,2,3,3)] .
  then have "chain (?m1\<lparr>lm_prev := (lm_prev ?m1)(x := NULL), lm_next := (lm_next ?m1)(x := NULL)\<rparr>) head (xs @ ys) head"
    by (rule chain_frame) (use c in auto)
  moreover have "list_del x m = Done (?m1\<lparr>lm_prev := (lm_prev ?m1)(x := NULL), lm_next := (lm_next ?m1)(x := NULL)\<rparr>)"
    using live ends ne by (simp add: list_del_def list_del2_def get_prev_def get_next_def set_prev_def set_next_def)
  ultimately show ?thesis using assms by (auto simp: is_list_def)
qed

text \<open>The walk visits the entries from the last to the first and ends.\<close>

lemma for_each_chain:
  assumes "chain m head xs q" and "distinct xs" "head \<notin> set xs" and "list_all (lm_live m) (q # xs)" and "list_all (\<lambda>x. offsetof_list \<le> x) (head # xs)"
  shows "for_each_from m head (container_of (lm_prev m q)) = Some (Done (map (\<lambda>x. lm_number m (container_of x)) (rev xs)))"
  using assms
proof (induction xs arbitrary: q rule: rev_induct)
  case Nil
  then show ?case by (subst for_each_from.simps) (simp add: container_of_def)
next
  case (snoc x xs)
  then have x: "chain m head xs x" "lm_prev m q = x" using chain_append [of m head xs x "[]" q] by auto
  have p: "container_of x + offsetof_list = x" "x \<noteq> head" "lm_live m x"
    using snoc.prems by (auto simp: container_of_def)
  have IH: "for_each_from m head (container_of (lm_prev m x)) = Some (Done (map (\<lambda>x. lm_number m (container_of x)) (rev xs)))"
    using snoc.prems x by (intro snoc.IH) auto
  show ?case
    using IH x(2) p by (subst for_each_from.simps) (simp add: prev_item_def get_prev_def)
qed

lemma for_each_is_list:
  "is_list head m xs \<Longrightarrow> for_each_item m head = Some (Done (map (\<lambda>x. lm_number m (container_of x)) (rev xs)))"
  using for_each_chain [of m head xs head]
  by (auto simp: is_list_def for_each_item_def list_to_item_def get_prev_def)

section \<open>The contract\<close>

fun add_all :: "(addr \<Rightarrow> 'm \<Rightarrow> 'm exec) \<Rightarrow> addr list \<Rightarrow> 'm \<Rightarrow> 'm exec" where
  "add_all add [] m = Done m"
| "add_all add (x # xs) m = kbind (add x m) (add_all add xs)"

locale linked_list =
  fixes add :: "addr \<Rightarrow> 'm \<Rightarrow> 'm exec"
    and del :: "addr \<Rightarrow> 'm \<Rightarrow> 'm exec"
    and walk :: "'m \<Rightarrow> int list exec option"
    and entries :: "'m \<Rightarrow> addr list \<Rightarrow> bool"
    and usable :: "'m \<Rightarrow> addr \<Rightarrow> bool"
    and val :: "'m \<Rightarrow> addr \<Rightarrow> int"
  assumes add_front: "entries m xs \<Longrightarrow> usable m x \<Longrightarrow> x \<notin> set xs \<Longrightarrow>
      \<exists>m'. add x m = Done m' \<and> entries m' (x # xs) \<and> usable m' = usable m \<and> val m' = val m"
    and del_entry: "entries m (xs @ x # ys) \<Longrightarrow>
      \<exists>m'. del x m = Done m' \<and> entries m' (xs @ ys) \<and> usable m' = usable m \<and> val m' = val m"
    and walk_back: "entries m xs \<Longrightarrow> walk m = Some (Done (map (val m) (rev xs)))"
    and entries_distinct: "entries m xs \<Longrightarrow> distinct xs"
begin

lemma add_all_entries:
  assumes "entries m ys" and "distinct (xs @ ys)" and "list_all (usable m) xs"
  shows "\<exists>m'. add_all add xs m = Done m' \<and> entries m' (rev xs @ ys) \<and> usable m' = usable m \<and> val m' = val m"
  using assms
proof (induction xs arbitrary: m ys)
  case (Cons x xs)
  then obtain m1 where m1: "add x m = Done m1" "entries m1 (x # ys)" "usable m1 = usable m" "val m1 = val m"
    using add_front [of m ys x] by auto
  with Cons.IH [of m1 "x # ys"] Cons.prems show ?case by auto
qed simp

lemma del_all_entries:
  assumes "entries m ys" and "distinct zs" and "set zs \<subseteq> set ys"
  shows "\<exists>m'. add_all del zs m = Done m' \<and> entries m' (filter (\<lambda>y. y \<notin> set zs) ys) \<and> val m' = val m"
  using assms
proof (induction zs arbitrary: m ys)
  case (Cons z zs)
  then obtain as bs where ys: "ys = as @ z # bs" using split_list [of z ys] by auto
  then obtain m1 where m1: "del z m = Done m1" "entries m1 (as @ bs)" "val m1 = val m"
    using del_entry [of m as z bs] Cons.prems by auto
  have d: "z \<notin> set as" "z \<notin> set bs" using entries_distinct [OF Cons.prems(1)] ys by auto
  have "set zs \<subseteq> set (as @ bs)" using Cons.prems ys by auto
  from Cons.IH [OF m1(2) _ this] Cons.prems(2) obtain m' where
    m': "add_all del zs m1 = Done m'" "entries m' (filter (\<lambda>y. y \<notin> set zs) (as @ bs))" "val m' = val m1" by auto
  have "filter (\<lambda>y. y \<notin> set (z # zs)) ys = filter (\<lambda>y. y \<notin> set zs) (as @ bs)"
  proof -
    have "filter (\<lambda>y. y \<notin> set (z # zs)) cs = filter (\<lambda>y. y \<notin> set zs) cs" if "z \<notin> set cs" for cs
      using that by (intro filter_cong) auto
    from this [OF d(1)] this [OF d(2)] show ?thesis using ys by simp
  qed
  then show ?case using m1 m' by simp
qed simp

text \<open>Entries that are added are visited in the order they were added, and deleting some leaves the others.\<close>

lemma add_del_walk:
  assumes "entries m []" and "distinct xs" and "list_all (usable m) xs" and "distinct zs" "set zs \<subseteq> set xs"
  shows "\<exists>m1 m2. add_all add xs m = Done m1 \<and> walk m1 = Some (Done (map (val m) xs)) \<and>
    add_all del zs m1 = Done m2 \<and> walk m2 = Some (Done (map (val m) (filter (\<lambda>x. x \<notin> set zs) xs)))"
proof -
  obtain m1 where m1: "add_all add xs m = Done m1" "entries m1 (rev xs)" "val m1 = val m"
    using add_all_entries [OF assms(1), of xs] assms(2,3) by auto
  moreover obtain m2 where "add_all del zs m1 = Done m2" "entries m2 (filter (\<lambda>y. y \<notin> set zs) (rev xs))" "val m2 = val m1"
    using del_all_entries [OF m1(2) assms(4)] assms(5) by auto
  ultimately show ?thesis using walk_back [of m1 "rev xs"] walk_back [of m2] by (simp add: rev_filter)
qed

end

interpretation item_list: linked_list "\<lambda>x. list_add x head" list_del "\<lambda>m. for_each_item m head" "is_list head"
  "\<lambda>m x. lm_live m x \<and> x \<noteq> head \<and> offsetof_list \<le> x" "\<lambda>m x. lm_number m (container_of x)"
  for head
proof unfold_locales
  fix m xs x assume "is_list head m xs" "lm_live m x \<and> x \<noteq> head \<and> offsetof_list \<le> x" "x \<notin> set xs"
  then show "\<exists>m'. list_add x head m = Done m' \<and> is_list head m' (x # xs) \<and>
      (\<lambda>x. lm_live m' x \<and> x \<noteq> head \<and> offsetof_list \<le> x) = (\<lambda>x. lm_live m x \<and> x \<noteq> head \<and> offsetof_list \<le> x) \<and>
      (\<lambda>x. lm_number m' (container_of x)) = (\<lambda>x. lm_number m (container_of x))"
    using is_list_add [of head m xs x] by auto
next
  fix m xs x ys assume "is_list head m (xs @ x # ys)"
  from is_list_del [OF this] show "\<exists>m'. list_del x m = Done m' \<and> is_list head m' (xs @ ys) \<and>
      (\<lambda>x. lm_live m' x \<and> x \<noteq> head \<and> offsetof_list \<le> x) = (\<lambda>x. lm_live m x \<and> x \<noteq> head \<and> offsetof_list \<le> x) \<and>
      (\<lambda>x. lm_number m' (container_of x)) = (\<lambda>x. lm_number m (container_of x))" by auto
next
  fix m xs assume "is_list head m xs"
  then show "for_each_item m head = Some (Done (map (\<lambda>x. lm_number m (container_of x)) (rev xs)))" "distinct xs"
    by (simp_all add: for_each_is_list) (simp add: is_list_def)
qed

section \<open>Properties\<close>

text \<open>
  C33. The pointer operations of \<^verbatim>\<open>list.h\<close> keep a list a list. Starting from an empty one, adding any distinct items
  and walking over them terminates and visits exactly these, in the order they were added; deleting any of
  them, in any order, leaves a list of exactly the others, in the same order. Deleting an entry a second time
  dereferences \<open>NULL\<close>.
\<close>

theorem list_add_del_walk:
  assumes "is_list head m []" and "distinct xs" and "list_all (\<lambda>x. lm_live m x \<and> x \<noteq> head \<and> offsetof_list \<le> x) xs"
    and "distinct zs" "set zs \<subseteq> set xs"
  shows "(\<exists>m1 m2. add_all (\<lambda>x. list_add x head) xs m = Done m1 \<and>
      for_each_item m1 head = Some (Done (map (\<lambda>x. lm_number m (container_of x)) xs)) \<and>
      add_all list_del zs m1 = Done m2 \<and>
      for_each_item m2 head = Some (Done (map (\<lambda>x. lm_number m (container_of x)) (filter (\<lambda>x. x \<notin> set zs) xs)))) \<and>
    (\<forall>m1 ys x m2. is_list head m1 ys \<and> x \<in> set ys \<and> list_del x m1 = Done m2 \<longrightarrow> list_del x m2 = Oops NullDeref)"
proof (intro conjI allI impI)
  show "\<exists>m1 m2. add_all (\<lambda>x. list_add x head) xs m = Done m1 \<and>
      for_each_item m1 head = Some (Done (map (\<lambda>x. lm_number m (container_of x)) xs)) \<and>
      add_all list_del zs m1 = Done m2 \<and>
      for_each_item m2 head = Some (Done (map (\<lambda>x. lm_number m (container_of x)) (filter (\<lambda>x. x \<notin> set zs) xs)))"
    by (rule item_list.add_del_walk [OF assms])
next
  fix m1 ys x m2 assume a: "is_list head m1 ys \<and> x \<in> set ys \<and> list_del x m1 = Done m2"
  then obtain as bs where "ys = as @ x # bs" using split_list [of x ys] by auto
  with a is_list_del [of head m1 as x bs] have "lm_next m2 x = NULL" "lm_prev m2 x = NULL" "\<not> lm_live m2 NULL"
    by (auto simp: is_list_def)
  then show "list_del x m2 = Oops NullDeref"
    by (auto simp: list_del_def list_del2_def get_prev_def get_next_def set_prev_def)
qed

section \<open>\<^verbatim>\<open>linked.c\<close>\<close>

text \<open>\<open>malloc\<close> and \<open>memset\<close> of an item; the results of \<open>malloc\<close> are not checked.\<close>

definition zero_item :: "addr option \<Rightarrow> list_mem \<Rightarrow> list_mem exec" where
  "zero_item a m =
     (case a of
        None \<Rightarrow> Oops NullDeref
      | Some p \<Rightarrow> Done (m\<lparr>lm_number := (lm_number m)(p := 0), lm_next := (lm_next m)(p + offsetof_list := NULL),
                        lm_prev := (lm_prev m)(p + offsetof_list := NULL)\<rparr>))"

definition alloc_item :: "addr option \<Rightarrow> list_mem \<Rightarrow> list_mem" where
  "alloc_item a m = (case a of None \<Rightarrow> m | Some p \<Rightarrow> m\<lparr>lm_live := (lm_live m)(p + offsetof_list := True)\<rparr>)"

definition free_item :: "addr \<Rightarrow> list_mem \<Rightarrow> list_mem" where
  "free_item p m = m\<lparr>lm_live := (lm_live m)(p + offsetof_list := False)\<rparr>"

definition set_number :: "addr \<Rightarrow> int \<Rightarrow> list_mem \<Rightarrow> list_mem" where
  "set_number p n m = m\<lparr>lm_number := (lm_number m)(p := n)\<rparr>"

text \<open>The memory at the start: only the head, which points to itself.\<close>

definition empty_mem :: "addr \<Rightarrow> list_mem" where
  "empty_mem head = \<lparr>lm_next = (\<lambda>_. head), lm_prev = (\<lambda>_. head), lm_number = (\<lambda>_. 0), lm_live = (\<lambda>p. p = head)\<rparr>"

definition linked_main :: "addr \<Rightarrow> addr option \<Rightarrow> addr option \<Rightarrow> addr option \<Rightarrow> (int list exec option \<times> list_mem) exec" where
  "linked_main head a1 a2 a3 =
     (let m = alloc_item a3 (alloc_item a2 (alloc_item a1 (empty_mem head)));
          item1 = the a1; item2 = the a2; item3 = the a3
      in kbind (zero_item a1 m) (\<lambda>m.
         kbind (zero_item a2 m) (\<lambda>m.
         kbind (zero_item a3 m) (\<lambda>m.
         let m = set_number item3 300 (set_number item2 200 (set_number item1 100 m))
         in kbind (list_add (item1 + offsetof_list) head m) (\<lambda>m.
            kbind (list_add (item2 + offsetof_list) head m) (\<lambda>m.
            kbind (list_add (item3 + offsetof_list) head m) (\<lambda>m.
            let out = for_each_item m head
            in kbind (list_del (item1 + offsetof_list) m) (\<lambda>m.
               kbind (list_del (item2 + offsetof_list) m) (\<lambda>m.
               kbind (list_del (item3 + offsetof_list) m) (\<lambda>m.
                 Done (out, free_item item3 (free_item item2 (free_item item1 m)))))))))))))"

text \<open>
  The program prints the numbers in the order in which the items were added and leaves an empty list and no
  memory; without memory for an item it dereferences \<open>NULL\<close>.
\<close>

theorem linked_main_prints:
  assumes "offsetof_list \<le> head" and "distinct [head, a1 + offsetof_list, a2 + offsetof_list, a3 + offsetof_list]"
  shows "\<exists>m. linked_main head (Some a1) (Some a2) (Some a3) = Done (Some (Done [100, 200, 300]), m) \<and>
    is_list head m [] \<and> (\<forall>p. lm_live m p \<longleftrightarrow> p = head)"
proof -
  let ?x1 = "a1 + offsetof_list" and ?x2 = "a2 + offsetof_list" and ?x3 = "a3 + offsetof_list"
  define m0 where "m0 = (case zero_item (Some a1) (alloc_item (Some a3) (alloc_item (Some a2) (alloc_item (Some a1) (empty_mem head)))) of
    Done m \<Rightarrow> (case zero_item (Some a2) m of Done m \<Rightarrow> (case zero_item (Some a3) m of Done m \<Rightarrow>
      set_number a3 300 (set_number a2 200 (set_number a1 100 m)))))"
  have nz: "0 < offsetof_list" "NULL < offsetof_list" by (simp_all add: offsetof_list_def NULL_def)
  have l0: "is_list head m0 []" "lm_live m0 = (\<lambda>p. p \<in> {head, ?x1, ?x2, ?x3})"
    "lm_number m0 a1 = 100" "lm_number m0 a2 = 200" "lm_number m0 a3 = 300"
    using assms nz by (auto simp: m0_def zero_item_def alloc_item_def set_number_def empty_mem_def is_list_def fun_eq_iff)
  obtain m1 where m1: "list_add ?x1 head m0 = Done m1" "is_list head m1 [?x1]" "lm_live m1 = lm_live m0" "lm_number m1 = lm_number m0"
    using is_list_add [OF l0(1), of ?x1] l0(2) assms(2) by auto
  obtain m2 where m2: "list_add ?x2 head m1 = Done m2" "is_list head m2 [?x2, ?x1]" "lm_live m2 = lm_live m0" "lm_number m2 = lm_number m0"
    using is_list_add [OF m1(2), of ?x2] l0(2) m1 assms(2) by auto
  obtain m3 where m3: "list_add ?x3 head m2 = Done m3" "is_list head m3 [?x3, ?x2, ?x1]" "lm_live m3 = lm_live m0" "lm_number m3 = lm_number m0"
    using is_list_add [OF m2(2), of ?x3] l0(2) m2 assms(2) by auto
  have out: "for_each_item m3 head = Some (Done [100, 200, 300])"
    using for_each_is_list [OF m3(2)] m3(4) l0 by (simp add: container_of_def)
  obtain m4 where m4: "list_del ?x1 m3 = Done m4" "is_list head m4 [?x3, ?x2]" "lm_live m4 = lm_live m0"
    using is_list_del [of head m3 "[?x3, ?x2]" ?x1 "[]"] m3 by auto
  obtain m5 where m5: "list_del ?x2 m4 = Done m5" "is_list head m5 [?x3]" "lm_live m5 = lm_live m0"
    using is_list_del [of head m4 "[?x3]" ?x2 "[]"] m4 by auto
  obtain m6 where m6: "list_del ?x3 m5 = Done m6" "is_list head m6 []" "lm_live m6 = lm_live m0"
    using is_list_del [of head m5 "[]" ?x3 "[]"] m5 by auto
  define mf where "mf = free_item a3 (free_item a2 (free_item a1 m6))"
  have "linked_main head (Some a1) (Some a2) (Some a3) = Done (Some (Done [100, 200, 300]), mf)"
    using m1(1) m2(1) m3(1) m4(1) m5(1) m6(1) out
    by (simp add: linked_main_def mf_def m0_def zero_item_def Let_def)
  moreover have "is_list head mf []" "\<forall>p. lm_live mf p \<longleftrightarrow> p = head"
    using m6(2,3) l0(2) assms(2) by (auto simp: mf_def free_item_def is_list_def)
  ultimately show ?thesis by blast
qed

section \<open>Witnesses\<close>

definition mem_ex :: list_mem where
  "mem_ex = \<lparr>lm_next = (\<lambda>_. 8), lm_prev = (\<lambda>_. 8), lm_number = (\<lambda>p. int p), lm_live = (\<lambda>p. p \<in> {8, 28, 48})\<rparr>"

theorem list_add_del_walk_witness:
  "\<exists>m1 m2. add_all (\<lambda>x. list_add x 8) [28, 48] mem_ex = Done m1 \<and> for_each_item m1 8 = Some (Done [20, 40]) \<and>
    add_all list_del [28] m1 = Done m2 \<and> for_each_item m2 8 = Some (Done [40])"
proof -
  have "is_list 8 mem_ex []" "list_all (\<lambda>x. lm_live mem_ex x \<and> x \<noteq> 8 \<and> offsetof_list \<le> x) [28, 48]"
    by (simp_all add: is_list_def mem_ex_def offsetof_list_def NULL_def)
  from list_add_del_walk [OF this(1) _ this(2), of "[28]", THEN conjunct1] show ?thesis
    by (simp del: add_all.simps add: container_of_def offsetof_list_def mem_ex_def)
qed

end
