(* ===== verification/Sfs.thy ===== *)
theory Sfs
  imports Kernel_Base
begin

text \<open>
  The simple file system of counters (\<^verbatim>\<open>m_modules/fs/sfs.c\<close>): four files, each of which shows a counter as
  decimal text and counts its readers; writing a number sets the counter. The conversions between numbers and
  text are those of the C library functions the code calls.
\<close>

section \<open>Numbers as text\<close>

fun digits :: "nat \<Rightarrow> byte list" where
  "digits n = (if n < 10 then [of_nat (48 + n)] else digits (n div 10) @ [of_nat (48 + n mod 10)])"

declare digits.simps [simp del]

text \<open>\<open>"%d"\<close>\<close>

definition print_int :: "int \<Rightarrow> byte list" where
  "print_int v = (if v < 0 then 45 # digits (nat (- v)) else digits (nat v))"

text \<open>\<open>simple_strtol\<close> with base 10: an optional minus sign and digits up to the first other character.\<close>

definition is_digit :: "byte \<Rightarrow> bool" where
  "is_digit b \<longleftrightarrow> 48 \<le> unat b \<and> unat b \<le> 57"

fun strtoul :: "nat \<Rightarrow> byte list \<Rightarrow> nat" where
  "strtoul acc [] = acc"
| "strtoul acc (b # bs) = (if is_digit b then strtoul (acc * 10 + (unat b - 48)) bs else acc)"

definition simple_strtol :: "byte list \<Rightarrow> int" where
  "simple_strtol s =
     (case s of [] \<Rightarrow> 0 | b # bs \<Rightarrow> if b = 45 then s64 (- int (strtoul 0 bs)) else s64 (int (strtoul 0 s)))"

lemma strtoul_append_digits:
  "list_all is_digit ds \<Longrightarrow> strtoul acc (ds @ rest) = strtoul (strtoul acc ds) rest"
  by (induction acc ds rule: strtoul.induct) auto

lemma unat_digit: "n < 10 \<Longrightarrow> unat (of_nat (48 + n) :: byte) = 48 + n"
  by (simp add: unsigned_of_nat take_bit_nat_eq_self del: of_nat_add)

lemma is_digit_of_nat: "n < 10 \<Longrightarrow> is_digit (of_nat (48 + n))"
  unfolding is_digit_def by (simp only: unat_digit) simp

lemma strtoul_one: "n < 10 \<Longrightarrow> strtoul acc [of_nat (48 + n)] = acc * 10 + n"
  by (simp only: strtoul.simps is_digit_of_nat unat_digit) simp

lemma digits_are_digits: "list_all is_digit (digits n)"
proof (induction n rule: digits.induct)
  case (1 n)
  then show ?case
    using is_digit_of_nat [of n] is_digit_of_nat [of "n mod 10"]
    by (subst digits.simps) (auto simp del: of_nat_add)
qed

lemma strtoul_digits: "strtoul 0 (digits n) = n"
proof (induction n rule: digits.induct)
  case (1 n)
  show ?case
  proof (cases "n < 10")
    case True
    then show ?thesis using strtoul_one [of n 0] by (subst digits.simps) (simp del: of_nat_add strtoul.simps)
  next
    case False
    then have "strtoul 0 (digits n) = strtoul (n div 10) [of_nat (48 + n mod 10)]"
      using 1 digits_are_digits [of "n div 10"] by (subst digits.simps) (simp add: strtoul_append_digits del: strtoul.simps of_nat_add)
    then show ?thesis using strtoul_one [of "n mod 10" "n div 10"] by simp
  qed
qed

lemma length_digits: "n < 10 ^ k \<Longrightarrow> 0 < k \<Longrightarrow> length (digits n) \<le> k"
proof (induction n arbitrary: k rule: digits.induct)
  case (1 n)
  show ?case
  proof (cases "n < 10")
    case True
    then show ?thesis using 1(3) by (subst digits.simps) simp
  next
    case False
    then obtain j where j: "k = Suc j" "0 < j" using 1(2,3) by (metis One_nat_def gr0_implies_Suc not_gr0 power_one_right)
    then have "n div 10 < 10 ^ j" using 1(2) by (simp add: less_mult_imp_div_less mult.commute)
    then show ?thesis using 1(1) [OF False _ j(2)] False j by (subst digits.simps) simp
  qed
qed

lemma digits_hd: "digits n \<noteq> [] \<and> hd (digits n) \<noteq> 45"
proof -
  have "digits n \<noteq> []" by (subst digits.simps) simp
  moreover from this have "is_digit (hd (digits n))" using digits_are_digits [of n] by (cases "digits n") auto
  ultimately show ?thesis by (auto simp: is_digit_def)
qed

definition s32_ok :: "int \<Rightarrow> bool" where
  "s32_ok v \<longleftrightarrow> - (2 ^ 31) \<le> v \<and> v < 2 ^ 31"

lemma length_print_int: "s32_ok v \<Longrightarrow> length (print_int v) \<le> 11"
  using length_digits [of "nat (- v)" 10] length_digits [of "nat v" 10] by (auto simp: print_int_def s32_ok_def nat_less_iff)

text \<open>What is printed is read back, whatever comes behind the number.\<close>

lemma strtol_print_int:
  assumes "s32_ok v" and "rest = [] \<or> \<not> is_digit (hd rest)"
  shows "simple_strtol (print_int v @ rest) = v"
proof -
  have r: "strtoul n rest = n" for n using assms(2) by (cases rest) auto
  have d: "strtoul 0 (digits n @ rest) = n" for n
    using r by (simp add: strtoul_append_digits digits_are_digits strtoul_digits)
  show ?thesis
  proof (cases "v < 0")
    case True
    then show ?thesis using assms(1) by (simp add: print_int_def simple_strtol_def d s32_ok_def s64_id)
  next
    case False
    obtain b bs where "digits (nat v) = b # bs" "b \<noteq> 45" using digits_hd [of "nat v"] by (cases "digits (nat v)") auto
    then show ?thesis
      using False assms(1) d [of "nat v"] by (simp add: print_int_def simple_strtol_def s32_ok_def s64_id)
  qed
qed

section \<open>The operations\<close>

definition NCOUNTERS :: int where "NCOUNTERS = 4"
definition TMPSIZ :: nat where "TMPSIZ = 32"

text \<open>A file's private data is the address of its counter, here the index into \<open>counters\<close>.\<close>

definition sfs_open :: "int \<Rightarrow> int ret" where
  "sfs_open ino = (if ino > NCOUNTERS then Inl ENODEV else Inr (ino - 1))"

text \<open>
  \<open>snprintf(tmp, TMPSIZ, ...)\<close> returns the length of the whole text and stores as much as fits before the
  terminating \<open>NUL\<close>.
\<close>

definition snprintf_line :: "int \<Rightarrow> int \<times> byte list" where
  "snprintf_line v =
     (let text = print_int v @ [10]; stored = take (TMPSIZ - 1) text
      in (int (length text), stored @ replicate (TMPSIZ - length stored) 0))"

definition sfs_read_file :: "nat \<Rightarrow> int \<Rightarrow> int list \<Rightarrow> int \<Rightarrow> int \<Rightarrow> (int list \<times> int \<times> int ret \<times> byte list) exec" where
  "sfs_read_file left idx counters count f_pos =
     kbind (arr_get counters idx) (\<lambda>v.
     kbind (if f_pos > 0 then Done counters else arr_set counters idx (s32 (v + 1))) (\<lambda>counters.
       let v = (if f_pos > 0 then s32 (v - 1) else v);
           (len, tmp) = snprintf_line v
       in if f_pos > len then Done (counters, f_pos, Inr 0, [])
          else let count = (if count > u64 (len - f_pos) then len - f_pos else count)
          in kbind (mem_read tmp f_pos count) (\<lambda>bs.
               case copy_to_user left bs of
                 (uncopied, out) \<Rightarrow>
                   if uncopied \<noteq> 0 then Done (counters, f_pos, Inl EFAULT, out)
                   else Done (counters, s64 (f_pos + count), Inr count, out))))"

definition sfs_write_file :: "nat \<Rightarrow> int \<Rightarrow> int list \<Rightarrow> byte list \<Rightarrow> int \<Rightarrow> (int list \<times> int ret) exec" where
  "sfs_write_file left idx counters buf f_pos =
     (if f_pos \<noteq> 0 then Done (counters, Inl EINVAL)
      else if length buf \<ge> TMPSIZ then Done (counters, Inl EINVAL)
      else case copy_from_user left buf of
             (uncopied, bs) \<Rightarrow>
               if uncopied \<noteq> 0 then Done (counters, Inl EFAULT)
               else let tmp = bs @ replicate (TMPSIZ - length bs) 0
               in kbind (arr_set counters idx (s32 (simple_strtol tmp))) (\<lambda>counters.
                    Done (counters, Inr (int (length buf)))))"

section \<open>The file system\<close>

text \<open>
  The methods of a file, and an entry of the table of files; \<open>td_ops\<close> and \<open>td_name\<close> are pointers.
\<close>

record sfs_file_operations =
  fo_open :: "int \<Rightarrow> int ret"
  fo_read :: "nat \<Rightarrow> int \<Rightarrow> int list \<Rightarrow> int \<Rightarrow> int \<Rightarrow> (int list \<times> int \<times> int ret \<times> byte list) exec"
  fo_write :: "nat \<Rightarrow> int \<Rightarrow> int list \<Rightarrow> byte list \<Rightarrow> int \<Rightarrow> (int list \<times> int ret) exec"

definition sfs_file_ops :: sfs_file_operations where
  "sfs_file_ops = \<lparr>fo_open = sfs_open, fo_read = sfs_read_file, fo_write = sfs_write_file\<rparr>"

record tree_descr =
  td_name :: "string option"
  td_ops :: "sfs_file_operations option"
  td_mode :: int

text \<open>The permission bits \<open>S_IWUSR | S_IRUGO\<close>, \<open>0644\<close> in octal.\<close>

definition sfs_mode :: int where
  "sfs_mode = or 0x80 0x124"

definition root_files :: "tree_descr list" where
  "root_files =
     [\<lparr>td_name = None, td_ops = None, td_mode = 0\<rparr>,
      \<lparr>td_name = Some ''counter0'', td_ops = Some sfs_file_ops, td_mode = sfs_mode\<rparr>,
      \<lparr>td_name = Some ''counter1'', td_ops = Some sfs_file_ops, td_mode = sfs_mode\<rparr>,
      \<lparr>td_name = Some ''counter2'', td_ops = Some sfs_file_ops, td_mode = sfs_mode\<rparr>,
      \<lparr>td_name = Some ''counter3'', td_ops = Some sfs_file_ops, td_mode = sfs_mode\<rparr>,
      \<lparr>td_name = Some [], td_ops = None, td_mode = 0\<rparr>]"

definition SFS_MAGIC :: int where "SFS_MAGIC = 0x20200524"

text \<open>
  The kernel's side, parameters of the model: a mounted file system has an inode number and an entry of the
  table for each name. \<open>simple_fill_super\<close> makes the files of a table, \<open>get_tree_single\<close> makes the one instance
  of a file system with the function it is given.
\<close>

type_synonym super_block = "string \<rightharpoonup> int \<times> tree_descr"

record libfs =
  simple_fill_super :: "int \<Rightarrow> tree_descr list \<Rightarrow> super_block ret"
  get_tree_single :: "super_block ret \<Rightarrow> super_block ret"

definition sfs_fill_super :: "libfs \<Rightarrow> super_block ret" where
  "sfs_fill_super k = simple_fill_super k SFS_MAGIC root_files"

definition sfs_get_tree :: "libfs \<Rightarrow> super_block ret" where
  "sfs_get_tree k = get_tree_single k (sfs_fill_super k)"

record fs_context_operations =
  get_tree :: "libfs \<Rightarrow> super_block ret"

definition sfs_context_ops :: fs_context_operations where
  "sfs_context_ops = \<lparr>get_tree = sfs_get_tree\<rparr>"

text \<open>The argument and the result are the field \<open>ops\<close> of the context.\<close>

definition sfs_init_fs_context :: "fs_context_operations option \<Rightarrow> fs_context_operations option \<times> unit ret" where
  "sfs_init_fs_context fc = (Some sfs_context_ops, Inr ())"

record file_system_type =
  fs_name :: string
  init_fs_context :: "fs_context_operations option \<Rightarrow> fs_context_operations option \<times> unit ret"

definition sfs_type :: file_system_type where
  "sfs_type = \<lparr>fs_name = ''sfs'', init_fs_context = sfs_init_fs_context\<rparr>"

text \<open>Loading and unloading; \<open>register_filesystem\<close> and \<open>unregister_filesystem\<close> are parameters.\<close>

definition sfs_init :: "(file_system_type \<Rightarrow> unit ret) \<Rightarrow> int list \<Rightarrow> int list \<times> unit ret" where
  "sfs_init register_filesystem counters =
     (fold (\<lambda>i cs. cs[i := 0]) [0..<nat NCOUNTERS] counters, register_filesystem sfs_type)"

definition sfs_exit :: "(file_system_type \<Rightarrow> unit) \<Rightarrow> unit" where
  "sfs_exit unregister_filesystem = unregister_filesystem sfs_type"

text \<open>A program that reads a file from the start in pieces of the given sizes.\<close>

fun read_pieces :: "int \<Rightarrow> int list \<Rightarrow> int \<Rightarrow> int list \<Rightarrow> (int list \<times> byte list) exec" where
  "read_pieces idx counters f [] = Done (counters, [])"
| "read_pieces idx counters f (c # cs) =
     kbind (sfs_read_file 0 idx counters c f) (\<lambda>(counters, f, r, bs).
     kbind (read_pieces idx counters f cs) (\<lambda>(counters, rest). Done (counters, bs @ rest)))"

section \<open>Properties\<close>

lemma sfs_init_zero: "length counters = 4 \<Longrightarrow> sfs_init reg counters = ([0, 0, 0, 0], reg sfs_type)"
  by (simp add: sfs_init_def NCOUNTERS_def upt_rec length_Suc_conv numeral_eq_Suc) auto

text \<open>The text a file shows.\<close>

definition line :: "int \<Rightarrow> byte list" where
  "line v = print_int v @ [10]"

lemma length_line: "s32_ok v \<Longrightarrow> length (line v) \<le> 12"
  using length_print_int [of v] by (simp add: line_def)

lemma line_not_Nil: "line v \<noteq> []"
  by (simp add: line_def)

lemma snprintf_line_fits:
  "s32_ok v \<Longrightarrow> snprintf_line v = (int (length (line v)), line v @ replicate (32 - length (line v)) 0)"
  using length_line [of v] by (simp add: snprintf_line_def TMPSIZ_def line_def)

lemma read_line:
  assumes "s32_ok v" and "0 \<le> f" "f \<le> int (length (line v))" and "0 \<le> c" "c < 2 ^ 63"
  defines "n \<equiv> min c (int (length (line v)) - f)"
  shows "mem_read (snd (snprintf_line v)) f n = Done (take (nat c) (drop (nat f) (line v)))"
    and "(if c > u64 (int (length (line v)) - f) then int (length (line v)) - f else c) = n"
    and "s64 (f + n) = f + n"
proof -
  have l: "length (line v) \<le> 12" using length_line [OF assms(1)] .
  have n: "0 \<le> n" "f + n \<le> int (length (line v))" using assms by (auto simp: n_def)
  have nn: "nat f + nat n \<le> length (line v)" "nat n = min (nat c) (length (line v) - nat f)"
    using n assms(2-5) by (auto simp: n_def)
  from nn have "take (nat n) (drop (nat f) (line v @ z)) = take (nat c) (drop (nat f) (line v))" for z
    by (simp add: min_def)
  then show "mem_read (snd (snprintf_line v)) f n = Done (take (nat c) (drop (nat f) (line v)))"
    using assms(2) n l unfolding snprintf_line_fits [OF assms(1)] by (simp add: mem_read_def)
  have "u64 (int (length (line v)) - f) = int (length (line v)) - f" using assms(2,3) l by (simp add: u64_id)
  then show "(if c > u64 (int (length (line v)) - f) then int (length (line v)) - f else c) = n" by (simp add: n_def)
  show "s64 (f + n) = f + n" using n assms(2) l by (simp add: s64_nonneg)
qed

text \<open>A read at the start counts and shows the counter; a read further on shows the same text again.\<close>

lemma sfs_read_spec:
  assumes "0 \<le> idx" "idx < int (length counters)" and "0 \<le> f" and "0 \<le> c" "c < 2 ^ 63"
  defines "w \<equiv> counters ! nat idx"
  defines "v \<equiv> if f > 0 then s32 (w - 1) else w"
  assumes "s32_ok v" and "f \<le> int (length (line v))"
  shows "sfs_read_file 0 idx counters c f =
    Done (if f > 0 then counters else counters[nat idx := s32 (w + 1)],
      f + min c (int (length (line v)) - f), Inr (min c (int (length (line v)) - f)),
      take (nat c) (drop (nat f) (line v)))"
proof -
  note r = read_line [OF assms(8) assms(3) assms(9) assms(4,5)]
  obtain tmp where t: "snprintf_line v = (int (length (line v)), tmp)" using snprintf_line_fits [OF assms(8)] by simp
  have "arr_get counters idx = Done w" "f \<le> 0 \<Longrightarrow> arr_set counters idx (s32 (w + 1)) = Done (counters[nat idx := s32 (w + 1)])"
    using assms(1,2) by (simp_all add: arr_get_def arr_set_def w_def)
  then show ?thesis
    using t assms(9) r by (simp add: sfs_read_file_def v_def [symmetric] Let_def del: min_def)
qed

lemma read_pieces_rest:
  assumes "0 \<le> idx" "idx < int (length counters)" and "counters ! nat idx = s32 (v + 1)" and "s32_ok v"
    and "0 < f" "f \<le> int (length (line v))" and "list_all (\<lambda>c. 0 < c \<and> c < 2 ^ 63) cs"
  shows "read_pieces idx counters f cs = Done (counters, take (nat (sum_list cs)) (drop (nat f) (line v)))"
  using assms(5-7)
proof (induction cs arbitrary: f)
  case (Cons c cs)
  have prev_v: "s32 (s32 (v + 1) - 1) = v"
  proof -
    have "s32 (s32 (v + 1) - s32 1) = s32 (v + 1 - 1)" unfolding s32_def by (rule signed_take_bit_diff)
    moreover have "s32 1 = 1" by (simp add: s32_id)
    ultimately have "s32 (s32 (v + 1) - 1) = s32 v" by simp
    then show ?thesis using assms(4) by (simp add: s32_ok_def s32_id)
  qed
  define n where "n = min c (int (length (line v)) - f)"
  have n: "0 \<le> n" "f + n \<le> int (length (line v))" using Cons.prems by (auto simp: n_def)
  have r: "sfs_read_file 0 idx counters c f = Done (counters, f + n, Inr n, take (nat c) (drop (nat f) (line v)))"
    using sfs_read_spec [OF assms(1,2), of f c] Cons.prems assms(3,4) prev_v by (simp add: n_def)
  have "0 \<le> sum_list cs" using Cons.prems(3) by (induction cs) auto
  have IH: "read_pieces idx counters (f + n) cs = Done (counters, take (nat (sum_list cs)) (drop (nat (f + n)) (line v)))"
    using Cons.IH [of "f + n"] Cons.prems n by simp
  have "take (nat c) (drop (nat f) (line v)) @ take (nat (sum_list cs)) (drop (nat (f + n)) (line v)) = take (nat (c + sum_list cs)) (drop (nat f) (line v))"
  proof (cases "c \<le> int (length (line v)) - f")
    case True
    then have "nat (f + n) = nat f + nat c" using Cons.prems by (simp add: n_def nat_add_distrib)
    moreover have "nat (c + sum_list cs) = nat c + nat (sum_list cs)" using \<open>0 \<le> sum_list cs\<close> Cons.prems by (simp add: nat_add_distrib)
    ultimately show ?thesis by (simp add: take_add add.commute)
  next
    case False
    then have "nat (f + n) = length (line v)" by (simp add: n_def)
    moreover have "length (line v) - nat f \<le> nat c" "length (line v) - nat f \<le> nat (c + sum_list cs)" using False \<open>0 \<le> sum_list cs\<close> Cons.prems by auto
    ultimately show ?thesis by simp
  qed
  then show ?case using r IH by simp
qed simp

lemma read_pieces_text:
  assumes "0 \<le> idx" "idx < int (length counters)" and "s32_ok (counters ! nat idx)"
    and "cs \<noteq> []" and "list_all (\<lambda>c. 0 < c \<and> c < 2 ^ 63) cs"
  defines "v \<equiv> counters ! nat idx"
  shows "read_pieces idx counters 0 cs = Done (counters[nat idx := s32 (v + 1)], take (nat (sum_list cs)) (line v))"
proof -
  obtain c cs' where cs: "cs = c # cs'" using assms(4) by (cases cs) auto
  have c: "0 < c" "c < 2 ^ 63" "list_all (\<lambda>c. 0 < c \<and> c < 2 ^ 63) cs'" using assms(5) cs by auto
  let ?n = "min c (int (length (line v)))" and ?cs = "counters[nat idx := s32 (v + 1)]"
  have r: "sfs_read_file 0 idx counters c 0 = Done (?cs, ?n, Inr ?n, take (nat c) (line v))"
    using sfs_read_spec [OF assms(1,2), of 0 c] c assms(3) by (simp add: v_def)
  have "read_pieces idx ?cs ?n cs' = Done (?cs, take (nat (sum_list cs')) (drop (nat ?n) (line v)))"
    using read_pieces_rest [OF assms(1), of ?cs v ?n cs'] assms(1-3) c line_not_Nil [of v] by (simp add: v_def)
  moreover have "0 \<le> sum_list cs'" using c(3) by (induction cs') auto
  moreover have "take (nat c) (line v) @ take (nat (sum_list cs')) (drop (nat ?n) (line v)) = take (nat (c + sum_list cs')) (line v)"
  proof (cases "c \<le> int (length (line v))")
    case True
    then show ?thesis using \<open>0 \<le> sum_list cs'\<close> c(1) by (simp add: nat_add_distrib take_add)
  next
    case False
    then have "length (line v) \<le> nat c" "length (line v) \<le> nat (c + sum_list cs')" using \<open>0 \<le> sum_list cs'\<close> by auto
    then show ?thesis using False by simp
  qed
  ultimately show ?thesis using r cs by (simp add: v_def)
qed

lemma counter_roundtrip:
  assumes "0 \<le> idx" "idx < int (length counters)" and "s32_ok v" and "cs \<noteq> []" "list_all (\<lambda>c. 0 < c \<and> c < 2 ^ 63) cs"
    and "nl = [] \<or> nl = [10]"
  shows "sfs_write_file 0 idx counters (print_int v @ nl) 0 =
      Done (counters[nat idx := v], Inr (int (length (print_int v @ nl)))) \<and>
    read_pieces idx (counters[nat idx := v]) 0 cs =
      Done (counters[nat idx := s32 (v + 1)], take (nat (sum_list cs)) (line v)) \<and>
    (\<forall>left buf f. f \<noteq> 0 \<or> TMPSIZ \<le> length buf \<or> 0 < left \<and> buf \<noteq> [] \<longrightarrow>
      (\<exists>e. sfs_write_file left idx counters buf f = Done (counters, Inl e)))"
proof (intro conjI allI impI)
  have l: "length (print_int v @ nl) < TMPSIZ" using length_print_int [OF assms(3)] assms(6) by (auto simp: TMPSIZ_def)
  have "simple_strtol (print_int v @ (nl @ replicate (TMPSIZ - length (print_int v @ nl)) 0)) = v"
    using l assms(6) by (intro strtol_print_int [OF assms(3)]) (auto simp: is_digit_def hd_append)
  then show "sfs_write_file 0 idx counters (print_int v @ nl) 0 =
      Done (counters[nat idx := v], Inr (int (length (print_int v @ nl))))"
    using l assms(1-3) by (simp add: sfs_write_file_def arr_set_def s32_id s32_ok_def)
  show "read_pieces idx (counters[nat idx := v]) 0 cs =
      Done (counters[nat idx := s32 (v + 1)], take (nat (sum_list cs)) (line v))"
    using read_pieces_text [OF assms(1), of "counters[nat idx := v]" cs] assms(1-5) by simp
next
  fix left :: nat and buf :: "byte list" and f :: int assume "f \<noteq> 0 \<or> TMPSIZ \<le> length buf \<or> 0 < left \<and> buf \<noteq> []"
  then show "\<exists>e. sfs_write_file left idx counters buf f = Done (counters, Inl e)"
    by (auto simp: sfs_write_file_def copy_from_user_def)
qed

text \<open>
  What the two functions of the kernel do, as documented: the entries of a table up to the first empty name
  become files, with the index in the table as the inode number, and entries without a name are left out; and an instance
  of a file system is what the function made that \<open>get_tree_single\<close> was given.
\<close>

definition libfs_ok :: "libfs \<Rightarrow> bool" where
  "libfs_ok k \<longleftrightarrow>
     (\<forall>magic files t i n. simple_fill_super k magic files = Inr t \<and> distinct (map td_name files) \<and> i < length files \<and>
        (\<forall>j\<le>i. td_name (files ! j) \<noteq> Some []) \<and> td_name (files ! i) = Some n \<longrightarrow> t n = Some (int i, files ! i)) \<and>
     (\<forall>r t. get_tree_single k r = Inr t \<longrightarrow> r = Inr t)"

lemma libfs_okD:
  "libfs_ok k \<Longrightarrow> simple_fill_super k magic files = Inr t \<Longrightarrow> distinct (map td_name files) \<Longrightarrow> i < length files \<Longrightarrow>
    \<forall>j\<le>i. td_name (files ! j) \<noteq> Some [] \<Longrightarrow> td_name (files ! i) = Some n \<Longrightarrow> t n = Some (int i, files ! i)"
  unfolding libfs_ok_def by blast

definition counter_name :: "nat \<Rightarrow> string" where
  "counter_name i = [''counter0'', ''counter1'', ''counter2'', ''counter3''] ! i"

text \<open>The table gives the file of counter \<open>i\<close> the inode number \<open>i + 1\<close>, from which \<open>sfs_open\<close> finds the counter again.\<close>

lemma sfs_mounted:
  assumes "libfs_ok k" and "init_fs_context sfs_type fc = (Some ops, Inr ())" and "get_tree ops k = Inr tree" and "i < 4"
  shows "tree (counter_name i) = Some (int i + 1, \<lparr>td_name = Some (counter_name i), td_ops = Some sfs_file_ops, td_mode = 0x1A4\<rparr>) \<and>
    sfs_open (int i + 1) = Inr (int i)"
proof -
  have "get_tree_single k (sfs_fill_super k) = Inr tree"
    using assms(2,3) by (auto simp: sfs_type_def sfs_init_fs_context_def sfs_context_ops_def sfs_get_tree_def)
  then have fill: "simple_fill_super k SFS_MAGIC root_files = Inr tree"
    using assms(1) by (simp add: libfs_ok_def sfs_fill_super_def)
  have i: "i = 0 \<or> i = 1 \<or> i = 2 \<or> i = 3" using assms(4) by linarith
  have "distinct (map td_name root_files)" "length root_files = 6" by (simp_all add: root_files_def)
  moreover have "\<forall>j<5. td_name (root_files ! j) \<noteq> Some []"
    by (simp add: root_files_def numeral_eq_Suc All_less_Suc)
  then have "\<forall>j\<le>Suc i. td_name (root_files ! j) \<noteq> Some []" using assms(4) by simp
  moreover have e: "root_files ! Suc i = \<lparr>td_name = Some (counter_name i), td_ops = Some sfs_file_ops, td_mode = 0x1A4\<rparr>"
    using i by (auto simp: root_files_def counter_name_def sfs_mode_def)
  moreover have "td_name (root_files ! Suc i) = Some (counter_name i)" using e by simp
  ultimately have "tree (counter_name i) = Some (int (Suc i), root_files ! Suc i)"
    using assms(1,4) fill by (intro libfs_okD) simp_all
  then show ?thesis using e assms(4) by (simp add: sfs_open_def NCOUNTERS_def)
qed

text \<open>
  C34. The counter files of a mounted file system. The name \<open>counter\<close>\<^emph>\<open>i\<close> leads through the tables of the module to the
  counter \<^emph>\<open>i\<close>, for everyone to read and the owner to write. Writing the text of a number (with or without a newline)
  to the file sets its counter to that number; reading it then, in pieces of any sizes, yields this text and exactly
  once counts a reader. The other counters stay. A write that is too long, not at the start or from bad
  memory changes nothing.
\<close>

theorem sfs_counter_roundtrip:
  assumes "libfs_ok k" and "init_fs_context sfs_type fc = (Some ops, Inr ())" and "get_tree ops k = Inr tree"
    and "i < 4" and "length counters = 4" and "s32_ok v" and "cs \<noteq> []" "list_all (\<lambda>c. 0 < c \<and> c < 2 ^ 63) cs"
    and "nl = [] \<or> nl = [10]"
  shows "\<exists>ino file fops idx. tree (counter_name i) = Some (ino, file) \<and> td_mode file = 0x1A4 \<and> td_ops file = Some fops \<and>
    fo_open fops ino = Inr idx \<and>
    fo_write fops 0 idx counters (print_int v @ nl) 0 =
      Done (counters[i := v], Inr (int (length (print_int v @ nl)))) \<and>
    read_pieces idx (counters[i := v]) 0 cs =
      Done (counters[i := s32 (v + 1)], take (nat (sum_list cs)) (line v)) \<and>
    (\<forall>left buf f. f \<noteq> 0 \<or> TMPSIZ \<le> length buf \<or> 0 < left \<and> buf \<noteq> [] \<longrightarrow>
      (\<exists>e. fo_write fops left idx counters buf f = Done (counters, Inl e)))"
  using sfs_mounted [OF assms(1-4)] counter_roundtrip [of "int i" counters v cs nl] assms(4-9)
  by (intro exI [of _ "int i + 1"] exI [of _ "\<lparr>td_name = Some (counter_name i), td_ops = Some sfs_file_ops, td_mode = 0x1A4\<rparr>"]
      exI [of _ sfs_file_ops] exI [of _ "int i"]) (simp add: sfs_file_ops_def)

text \<open>A kernel of this kind, which goes through the table from its start.\<close>

definition listed_files :: "tree_descr list \<Rightarrow> super_block" where
  "listed_files files n =
     map_option (\<lambda>i. (int i, files ! i))
       (List.find (\<lambda>i. td_name (files ! i) = Some n) [0..<length (takeWhile (\<lambda>f. td_name f \<noteq> Some []) files)])"

lemma listed_files_index:
  assumes "distinct (map td_name files)" and "i < length files" and "\<forall>j\<le>i. td_name (files ! j) \<noteq> Some []"
    and "td_name (files ! i) = Some n"
  shows "listed_files files n = Some (int i, files ! i)"
proof -
  let ?l = "length (takeWhile (\<lambda>f. td_name f \<noteq> Some []) files)"
  have "i < ?l"
  proof (rule ccontr)
    assume "\<not> i < ?l"
    then have "?l \<le> i" by simp
    then show False using nth_length_takeWhile [of "\<lambda>f. td_name f \<noteq> Some []" files] assms(2,3) by auto
  qed
  moreover have "\<not> j < i" if "td_name (files ! j) = Some n" for j
    using that assms(1,2,4) nth_eq_iff_index_eq [OF assms(1), of j i] by (cases "j < i") auto
  moreover have "?l \<le> length files" by (rule length_takeWhile_le)
  ultimately have "List.find (\<lambda>j. td_name (files ! j) = Some n) [0..<?l] = Some i"
    using assms(4) unfolding find_Some_iff by (intro exI [of _ i]) (auto dest: less_trans)
  then show ?thesis by (simp add: listed_files_def)
qed

theorem sfs_counter_roundtrip_witness:
  "\<exists>ino file idx. listed_files root_files ''counter2'' = Some (ino, file) \<and> td_ops file = Some sfs_file_ops \<and> sfs_open ino = Inr idx \<and>
     read_pieces idx ([0, 0, 0, 0][2 := - 42]) 0 [1, 5] = Done ([0, 0, - 41, 0], [45, 52, 50, 10])"
proof -
  let ?k = "\<lparr>simple_fill_super = \<lambda>magic files. Inr (listed_files files), get_tree_single = \<lambda>r. r\<rparr>"
  have k: "libfs_ok ?k" using listed_files_index by (simp add: libfs_ok_def)
  have i: "init_fs_context sfs_type None = (Some sfs_context_ops, Inr ())" "get_tree sfs_context_ops ?k = Inr (listed_files root_files)"
    by (simp_all add: sfs_type_def sfs_init_fs_context_def sfs_context_ops_def sfs_get_tree_def sfs_fill_super_def)
  have "digits 42 = [52, 50]" by (simp add: digits.simps)
  moreover have "counter_name 2 = ''counter2''" by (simp add: counter_name_def)
  moreover have "listed_files root_files ''counter2'' = Some (3, root_files ! 3)" "td_ops (root_files ! 3) = Some sfs_file_ops"
    by (simp_all add: listed_files_def root_files_def)
  ultimately show ?thesis
    using sfs_counter_roundtrip [OF k i, of 2 "[0, 0, 0, 0]" "- 42" "[1, 5]" "[]"]
    by (auto simp: s32_ok_def s32_id print_int_def line_def numeral_2_eq_2 sfs_file_ops_def simp del: read_pieces.simps)
qed

end
