(* ===== verification/Mmap_Dev.thy ===== *)
theory Mmap_Dev
  imports Block_Store
begin

text \<open>
  The device of one page that can be read, written and mapped (\<^verbatim>\<open>m_modules/mm/mmap_dev.c\<close>), and the accesses
  of the program that goes with it (\<^verbatim>\<open>m_modules/mm/mmap_app.c\<close>). \<open>data\<close> has the type \<open>int *\<close>, so the
  expression \<open>data + offset\<close> lies \<open>4 * offset\<close> bytes into the page, and every access moves the file position by
  one: the position counts integers.
\<close>

definition DATA_SIZE :: int where "DATA_SIZE = 4096"

record mmap_state =
  mm_data :: "byte list owned"
  mm_counter :: int

definition mmap_vma_open :: "mmap_state \<Rightarrow> mmap_state" where
  "mmap_vma_open s = s\<lparr>mm_counter := s32 (mm_counter s + 1)\<rparr>"

definition mmap_vma_close :: "mmap_state \<Rightarrow> mmap_state" where
  "mmap_vma_close s = s\<lparr>mm_counter := s32 (mm_counter s - 1)\<rparr>"

text \<open>
  A page fault: \<open>Inl\<close> is \<open>VM_FAULT_SIGBUS\<close>, \<open>Inr\<close> the number of the page within the allocation that the
  pointer \<open>data + offset\<close> points into.
\<close>

definition mmap_vm_fault :: "mmap_state \<Rightarrow> (int \<times> int) option \<Rightarrow> (unit + int) exec" where
  "mmap_vm_fault s vmf =
     (case vmf of
        None \<Rightarrow> Done (Inl ())
      | Some (address, vm_start) \<Rightarrow>
          let offset = u64 (address - vm_start)
          in if offset \<ge> DATA_SIZE then Done (Inl ())
             else case mm_data s of
                    None \<Rightarrow> Oops NullDeref
                  | Some (a, m) \<Rightarrow>
                      if 4 * offset \<ge> int (length m) then Oops OutOfBounds else Done (Inr (4 * offset div PAGE_SIZE)))"

definition mmap_remap :: "mmap_state \<Rightarrow> mmap_state \<times> unit ret" where
  "mmap_remap s = (mmap_vma_open s, Inr ())"

definition mmap_read :: "nat \<Rightarrow> mmap_state \<Rightarrow> int \<Rightarrow> int \<Rightarrow> (int \<times> int ret \<times> byte list) exec" where
  "mmap_read left s count off =
     (if off > DATA_SIZE then Done (off, Inl EIO, [])
      else case mm_data s of
             None \<Rightarrow> Oops NullDeref
           | Some (a, m) \<Rightarrow>
               kbind (mem_read m (4 * off) count) (\<lambda>bs.
                 Done (s64 (off + 1), Inr count, snd (copy_to_user left bs))))"

definition mmap_write :: "nat \<Rightarrow> mmap_state \<Rightarrow> byte list \<Rightarrow> int \<Rightarrow> (mmap_state \<times> int \<times> int ret) exec" where
  "mmap_write left s buf off =
     (case mm_data s of
        None \<Rightarrow> Oops NullDeref
      | Some (a, m) \<Rightarrow>
          kbind (mem_write m (4 * off) (snd (copy_from_user left buf))) (\<lambda>m.
            Done (s\<lparr>mm_data := Some (a, m)\<rparr>, s64 (off + 1), Inr (int (length buf)))))"

definition mmap_lseek :: "int \<Rightarrow> int \<Rightarrow> int \<Rightarrow> int \<times> int ret" where
  "mmap_lseek f_pos off org =
     (if org = 0 then (off, Inr off)
      else if org = 1 then (s64 (f_pos + off), Inr (s64 (f_pos + off)))
      else (f_pos, Inl EINVAL))"

section \<open>A file of integers\<close>

text \<open>The loops of the program: it writes integers of four bytes one after the other and reads them back.\<close>

fun write_ints :: "mmap_state \<Rightarrow> byte list list \<Rightarrow> int \<Rightarrow> (mmap_state \<times> int) exec" where
  "write_ints s [] off = Done (s, off)"
| "write_ints s (x # xs) off = kbind (mmap_write 0 s x off) (\<lambda>(s, off, r). write_ints s xs off)"

fun read_ints :: "mmap_state \<Rightarrow> nat \<Rightarrow> int \<Rightarrow> (byte list list \<times> int) exec" where
  "read_ints s 0 off = Done ([], off)"
| "read_ints s (Suc k) off =
     kbind (mmap_read 0 s 4 off) (\<lambda>(off, r, bs). kbind (read_ints s k off) (\<lambda>(rest, off). Done (bs # rest, off)))"

definition mmap_ready :: "mmap_state \<Rightarrow> bool" where
  "mmap_ready s \<longleftrightarrow> (\<exists>a m. mm_data s = Some (a, m) \<and> length m = 4096)"

definition mm_bytes :: "mmap_state \<Rightarrow> byte list" where
  "mm_bytes s = (case mm_data s of None \<Rightarrow> [] | Some (a, m) \<Rightarrow> m)"

lemma mmap_write_in_range:
  assumes "mmap_ready s" and "4 * p + length x \<le> 4096"
  shows "\<exists>s'. mmap_write 0 s x (int p) = Done (s', int (p + 1), Inr (int (length x))) \<and> mmap_ready s' \<and>
    mm_bytes s' = overlay (mm_bytes s) (4 * p) x"
proof -
  obtain a m where m: "mm_data s = Some (a, m)" "length m = 4096" using assms(1) by (auto simp: mmap_ready_def)
  have "mem_write m (4 * int p) x = Done (overlay m (4 * p) x)" using mem_write_overlay [of "4 * p" x m] m(2) assms(2) by simp
  moreover have "s64 (int p + 1) = int (p + 1)" using assms(2) by (simp add: s64_nonneg)
  ultimately show ?thesis using m assms(2) by (simp add: mmap_write_def mmap_ready_def mm_bytes_def)
qed

lemma write_ints_bytes:
  assumes "mmap_ready s" and "list_all (\<lambda>x. length x = 4) xs" and "p + length xs \<le> 1024"
  shows "\<exists>s'. write_ints s xs (int p) = Done (s', int (p + length xs)) \<and> mmap_ready s' \<and>
    mm_bytes s' = overlay (mm_bytes s) (4 * p) (concat xs)"
  using assms
proof (induction xs arbitrary: s p)
  case (Cons x xs)
  then obtain s1 where s1: "mmap_write 0 s x (int p) = Done (s1, int (p + 1), Inr (int (length x)))" "mmap_ready s1"
    "mm_bytes s1 = overlay (mm_bytes s) (4 * p) x" using mmap_write_in_range [of s p x] by auto
  obtain s2 where s2: "write_ints s1 xs (int (p + 1)) = Done (s2, int (p + 1 + length xs))" "mmap_ready s2"
    "mm_bytes s2 = overlay (mm_bytes s1) (4 * (p + 1)) (concat xs)" using Cons.IH [OF s1(2), of "p + 1"] Cons.prems by auto
  have c: "length (concat xs) = 4 * length xs" using Cons.prems(2) by (induction xs) auto
  have "length (mm_bytes s) = 4096" using Cons.prems(1) by (auto simp: mmap_ready_def mm_bytes_def)
  then have "mm_bytes s2 = overlay (mm_bytes s) (4 * p) (x @ concat xs)"
    using overlay_append [of "4 * p" x "concat xs" "mm_bytes s"] s2(3) s1(3) c Cons.prems(2,3) by (simp add: add.commute)
  then show ?case using s1(1) s2 by simp
qed (auto simp: mmap_ready_def mm_bytes_def)

lemma read_ints_bytes:
  assumes "mmap_ready s" and "take (length (concat xs)) (drop (4 * p) (mm_bytes s)) = concat xs"
    and "list_all (\<lambda>x. length x = 4) xs" and "p + length xs \<le> 1024"
  shows "read_ints s (length xs) (int p) = Done (xs, int (p + length xs))"
  using assms
proof (induction xs arbitrary: p)
  case (Cons x xs)
  obtain a m where m: "mm_data s = Some (a, m)" "length m = 4096" "mm_bytes s = m"
    using Cons.prems(1) by (auto simp: mmap_ready_def mm_bytes_def)
  have x: "length x = 4" using Cons.prems(3) by simp
  have h: "take (4 + length (concat xs)) (drop (4 * p) m) = x @ concat xs" using Cons.prems(2) m(3) x by simp
  have h1: "take 4 (drop (4 * p) m) = x"
  proof -
    have "take 4 (take (4 + length (concat xs)) (drop (4 * p) m)) = x" unfolding h using x by simp
    then show ?thesis by simp
  qed
  have "take (length (concat xs)) (drop (4 * (p + 1)) m) = drop 4 (take (4 + length (concat xs)) (drop (4 * p) m))"
    by (simp add: drop_take add.commute)
  then have h2: "take (length (concat xs)) (drop (4 * (p + 1)) m) = concat xs" unfolding h using x by simp
  have np: "nat (4 * int p) = 4 * p" by linarith
  have r: "mmap_read 0 s 4 (int p) = Done (int (p + 1), Inr 4, x)"
    using m h1 np Cons.prems(4) by (simp add: mmap_read_def DATA_SIZE_def mem_read_def s64_nonneg)
  have "read_ints s (length xs) (int (p + 1)) = Done (xs, int (p + 1 + length xs))"
    using Cons.IH [of "p + 1"] h2 m(3) Cons.prems by simp
  then show ?case using r by simp
qed simp

text \<open>
  C35. Used with integers of four bytes, the device is an array of 1024 integers: any sequence of integers that is
  written from a position on and fits is read back from there, leaves every other byte of the page as it was,
  and is what a mapping shows, since a fault at the start of the mapping finds the device's page. The check of the
  offset in \<open>mmap_read\<close> is against the number of bytes: from position 1024 to 4096 it lets reads
  pass that run out of bounds, and writes are not checked at all.
\<close>

theorem mmap_int_array:
  assumes "mmap_ready s" and "list_all (\<lambda>x. length x = 4) xs" and "p + length xs \<le> 1024"
  shows "\<exists>s'. write_ints s xs (int p) = Done (s', int (p + length xs)) \<and>
    read_ints s' (length xs) (int p) = Done (xs, int (p + length xs)) \<and>
    mm_bytes s' = overlay (mm_bytes s) (4 * p) (concat xs) \<and> mmap_vm_fault s' (Some (v, v)) = Done (Inr 0) \<and>
    (\<forall>off. 1024 \<le> off \<and> off \<le> DATA_SIZE \<longrightarrow> mmap_read 0 s 4 off = Oops OutOfBounds) \<and>
    (\<forall>off. 1024 \<le> off \<longrightarrow> mmap_write 0 s (replicate 4 0) off = Oops OutOfBounds)"
proof -
  obtain s' where s': "write_ints s xs (int p) = Done (s', int (p + length xs))" "mmap_ready s'"
    "mm_bytes s' = overlay (mm_bytes s) (4 * p) (concat xs)" using write_ints_bytes [OF assms] by blast
  have c: "length (concat xs) = 4 * length xs" using assms(2) by (induction xs) auto
  obtain a m where m: "mm_data s = Some (a, m)" "length m = 4096" "mm_bytes s = m"
    using assms(1) by (auto simp: mmap_ready_def mm_bytes_def)
  have "take (length (concat xs)) (drop (4 * p) (mm_bytes s')) = concat xs"
    unfolding s'(3) using m assms(3) c by (intro read_overlay) simp
  from read_ints_bytes [OF s'(2) this assms(2,3)] have "read_ints s' (length xs) (int p) = Done (xs, int (p + length xs))" .
  moreover have "mmap_vm_fault s' (Some (v, v)) = Done (Inr 0)"
    using s'(2) by (auto simp: mmap_vm_fault_def mmap_ready_def DATA_SIZE_def u64_def)
  ultimately show ?thesis
    using s' m by (auto simp: mmap_read_def mmap_write_def mem_read_def mem_write_def intro!: exI [of _ s'])
qed

definition mmap_ex :: mmap_state where
  "mmap_ex = \<lparr>mm_data = Some (9, replicate 4096 0), mm_counter = 0\<rparr>"

theorem mmap_int_array_witness:
  "\<exists>s'. write_ints mmap_ex [[1, 2, 3, 4], [5, 6, 7, 8]] 10 = Done (s', 12) \<and>
    read_ints s' 2 10 = Done ([[1, 2, 3, 4], [5, 6, 7, 8]], 12)"
proof -
  have "mmap_ready mmap_ex" by (simp add: mmap_ready_def mmap_ex_def)
  then show ?thesis using mmap_int_array [of mmap_ex "[[1, 2, 3, 4], [5, 6, 7, 8]]" 10]
    by (simp del: write_ints.simps read_ints.simps add: numeral_2_eq_2) blast
qed

end
