(* ===== verification/Char_Dev.thy ===== *)
theory Char_Dev
  imports Scull_Access Mmap_Dev "HOL-Library.Multiset"
begin

text \<open>
  The character devices of \<^verbatim>\<open>m_modules/char_dev\<close>: \<^verbatim>\<open>chardev.c\<close> (a buffer per open file), \<^verbatim>\<open>ioctl.c\<close> (a structure
  that is set and read by ioctl), \<^verbatim>\<open>md5_dev.c\<close> (a device that hashes what was written to it), \<^verbatim>\<open>cdev.c\<close> (a skeleton),
  and how these modules and \<^verbatim>\<open>m_modules/mm/mmap_dev.c\<close> are loaded and unloaded. What loading gets from the
  kernel and unloading gives back is accounted for with multisets of resources; the contract
  \<open>clean_module\<close> says that the accounts balance.
\<close>

section \<open>\<^verbatim>\<open>chardev.c\<close>\<close>

definition BUF_LEN :: int where "BUF_LEN = 1024"

text \<open>\<open>file->private_data\<close> of an open file; \<open>kmalloc\<close> does not clear the buffer.\<close>

type_synonym chardev_file = "byte list owned"

definition chardev_open :: "kmalloc \<Rightarrow> chardev_file ret" where
  "chardev_open km = (case km 0 BUF_LEN of None \<Rightarrow> Inl ENOMEM | Some p \<Rightarrow> Inr (Some p))"

definition chardev_release :: "chardev_file \<Rightarrow> chardev_file \<times> addr list" where
  "chardev_release file = (None, owned_addr file)"

text \<open>Both messages print the buffer as a string.\<close>

definition chardev_write :: "nat \<Rightarrow> chardev_file \<Rightarrow> byte list \<Rightarrow> (chardev_file \<times> int ret) exec" where
  "chardev_write left file buf =
     (case file of
        None \<Rightarrow> Oops NullDeref
      | Some (a, m) \<Rightarrow>
          kbind (c_str m) (\<lambda>_.
          case copy_from_user left buf of
            (uncopied, bs) \<Rightarrow>
              kbind (mem_write m 0 bs) (\<lambda>m.
                if uncopied \<noteq> 0 then Done (Some (a, m), Inl EFAULT)
                else kbind (c_str m) (\<lambda>_. Done (Some (a, m), Inr (int (length buf)))))))"

definition chardev_read :: "nat \<Rightarrow> chardev_file \<Rightarrow> int \<Rightarrow> (int ret \<times> byte list) exec" where
  "chardev_read left file cnt =
     (let cnt = (if cnt > BUF_LEN then BUF_LEN else cnt)
      in case file of
           None \<Rightarrow> Oops NullDeref
         | Some (a, m) \<Rightarrow>
             kbind (mem_read m 0 cnt) (\<lambda>bs.
             case copy_to_user left bs of
               (uncopied, out) \<Rightarrow> if uncopied \<noteq> 0 then Done (Inl EFAULT, out) else Done (Inr cnt, out)))"

section \<open>\<^verbatim>\<open>ioctl.c\<close>\<close>

text \<open>\<open>struct ioctl_info\<close> is 136 bytes: \<open>size\<close>, a little-endian number of eight bytes, and \<open>buf\<close>.\<close>

definition SIZEOF_INFO :: nat where "SIZEOF_INFO = 136"

definition info_size :: "byte list \<Rightarrow> byte list" where "info_size info = take 8 info"
definition info_buf :: "byte list \<Rightarrow> byte list" where "info_buf info = drop 8 info"

primrec le_val :: "byte list \<Rightarrow> nat" where
  "le_val [] = 0"
| "le_val (b # bs) = unat b + 256 * le_val bs"

primrec le_bytes :: "nat \<Rightarrow> nat \<Rightarrow> byte list" where
  "le_bytes 0 v = []"
| "le_bytes (Suc n) v = of_nat (v mod 256) # le_bytes n (v div 256)"

definition IOCTL_READ :: ioc where "IOCTL_READ = IOR (CHR ''G'') 0 136"
definition IOCTL_WRITE :: ioc where "IOCTL_WRITE = IOW (CHR ''G'') 1 136"
definition IOCTL_STATUS :: ioc where "IOCTL_STATUS = IO (CHR ''G'') 2"
definition IOCTL_RW :: ioc where "IOCTL_RW = IOWR (CHR ''G'') 3 136"

definition hello :: "byte list" where
  "hello = [0x20, 0x68, 0x65, 0x6C, 0x6C, 0x6F]"

text \<open>
  \<open>sprintf(info.buf, "%s %s", info.buf, "hello")\<close>: the string is copied onto itself byte by byte, then the
  word and the \<open>NUL\<close> are put behind it.
\<close>

definition append_hello :: "byte list \<Rightarrow> byte list exec" where
  "append_hello buf = kbind (c_str buf) (\<lambda>str. mem_write buf 0 (str @ hello @ [0]))"

text \<open>
  \<open>user\<close> are the \<open>sizeof(info)\<close> bytes at the address \<open>arg\<close>, \<open>left1\<close> and \<open>left2\<close> the bytes of a copy from and to it
  that fail. The result has the structure, the returned value and what reached the user.
\<close>

definition chardev_ioctl ::
  "nat \<Rightarrow> nat \<Rightarrow> byte list \<Rightarrow> ioc \<Rightarrow> byte list \<Rightarrow> (byte list \<times> unit ret \<times> byte list) exec"
where
  "chardev_ioctl left1 left2 info cmd user =
     (if cmd = IOCTL_READ then
        (case copy_to_user left2 info of
           (uncopied, out) \<Rightarrow> Done (info, if uncopied \<noteq> 0 then Inl EFAULT else Inr (), out))
      else if cmd = IOCTL_WRITE then
        (case copy_from_user left1 user of
           (uncopied, info) \<Rightarrow> Done (info, if uncopied \<noteq> 0 then Inl EFAULT else Inr (), []))
      else if cmd = IOCTL_STATUS then kbind (c_str (info_buf info)) (\<lambda>_. Done (info, Inr (), []))
      else if cmd = IOCTL_RW then
        (case copy_from_user left1 user of
           (uncopied, info) \<Rightarrow>
             if uncopied \<noteq> 0 then Done (info, Inl EFAULT, [])
             else kbind (append_hello (info_buf info)) (\<lambda>buf.
               let info = le_bytes 8 ((le_val (info_size info) + 6) mod 2 ^ 64) @ buf
               in case copy_to_user left2 info of
                    (uncopied, out) \<Rightarrow> Done (info, if uncopied \<noteq> 0 then Inl EFAULT else Inr (), out)))
      else Done (info, Inl EFAULT, []))"

section \<open>\<^verbatim>\<open>md5_dev.c\<close>\<close>

definition MAX_LEN :: nat where "MAX_LEN = 1024"
definition MD5_LEN :: nat where "MD5_LEN = 16"

record md5_state =
  md5_usage :: int
  plaintext :: "byte list"

definition virtual_device_open :: "md5_state \<Rightarrow> md5_state \<times> unit ret" where
  "virtual_device_open s =
     (case atomic_dec_and_test (md5_usage s) of
        (v, zero) \<Rightarrow>
          if \<not> zero then (s\<lparr>md5_usage := atomic_inc v\<rparr>, Inl EBUSY) else (s\<lparr>md5_usage := v\<rparr>, Inr ()))"

definition virtual_device_release :: "md5_state \<Rightarrow> md5_state \<times> unit ret" where
  "virtual_device_release s = (s\<lparr>md5_usage := atomic_inc (md5_usage s)\<rparr>, Inr ())"

definition virtual_device_write :: "nat \<Rightarrow> md5_state \<Rightarrow> byte list \<Rightarrow> (md5_state \<times> int ret) exec" where
  "virtual_device_write left s buf =
     kbind (mem_write (plaintext s) 0 (snd (copy_from_user left buf))) (\<lambda>m.
       Done (s\<lparr>plaintext := m\<rparr>, Inr (int (length buf))))"

text \<open>
  The crypto interface: the transformation (\<open>Inl\<close> is an error pointer), the memory of the descriptor, whether the
  three steps succeed, and the hash function. The calls that give something back are recorded.
\<close>

record crypto_env =
  cr_shash :: "addr ret"
  cr_sdesc :: "addr option"
  cr_init :: bool
  cr_update :: bool
  cr_final :: bool
  cr_digest :: "byte list \<Rightarrow> byte list"

datatype md5_call = FreeDesc addr | FreeShash "addr ret"

text \<open>\<open>hexdump\<close> reads each byte it prints.\<close>

definition hexdump :: "byte list \<Rightarrow> nat \<Rightarrow> byte list exec" where
  "hexdump buf len = mem_read buf 0 (int len)"

definition hash_md5 :: "crypto_env \<Rightarrow> byte list owned \<Rightarrow> byte list \<Rightarrow> (byte list owned \<times> bool \<times> md5_call list) exec" where
  "hash_md5 env result data =
     (case cr_shash env of
        Inl e \<Rightarrow> Done (result, False, [FreeShash (Inl e)])
      | Inr shash \<Rightarrow>
          (case cr_sdesc env of
             None \<Rightarrow> Done (result, False, [FreeShash (Inr shash)])
           | Some sdesc \<Rightarrow>
               let cleanup = [FreeDesc sdesc, FreeShash (Inr shash)]
               in if \<not> cr_init env then Done (result, False, cleanup)
                  else if \<not> cr_update env then Done (result, False, cleanup)
                  else if \<not> cr_final env then Done (result, False, cleanup)
                  else case result of
                         None \<Rightarrow> Oops NullDeref
                       | Some (a, m) \<Rightarrow>
                           kbind (mem_write m 0 (cr_digest env data)) (\<lambda>m.
                           kbind (hexdump m (length (cr_digest env data))) (\<lambda>_.
                             Done (Some (a, m), True, cleanup)))))"

text \<open>
  The digest is copied whatever \<open>count\<close> says. \<open>mem\<close> is the outcome of \<open>kzalloc\<close>; copying from \<open>NULL\<close> reads through it.
\<close>

definition virtual_device_read ::
  "crypto_env \<Rightarrow> addr option \<Rightarrow> nat \<Rightarrow> md5_state \<Rightarrow> int \<Rightarrow> (int ret \<times> byte list \<times> md5_call list) exec" where
  "virtual_device_read env mem left s cnt =
     (let p = map_option (\<lambda>a. (a, replicate MD5_LEN 0)) mem
      in kbind (c_str (plaintext s)) (\<lambda>text.
         kbind (hash_md5 env p text) (\<lambda>(p, ok, t).
           case p of
             None \<Rightarrow> Oops NullDeref
           | Some (a, m) \<Rightarrow>
               kbind (mem_read m 0 (int MD5_LEN)) (\<lambda>bs. Done (Inr cnt, snd (copy_to_user left bs), t)))))"

section \<open>Loading and unloading\<close>

text \<open>
  What the kernel answers when a module is loaded: the memory of \<open>cdev_alloc\<close>, the major number of
  \<open>alloc_chrdev_region\<close> or an error, whether \<open>cdev_add\<close> succeeds, the class (\<open>Inl\<close> is an error pointer), the
  memory for a buffer.
\<close>

record cd_env =
  ce_cdev :: "addr option"
  ce_region :: "int ret"
  ce_add :: bool
  ce_class :: "addr ret"
  ce_mem :: "addr option"

text \<open>
  The calls that succeed in getting something, and those that give back; a \<open>struct cdev\<close> of the module itself is \<open>None\<close>.
  No module looks at the result of \<open>device_create\<close>; \<open>device_destroy\<close> does nothing for a device that does not exist, so
  the two are counted as a pair whether or not the device came into being. With an error pointer as class both do nothing.
\<close>

datatype cd_call =
    CdevAlloc addr
  | AllocRegion int int int | UnregisterRegion int int int
  | CdevAdd "addr option" int int | CdevDel "addr option"
  | ClassCreate addr | ClassDestroy "addr ret"
  | DeviceCreate "addr ret" int int | DeviceDestroy "addr ret" int int
  | AllocMem addr | FreeMem addr

datatype cd_res = Cdev addr | Region int int int | Live "addr option" | Class addr | Device addr int int | Mem addr

primrec cd_acquires :: "cd_call \<Rightarrow> cd_res list" where
  "cd_acquires (CdevAlloc a) = [Cdev a]"
| "cd_acquires (AllocRegion m b n) = [Region m b n]"
| "cd_acquires (UnregisterRegion m b n) = []"
| "cd_acquires (CdevAdd c m b) = [Live c]"
| "cd_acquires (CdevDel c) = []"
| "cd_acquires (ClassCreate a) = [Class a]"
| "cd_acquires (ClassDestroy c) = []"
| "cd_acquires (DeviceCreate c m b) = (case c of Inl e \<Rightarrow> [] | Inr a \<Rightarrow> [Device a m b])"
| "cd_acquires (DeviceDestroy c m b) = []"
| "cd_acquires (AllocMem a) = [Mem a]"
| "cd_acquires (FreeMem a) = []"

text \<open>\<open>cdev_del\<close> also gives up the structure that \<open>cdev_alloc\<close> returned.\<close>

primrec cd_releases :: "cd_call \<Rightarrow> cd_res list" where
  "cd_releases (CdevAlloc a) = []"
| "cd_releases (AllocRegion m b n) = []"
| "cd_releases (UnregisterRegion m b n) = [Region m b n]"
| "cd_releases (CdevAdd c m b) = []"
| "cd_releases (CdevDel c) = Live c # (case c of None \<Rightarrow> [] | Some a \<Rightarrow> [Cdev a])"
| "cd_releases (ClassCreate a) = []"
| "cd_releases (ClassDestroy c) = (case c of Inl e \<Rightarrow> [] | Inr a \<Rightarrow> [Class a])"
| "cd_releases (DeviceCreate c m b) = []"
| "cd_releases (DeviceDestroy c m b) = (case c of Inl e \<Rightarrow> [] | Inr a \<Rightarrow> [Device a m b])"
| "cd_releases (AllocMem a) = []"
| "cd_releases (FreeMem a) = [Mem a]"

text \<open>What stays of a multiset of resources after some calls, if every resource given back is there.\<close>

fun account :: "cd_call list \<Rightarrow> cd_res multiset \<Rightarrow> cd_res multiset option" where
  "account [] R = Some R"
| "account (c # cs) R =
     (if mset (cd_releases c) \<subseteq># R then account cs (R - mset (cd_releases c) + mset (cd_acquires c)) else None)"

text \<open>The variables of a loaded module.\<close>

record cd_module =
  cm_major :: int
  cm_class :: "addr ret"
  cm_cdev :: "addr option"
  cm_mem :: "addr option"

text \<open>
  The result of an init function: the loaded module, or \<open>None\<close> if it returned \<open>-1\<close>, and the calls. In \<^verbatim>\<open>chardev.c\<close> the
  major number is the only variable besides the class; \<open>MINOR_BASE\<close> is 0, \<open>MINOR_NUM\<close> is 2.
\<close>

definition init_chardev :: "cd_env \<Rightarrow> (cd_module option \<times> cd_call list) exec" where
  "init_chardev env =
     (case ce_region env of
        Inl e \<Rightarrow> Done (None, [])
      | Inr major \<Rightarrow>
          let t1 = [AllocRegion major 0 2]
          in if \<not> ce_add env then Done (None, t1 @ [UnregisterRegion major 0 2])
             else let t2 = t1 @ [CdevAdd None major 0]
             in case ce_class env of
                  Inl e \<Rightarrow> Done (None, t2 @ [CdevDel None, UnregisterRegion major 0 2])
                | Inr c \<Rightarrow>
                    Done (Some \<lparr>cm_major = major, cm_class = Inr c, cm_cdev = None, cm_mem = None\<rparr>,
                          t2 @ [ClassCreate c] @ map (DeviceCreate (Inr c) major) [0, 1]))"

definition exit_chardev :: "cd_module \<Rightarrow> cd_call list" where
  "exit_chardev m =
     map (DeviceDestroy (cm_class m) (cm_major m)) [0, 1] @
     [ClassDestroy (cm_class m), CdevDel None, UnregisterRegion (cm_major m) 0 2]"

text \<open>\<^verbatim>\<open>ioctl.c\<close>: one device.\<close>

definition ioctl_chardev_init :: "cd_env \<Rightarrow> (cd_module option \<times> cd_call list) exec" where
  "ioctl_chardev_init env =
     (case ce_region env of
        Inl e \<Rightarrow> Done (None, [])
      | Inr major \<Rightarrow>
          let t1 = [AllocRegion major 0 1]
          in if \<not> ce_add env then Done (None, t1 @ [UnregisterRegion major 0 1])
             else let t2 = t1 @ [CdevAdd None major 0]
             in case ce_class env of
                  Inl e \<Rightarrow> Done (None, t2 @ [CdevDel None, UnregisterRegion major 0 1])
                | Inr c \<Rightarrow>
                    Done (Some \<lparr>cm_major = major, cm_class = Inr c, cm_cdev = None, cm_mem = None\<rparr>,
                          t2 @ [ClassCreate c, DeviceCreate (Inr c) major 0]))"

definition ioctl_chardev_exit :: "cd_module \<Rightarrow> cd_call list" where
  "ioctl_chardev_exit m =
     [DeviceDestroy (cm_class m) (cm_major m) 0, ClassDestroy (cm_class m), CdevDel None, UnregisterRegion (cm_major m) 0 1]"

text \<open>
  \<^verbatim>\<open>md5_dev.c\<close>: \<open>cdev_alloc\<close> is not checked; \<open>cdev_init\<close> writes through its result. The labels \<open>OUT\<close> and \<open>OUT2\<close> are the two
  lists of calls of the error paths.
\<close>

definition md5_init :: "cd_env \<Rightarrow> (cd_module option \<times> cd_call list) exec" where
  "md5_init env =
     (let t0 = (case ce_cdev env of None \<Rightarrow> [] | Some a \<Rightarrow> [CdevAlloc a])
      in case ce_region env of
           Inl e \<Rightarrow> Done (None, t0)
         | Inr major \<Rightarrow>
             let t1 = t0 @ [AllocRegion major 5 1]; OUT2 = [UnregisterRegion major 5 1]
             in case ce_cdev env of
                  None \<Rightarrow> Oops NullDeref
                | Some a \<Rightarrow>
                    if \<not> ce_add env then Done (None, t1 @ OUT2)
                    else let t2 = t1 @ [CdevAdd (Some a) major 5]; OUT = CdevDel (Some a) # OUT2
                    in case ce_class env of
                         Inl e \<Rightarrow> Done (None, t2 @ OUT)
                       | Inr c \<Rightarrow>
                           let t3 = t2 @ [ClassCreate c, DeviceCreate (Inr c) major 5]
                           in case ce_mem env of
                                None \<Rightarrow> Done (None, t3 @ OUT)
                              | Some b \<Rightarrow>
                                  Done (Some \<lparr>cm_major = major, cm_class = Inr c, cm_cdev = Some a, cm_mem = Some b\<rparr>,
                                        t3 @ [AllocMem b]))"

definition md5_exit :: "cd_module \<Rightarrow> cd_call list" where
  "md5_exit m =
     [DeviceDestroy (cm_class m) (cm_major m) 5, ClassDestroy (cm_class m), CdevDel (cm_cdev m), UnregisterRegion (cm_major m) 5 1]"

text \<open>\<^verbatim>\<open>mmap_dev.c\<close> has the same structure with a page of \<open>vmalloc\<close>, which it gives back.\<close>

definition mmap_init :: "cd_env \<Rightarrow> (cd_module option \<times> cd_call list) exec" where
  "mmap_init env =
     (let t0 = (case ce_cdev env of None \<Rightarrow> [] | Some a \<Rightarrow> [CdevAlloc a])
      in case ce_region env of
           Inl e \<Rightarrow> Done (None, t0)
         | Inr major \<Rightarrow>
             let t1 = t0 @ [AllocRegion major 0 1]; OUT2 = [UnregisterRegion major 0 1]
             in case ce_cdev env of
                  None \<Rightarrow> Oops NullDeref
                | Some a \<Rightarrow>
                    if \<not> ce_add env then Done (None, t1 @ OUT2)
                    else let t2 = t1 @ [CdevAdd (Some a) major 0]; OUT = CdevDel (Some a) # OUT2
                    in case ce_class env of
                         Inl e \<Rightarrow> Done (None, t2 @ OUT)
                       | Inr c \<Rightarrow>
                           let t3 = t2 @ [ClassCreate c, DeviceCreate (Inr c) major 0]
                           in case ce_mem env of
                                None \<Rightarrow> Done (None, t3 @ OUT)
                              | Some b \<Rightarrow>
                                  Done (Some \<lparr>cm_major = major, cm_class = Inr c, cm_cdev = Some a, cm_mem = Some b\<rparr>,
                                        t3 @ [AllocMem b]))"

text \<open>The device after a successful load: a cleared page.\<close>

definition mmap_loaded :: "cd_module \<Rightarrow> mmap_state" where
  "mmap_loaded m = \<lparr>mm_data = map_option (\<lambda>b. (b, replicate (nat DATA_SIZE) 0)) (cm_mem m), mm_counter = 0\<rparr>"

definition mmap_exit :: "cd_module \<Rightarrow> cd_call list" where
  "mmap_exit m =
     [DeviceDestroy (cm_class m) (cm_major m) 0, ClassDestroy (cm_class m), CdevDel (cm_cdev m), UnregisterRegion (cm_major m) 0 1] @
     (case cm_mem m of None \<Rightarrow> [] | Some b \<Rightarrow> [FreeMem b])"

text \<open>\<^verbatim>\<open>cdev.c\<close> checks nothing; without a region the device number keeps the major number 0.\<close>

definition cdev_dev_init :: "cd_env \<Rightarrow> (cd_module option \<times> cd_call list) exec" where
  "cdev_dev_init env =
     (case ce_cdev env of
        None \<Rightarrow> Oops NullDeref
      | Some a \<Rightarrow>
          let major = (case ce_region env of Inl e \<Rightarrow> 0 | Inr m \<Rightarrow> m)
          in Done (Some \<lparr>cm_major = major, cm_class = ce_class env, cm_cdev = Some a, cm_mem = None\<rparr>,
                   [CdevAlloc a] @ (case ce_region env of Inl e \<Rightarrow> [] | Inr m \<Rightarrow> [AllocRegion m 10 1]) @
                   (if ce_add env then [CdevAdd (Some a) major 10] else []) @
                   (case ce_class env of Inl e \<Rightarrow> [] | Inr c \<Rightarrow> [ClassCreate c]) @
                   [DeviceCreate (ce_class env) major 10]))"

definition cdev_dev_exit :: "cd_module \<Rightarrow> cd_call list" where
  "cdev_dev_exit m =
     [DeviceDestroy (cm_class m) (cm_major m) 10, ClassDestroy (cm_class m), CdevDel (cm_cdev m), UnregisterRegion (cm_major m) 10 1]"

section \<open>The buffer of an open file\<close>

text \<open>
  A file of \<^verbatim>\<open>chardev.c\<close> with a buffer of \<open>BUF_LEN\<close> bytes. If both the old and the new contents have a zero byte, a
  write puts its bytes at the start of the buffer, whatever the file position is, and a read returns the buffer from the start. A write of more than
  \<open>BUF_LEN\<close> bytes is an overflow of the heap, and printing a buffer without a zero byte, such as a fresh one may be, reads past its end.
\<close>

theorem chardev_write_read:
  assumes "length m = nat BUF_LEN" and "0 \<in> set m"
  shows "(length buf \<le> length m \<and> 0 \<in> set (overlay m 0 buf) \<and> 0 \<le> n \<longrightarrow>
      (\<exists>m'. chardev_write 0 (Some (a, m)) buf = Done (Some (a, m'), Inr (int (length buf))) \<and>
        m' = overlay m 0 buf \<and> chardev_read 0 (Some (a, m')) n = Done (Inr (min n BUF_LEN), take (nat n) m'))) \<and>
    (length m < length buf \<longrightarrow> chardev_write 0 (Some (a, m)) buf = Oops OutOfBounds) \<and>
    (0 \<notin> set m' \<longrightarrow> chardev_write 0 (Some (a, m')) buf = Oops OutOfBounds)"
proof (intro conjI impI)
  assume l: "length buf \<le> length m \<and> 0 \<in> set (overlay m 0 buf) \<and> 0 \<le> n"
  then have "mem_write m 0 buf = Done (overlay m 0 buf)" using mem_write_overlay [of 0 buf m] by simp
  then have "chardev_write 0 (Some (a, m)) buf = Done (Some (a, overlay m 0 buf), Inr (int (length buf)))"
    using l assms(2) by (simp add: chardev_write_def c_str_def)
  moreover have "chardev_read 0 (Some (a, overlay m 0 buf)) n = Done (Inr (min n BUF_LEN), take (nat n) (overlay m 0 buf))"
    using l assms(1) by (simp add: chardev_read_def mem_read_def BUF_LEN_def min_def)
  ultimately show "\<exists>m'. chardev_write 0 (Some (a, m)) buf = Done (Some (a, m'), Inr (int (length buf))) \<and>
        m' = overlay m 0 buf \<and> chardev_read 0 (Some (a, m')) n = Done (Inr (min n BUF_LEN), take (nat n) m')" by blast
qed (use assms(2) in \<open>simp_all add: chardev_write_def c_str_def mem_write_def\<close>)

section \<open>The ioctl commands\<close>

lemma le_val_le_bytes: "le_val (le_bytes n v) = v mod 256 ^ n"
proof (induction n arbitrary: v)
  case (Suc n)
  have "unat (of_nat (v mod 256) :: byte) = v mod 256" by (simp add: unat_of_nat)
  then show ?case using Suc by (simp add: mod_mult2_eq)
qed simp

lemma length_le_bytes [simp]: "length (le_bytes n v) = n"
  by (induction n arbitrary: v) simp_all

lemma append_hello_spec:
  assumes "length buf = 128"
  defines "str \<equiv> takeWhile (\<lambda>b. b \<noteq> 0) buf"
  shows "0 \<in> set buf \<and> length str \<le> 121 \<Longrightarrow>
      \<exists>buf'. append_hello buf = Done buf' \<and> length buf' = 128 \<and> c_str buf' = Done (str @ hello)"
    and "\<not> (0 \<in> set buf \<and> length str \<le> 121) \<Longrightarrow> append_hello buf = Oops OutOfBounds"
proof -
  assume h: "0 \<in> set buf \<and> length str \<le> 121"
  have z: "0 \<notin> set (str @ hello)" by (auto simp: str_def hello_def dest: set_takeWhileD)
  have len: "length (str @ hello @ [0]) \<le> 128" using h by (simp add: hello_def)
  let ?buf = "overlay buf 0 (str @ hello @ [0])"
  have "append_hello buf = Done ?buf"
    using mem_write_overlay [of 0 "str @ hello @ [0]" buf] len assms h by (simp add: append_hello_def c_str_def str_def)
  moreover have "length ?buf = 128" using len assms(1) by simp
  moreover have "takeWhile (\<lambda>b. b \<noteq> 0) ?buf = str @ hello"
  proof -
    have e: "?buf = (str @ hello) @ 0 # drop (length (str @ hello @ [0])) buf" by (simp add: overlay_def)
    show ?thesis unfolding e using z by (subst takeWhile_append2) auto
  qed
  moreover have "0 \<in> set ?buf" by (simp add: overlay_def)
  ultimately show "\<exists>buf'. append_hello buf = Done buf' \<and> length buf' = 128 \<and> c_str buf' = Done (str @ hello)"
    by (simp add: c_str_def)
next
  assume "\<not> (0 \<in> set buf \<and> length str \<le> 121)"
  then show "append_hello buf = Oops OutOfBounds"
    using assms(1) by (auto simp: append_hello_def c_str_def mem_write_def str_def hello_def)
qed

text \<open>
  The commands of \<^verbatim>\<open>ioctl.c\<close>. What \<open>IOCTL_WRITE\<close> stores \<open>IOCTL_READ\<close> returns. \<open>IOCTL_RW\<close> hands back the structure with its string
  extended by a word and its size increased by the length of that, for a string of up to 121 bytes; a longer one overflows
  the structure, and so does a buffer without a zero byte. Any other command is refused and changes nothing.
\<close>

lemma chardev_ioctl_spec:
  assumes "length user = SIZEOF_INFO"
  shows "chardev_ioctl 0 0 info IOCTL_WRITE user = Done (user, Inr (), []) \<and>
    chardev_ioctl 0 0 user IOCTL_READ user' = Done (user, Inr (), user) \<and>
    (0 \<in> set (info_buf user) \<and> length (takeWhile (\<lambda>b. b \<noteq> 0) (info_buf user)) \<le> 121 \<longrightarrow>
      (\<exists>out. chardev_ioctl 0 0 info IOCTL_RW user = Done (out, Inr (), out) \<and> length out = SIZEOF_INFO \<and>
        le_val (info_size out) = (le_val (info_size user) + length hello) mod 2 ^ 64 \<and>
        c_str (info_buf out) = Done (takeWhile (\<lambda>b. b \<noteq> 0) (info_buf user) @ hello))) \<and>
    (\<not> (0 \<in> set (info_buf user) \<and> length (takeWhile (\<lambda>b. b \<noteq> 0) (info_buf user)) \<le> 121) \<longrightarrow>
      chardev_ioctl 0 0 info IOCTL_RW user = Oops OutOfBounds) \<and>
    (cmd \<notin> {IOCTL_READ, IOCTL_WRITE, IOCTL_STATUS, IOCTL_RW} \<longrightarrow> chardev_ioctl left1 left2 info cmd user = Done (info, Inl EFAULT, []))"
proof -
  have ne: "IOCTL_WRITE \<noteq> IOCTL_READ" "IOCTL_RW \<noteq> IOCTL_READ" "IOCTL_RW \<noteq> IOCTL_WRITE" "IOCTL_RW \<noteq> IOCTL_STATUS"
    by (simp_all add: IOCTL_READ_def IOCTL_WRITE_def IOCTL_STATUS_def IOCTL_RW_def ioc_defs)
  have len: "length (info_buf user) = 128" using assms by (simp add: info_buf_def SIZEOF_INFO_def)
  have rw: "chardev_ioctl 0 0 info IOCTL_RW user = kbind (append_hello (info_buf user)) (\<lambda>buf.
      let out = le_bytes 8 ((le_val (info_size user) + 6) mod 2 ^ 64) @ buf in Done (out, Inr (), out))"
    using ne by (simp add: chardev_ioctl_def Let_def)
  show ?thesis
  proof (intro conjI impI)
    assume "0 \<in> set (info_buf user) \<and> length (takeWhile (\<lambda>b. b \<noteq> 0) (info_buf user)) \<le> 121"
    then obtain buf where "append_hello (info_buf user) = Done buf" "length buf = 128"
        "c_str buf = Done (takeWhile (\<lambda>b. b \<noteq> 0) (info_buf user) @ hello)"
      using append_hello_spec(1) [OF len] by blast
    then show "\<exists>out. chardev_ioctl 0 0 info IOCTL_RW user = Done (out, Inr (), out) \<and> length out = SIZEOF_INFO \<and>
        le_val (info_size out) = (le_val (info_size user) + length hello) mod 2 ^ 64 \<and>
        c_str (info_buf out) = Done (takeWhile (\<lambda>b. b \<noteq> 0) (info_buf user) @ hello)"
      by (simp add: rw Let_def SIZEOF_INFO_def info_size_def info_buf_def le_val_le_bytes hello_def add.commute)
  qed (use ne in \<open>auto simp: chardev_ioctl_def rw append_hello_spec(2) [OF len]\<close>)
qed

section \<open>The digest\<close>

text \<open>
  The calls with which \<open>hash_md5\<close> gives back the transformation and the descriptor: each that it got exactly once. If there is no
  transformation, the error pointer is passed to \<open>crypto_free_shash\<close>.
\<close>

lemma hash_md5_frees:
  assumes "hash_md5 env result data = Done (result', ok, t)"
  shows "t = (case cr_shash env of Inl e \<Rightarrow> [] | Inr _ \<Rightarrow> map FreeDesc (case cr_sdesc env of None \<Rightarrow> [] | Some d \<Rightarrow> [d])) @ [FreeShash (cr_shash env)]"
  using assms by (auto simp: hash_md5_def Let_def exec_simps split: sum.splits option.splits if_splits)

text \<open>
  What a read of the device returns after a write: the digest of the string that the array then holds. The
  array is not cleared by a write, so the string is the text that was written only if that has a zero byte itself or overwrites all
  of the old string: text of three bytes written after a text of five is hashed with the last two of the old.
\<close>

theorem md5_read_digest:
  assumes "length (plaintext s) = MAX_LEN" and "length buf \<le> MAX_LEN"
    and "0 \<in> set (overlay (plaintext s) 0 buf)" and "\<And>x. length (cr_digest env x) = MD5_LEN"
    and "cr_shash env = Inr sh" and "cr_sdesc env = Some sd" and "cr_init env \<and> cr_update env \<and> cr_final env"
  shows "\<exists>s'. virtual_device_write 0 s buf = Done (s', Inr (int (length buf))) \<and> length (plaintext s') = MAX_LEN \<and>
    virtual_device_read env (Some a) 0 s' n =
      Done (Inr n, cr_digest env (takeWhile (\<lambda>b. b \<noteq> 0) (overlay (plaintext s) 0 buf)), [FreeDesc sd, FreeShash (Inr sh)])"
proof -
  let ?p = "overlay (plaintext s) 0 buf"
  have w: "virtual_device_write 0 s buf = Done (s\<lparr>plaintext := ?p\<rparr>, Inr (int (length buf)))"
    using mem_write_overlay [of 0 buf "plaintext s"] assms(1,2) by (simp add: virtual_device_write_def)
  let ?d = "cr_digest env (takeWhile (\<lambda>b. b \<noteq> 0) ?p)"
  have d: "length ?d = 16" using assms(4) by (simp add: MD5_LEN_def)
  then have "mem_write (replicate MD5_LEN 0) 0 ?d = Done ?d" by (simp add: mem_write_def MD5_LEN_def)
  moreover have "mem_read ?d 0 16 = Done ?d" using d by (simp add: mem_read_def)
  ultimately have "virtual_device_read env (Some a) 0 (s\<lparr>plaintext := ?p\<rparr>) n = Done (Inr n, ?d, [FreeDesc sd, FreeShash (Inr sh)])"
    using assms(3,5,6,7) d by (simp add: virtual_device_read_def c_str_def hash_md5_def hexdump_def MD5_LEN_def)
  with w show ?thesis using assms(1,2) by simp
qed

lemma md5_stale_text:
  assumes "0 \<notin> set old" and "0 \<notin> set buf" and "length buf \<le> length old"
  shows "takeWhile (\<lambda>b. b \<noteq> 0) (overlay (old @ 0 # rest) 0 buf) = buf @ drop (length buf) old"
proof -
  have e: "overlay (old @ 0 # rest) 0 buf = (buf @ drop (length buf) old) @ 0 # rest" using assms(3) by (simp add: overlay_def)
  have "0 \<notin> set (buf @ drop (length buf) old)" using assms(1,2) by (auto dest: in_set_dropD)
  then show ?thesis unfolding e by (subst takeWhile_append2) auto
qed

section \<open>The account of a module\<close>

text \<open>
  The contract of a module that can be loaded and unloaded again and again: loading never faults, a failed load leaves the
  kernel's resources as they were, and so do a load and an unload. \<open>reload\<close> is a sequence of attempts to load, each
  followed by unloading if it succeeds.
\<close>

fun reload :: "(cd_env \<Rightarrow> (cd_module option \<times> cd_call list) exec) \<Rightarrow> (cd_module \<Rightarrow> cd_call list) \<Rightarrow> cd_env list \<Rightarrow> cd_call list exec" where
  "reload init unload [] = Done []"
| "reload init unload (env # envs) =
     kbind (init env) (\<lambda>(r, t). kbind (reload init unload envs) (\<lambda>t'.
       Done (t @ (case r of None \<Rightarrow> [] | Some m \<Rightarrow> unload m) @ t')))"

lemma account_append: "account (xs @ ys) R = Option.bind (account xs R) (account ys)"
  by (induction xs R rule: account.induct) auto

locale clean_module =
  fixes init :: "cd_env \<Rightarrow> (cd_module option \<times> cd_call list) exec"
    and unload :: "cd_module \<Rightarrow> cd_call list"
  assumes loads: "is_done (init env)"
    and fails_clean: "init env = Done (None, t) \<Longrightarrow> account t R = Some R"
    and unloads_clean: "init env = Done (Some m, t) \<Longrightarrow> account (t @ unload m) R = Some R"
begin

lemma reload_clean: "\<exists>t. reload init unload envs = Done t \<and> account t R = Some R"
proof (induction envs)
  case (Cons env envs)
  then obtain t' where t': "reload init unload envs = Done t'" "account t' R = Some R" by blast
  obtain r t where t: "init env = Done (r, t)" using loads [of env] by (auto simp: is_done_iff)
  have "account (t @ (case r of None \<Rightarrow> [] | Some m \<Rightarrow> unload m)) R = Some R"
    using t fails_clean unloads_clean by (cases r) auto
  then have "account (t @ (case r of None \<Rightarrow> [] | Some m \<Rightarrow> unload m) @ t') R = Some R"
    using t'(2) by (auto simp: account_append bind_eq_Some_conv)
  then show ?case using t t'(1) by simp
qed simp

end

lemma sub_add_mset [simp]: "{#x#} \<subseteq># add_mset x R" "add_mset x R - {#x#} = R" by simp_all

lemmas account_simps = init_chardev_def exit_chardev_def ioctl_chardev_init_def ioctl_chardev_exit_def md5_init_def md5_exit_def
  mmap_init_def mmap_exit_def cdev_dev_init_def cdev_dev_exit_def Let_def

interpretation chardev: clean_module init_chardev exit_chardev
  by unfold_locales (auto simp: account_simps split: sum.splits if_splits)

interpretation ioctl: clean_module ioctl_chardev_init ioctl_chardev_exit
  by unfold_locales (auto simp: account_simps split: sum.splits if_splits)

text \<open>
  C38. \<^verbatim>\<open>chardev.c\<close> and \<^verbatim>\<open>ioctl.c\<close> can be loaded and unloaded in any sequence, whichever calls of the kernel fail on the way: nothing faults, every resource that is
  given back is held at that time, and at the end everything is as it was.
\<close>

theorem chardev_lifecycle_clean:
  "(\<exists>t. reload init_chardev exit_chardev envs = Done t \<and> account t R = Some R) \<and>
   (\<exists>t. reload ioctl_chardev_init ioctl_chardev_exit envs = Done t \<and> account t R = Some R)"
  using chardev.reload_clean ioctl.reload_clean by blast

text \<open>
  The other three modules break the contract. \<open>left_over\<close> are the resources that one attempt to load, with the unload if
  it succeeds, leaves behind.
\<close>

definition left_over :: "(cd_env \<Rightarrow> (cd_module option \<times> cd_call list) exec) \<Rightarrow> (cd_module \<Rightarrow> cd_call list) \<Rightarrow> cd_env \<Rightarrow> cd_res multiset option exec" where
  "left_over init unload env = kbind (reload init unload [env]) (\<lambda>t. Done (account t {#}))"

theorem md5_mmap_leaks:
  assumes "ce_cdev env = Some a"
  shows "(ce_region env = Inl e \<longrightarrow>
      left_over md5_init md5_exit env = Done (Some {#Cdev a#}) \<and> left_over mmap_init mmap_exit env = Done (Some {#Cdev a#})) \<and>
    (ce_region env = Inr mj \<and> \<not> ce_add env \<longrightarrow>
      left_over md5_init md5_exit env = Done (Some {#Cdev a#}) \<and> left_over mmap_init mmap_exit env = Done (Some {#Cdev a#})) \<and>
    (ce_region env = Inr mj \<and> ce_add env \<and> ce_class env = Inl e \<longrightarrow>
      left_over md5_init md5_exit env = Done (Some {#}) \<and> left_over mmap_init mmap_exit env = Done (Some {#})) \<and>
    (ce_region env = Inr mj \<and> ce_add env \<and> ce_class env = Inr c \<and> ce_mem env = None \<longrightarrow>
      left_over md5_init md5_exit env = Done (Some {#Class c, Device c mj 5#}) \<and>
      left_over mmap_init mmap_exit env = Done (Some {#Class c, Device c mj 0#})) \<and>
    (ce_region env = Inr mj \<and> ce_add env \<and> ce_class env = Inr c \<and> ce_mem env = Some b \<longrightarrow>
      left_over md5_init md5_exit env = Done (Some {#Mem b#}) \<and> left_over mmap_init mmap_exit env = Done (Some {#}))"
  using assms by (auto simp: left_over_def account_simps)

text \<open>\<^verbatim>\<open>cdev.c\<close> never reports a failure; its unloading gives back more than it got unless loading got the region and added the device.\<close>

theorem cdev_lifecycle:
  assumes "ce_cdev env = Some a"
  shows "left_over cdev_dev_init cdev_dev_exit env = Done (Some {#}) \<longleftrightarrow> (\<exists>mj. ce_region env = Inr mj) \<and> ce_add env"
  using assms by (auto simp: left_over_def account_simps split: sum.splits)

lemma mmap_loaded_ready:
  assumes "mmap_init env = Done (Some m, t)"
  shows "mmap_ready (mmap_loaded m)"
  using assms by (auto simp: account_simps mmap_loaded_def mmap_ready_def DATA_SIZE_def split: sum.splits option.splits if_splits)

section \<open>Witnesses\<close>

end
