(* ===== verification/Proc_Dev.thy ===== *)
theory Proc_Dev
  imports Block_Store
begin

text \<open>
  The files under \<^verbatim>\<open>/proc\<close> that can be written: \<^verbatim>\<open>m_modules/proc/ex_proc.c\<close>, which hands out root
  privileges for a magic word, and \<^verbatim>\<open>m_modules/proc/list_proc.c\<close>, which keeps a list of sums. Both keep a static
  flag \<open>finished\<close> that makes every second write return 0 without doing anything.
\<close>

section \<open>\<^verbatim>\<open>ex_proc.c\<close>\<close>

record cred =
  c_uid :: int
  c_gid :: int
  c_suid :: int
  c_sgid :: int
  c_euid :: int
  c_egid :: int
  c_fsuid :: int
  c_fsgid :: int

record ex_state =
  ex_buffer :: "byte list"
  ex_finished :: bool

definition magic_word :: "byte list" where
  "magic_word = map (of_nat o of_char) ''showmetheroot''"

text \<open>
  \<open>stack\<close> is what the array \<open>buf\<close> of 128 bytes holds when the function is entered, \<open>prep\<close> says whether
  \<open>prepare_creds\<close> finds memory. The result has the credentials of the calling process afterwards.
\<close>

definition ex_proc_write ::
  "nat \<Rightarrow> bool \<Rightarrow> byte list \<Rightarrow> ex_state \<Rightarrow> cred \<Rightarrow> byte list \<Rightarrow> (ex_state \<times> cred \<times> int ret) exec" where
  "ex_proc_write left prep stack s cred data =
     (if ex_finished s then Done (s\<lparr>ex_finished := False\<rparr>, cred, Inr 0)
      else let s = s\<lparr>ex_finished := True\<rparr>; len = int (length data)
      in kbind (mem_write stack 0 (snd (copy_from_user left data))) (\<lambda>buf.
         if fst (copy_from_user left data) \<noteq> 0 then Done (s, cred, Inl EFAULT)
         else kbind (arr_set buf len 0) (\<lambda>buf.
              kbind (arr_get buf (len - 1)) (\<lambda>c.
              kbind (if c = 10 then arr_set buf (len - 1) 0 else Done buf) (\<lambda>buf.
              kbind (c_str buf) (\<lambda>str.
              kbind (mem_write (replicate 128 0) 0 (str @ [0])) (\<lambda>buffer.
                let s = s\<lparr>ex_buffer := buffer\<rparr>
                in if str = magic_word
                   then (if \<not> prep then Oops NullDeref
                         else Done (s, cred\<lparr>c_uid := 0, c_gid := 0, c_suid := 0, c_sgid := 0, c_euid := 0, c_egid := 0,
                                            c_fsuid := 0, c_fsgid := 0\<rparr>, Inr len))
                   else Done (s, cred, Inr len))))))))"

definition ex_proc_show :: "ex_state \<Rightarrow> byte list exec" where
  "ex_proc_show s = c_str (ex_buffer s)"

definition root_cred :: cred where
  "root_cred = \<lparr>c_uid = 0, c_gid = 0, c_suid = 0, c_sgid = 0, c_euid = 0, c_egid = 0, c_fsuid = 0, c_fsgid = 0\<rparr>"

text \<open>The text of a write: up to the first \<open>NUL\<close>, without a newline at the end of the data.\<close>

definition written_text :: "byte list \<Rightarrow> byte list" where
  "written_text data = takeWhile (\<lambda>b. b \<noteq> 0) (if last data = 10 then butlast data else data)"

lemma ex_buf_text:
  assumes "data \<noteq> []" and "length data < length stack"
  defines "buf \<equiv> (overlay stack 0 data)[length data := 0]"
  defines "buf' \<equiv> if last data = 10 then buf[length data - 1 := 0] else buf"
  shows "c_str buf' = Done (written_text data)" and "buf ! (length data - 1) = last data" and "length buf = length stack"
proof -
  have b: "buf = data @ 0 # drop (length data + 1) stack"
    using assms(2) by (simp add: buf_def overlay_def list_update_append Cons_nth_drop_Suc [symmetric])
  obtain ds d where d: "data = ds @ [d]" using assms(1) by (cases data rule: rev_cases) auto
  show "buf ! (length data - 1) = last data" using b d by (simp add: nth_append)
  show "length buf = length stack" using assms(2) by (simp add: buf_def)
  have "buf' = (if d = 10 then ds @ 0 # 0 # drop (length data + 1) stack else data @ 0 # drop (length data + 1) stack)"
    using b d by (simp add: buf'_def list_update_append)
  moreover have "takeWhile (\<lambda>b. b \<noteq> 0) (xs @ 0 # ys) = takeWhile (\<lambda>b. b \<noteq> 0) xs" for xs ys :: "byte list"
    by (induction xs) auto
  moreover have "last data = d" "butlast data = ds" using d by simp_all
  ultimately show "c_str buf' = Done (written_text data)" by (simp add: c_str_def written_text_def)
qed

lemma written_text_le: "length (written_text data) \<le> length data"
  using length_takeWhile_le [of "\<lambda>b. b \<noteq> 0" "butlast data"] length_takeWhile_le [of "\<lambda>b. b \<noteq> 0" data]
  by (auto simp: written_text_def)

text \<open>
  C36. Whoever may write the file becomes root. A write of 1 to 127 bytes that is not swallowed stores its text and gives the
  calling process, whatever its credentials, all eight root identities exactly if the text is the magic
  word; otherwise the credentials stay. The write after it is swallowed. A write of no byte or of
  128 bytes and more is an access out of bounds.
\<close>

theorem ex_proc_grants_root:
  assumes "length stack = 128" and "\<not> ex_finished s"
  shows "(0 < length data \<and> length data < 128 \<longrightarrow>
      (\<exists>s'. ex_proc_write 0 True stack s cred data =
          Done (s', (if written_text data = magic_word then root_cred else cred), Inr (int (length data))) \<and>
        ex_proc_show s' = Done (written_text data) \<and>
        (\<forall>data'. ex_proc_write 0 True stack s' cred data' = Done (s'\<lparr>ex_finished := False\<rparr>, cred, Inr 0)))) \<and>
    (length data = 0 \<or> 128 \<le> length data \<longrightarrow> ex_proc_write 0 True stack s cred data = Oops OutOfBounds)"
proof (intro conjI impI)
  assume len: "0 < length data \<and> length data < 128"
  let ?buf = "(overlay stack 0 data)[length data := 0]"
  have "data \<noteq> []" "length data < length stack" using len assms(1) by auto
  note t = ex_buf_text [OF this]
  have w: "mem_write stack 0 data = Done (overlay stack 0 data)" using mem_write_overlay [of 0 data stack] len assms(1) by simp
  have set1: "arr_set (overlay stack 0 data) (int (length data)) 0 = Done ?buf" using len assms(1) by (simp add: arr_set_def)
  have n1: "nat (int (length data) - 1) = length data - 1" using len by linarith
  have get: "arr_get ?buf (int (length data) - 1) = Done (last data)"
    using t(2,3) len assms(1) n1 by (simp add: arr_get_def)
  have set2: "arr_set ?buf (int (length data) - 1) 0 = Done (?buf[length data - 1 := 0])"
    using t(3) len assms(1) n1 by (simp add: arr_set_def)
  define buffer where "buffer = overlay (replicate 128 0) 0 (written_text data @ [0])"
  have b: "mem_write (replicate 128 0) 0 (written_text data @ [0]) = Done buffer"
    using mem_write_overlay [of 0 "written_text data @ [0]" "replicate 128 0"] written_text_le [of data] len by (simp add: buffer_def)
  have root: "cred\<lparr>c_uid := 0, c_gid := 0, c_suid := 0, c_sgid := 0, c_euid := 0, c_egid := 0, c_fsuid := 0, c_fsgid := 0\<rparr> = root_cred"
    by (simp add: root_cred_def)
  let ?s = "s\<lparr>ex_finished := True, ex_buffer := buffer\<rparr>"
  have "ex_proc_write 0 True stack s cred data =
      Done (?s, (if written_text data = magic_word then root_cred else cred), Inr (int (length data)))"
    using assms(2) w set1 get set2 t(1) b root by (cases "last data = 10") (simp_all add: ex_proc_write_def Let_def)
  moreover have "ex_proc_show ?s = Done (written_text data)"
  proof -
    have "takeWhile (\<lambda>b. b \<noteq> 0) (takeWhile (\<lambda>b. b \<noteq> 0) xs @ 0 # ys) = takeWhile (\<lambda>b. b \<noteq> 0) xs" for xs ys :: "byte list"
      by (induction xs) auto
    then show ?thesis by (simp add: ex_proc_show_def c_str_def buffer_def overlay_def written_text_def)
  qed
  ultimately show "\<exists>s'. ex_proc_write 0 True stack s cred data =
          Done (s', (if written_text data = magic_word then root_cred else cred), Inr (int (length data))) \<and>
        ex_proc_show s' = Done (written_text data) \<and>
        (\<forall>data'. ex_proc_write 0 True stack s' cred data' = Done (s'\<lparr>ex_finished := False\<rparr>, cred, Inr 0))"
    by (intro exI [of _ ?s]) (simp add: ex_proc_write_def)
next
  assume "length data = 0 \<or> 128 \<le> length data"
  then show "ex_proc_write 0 True stack s cred data = Oops OutOfBounds"
    using assms by (auto simp: ex_proc_write_def Let_def mem_write_def arr_set_def arr_get_def)
qed

section \<open>\<^verbatim>\<open>list_proc.c\<close>\<close>

text \<open>
  The list is in the order in which it is walked; \<open>list_add\<close> puts an entry at its front. Every entry has the
  address of its block.
\<close>

record m_info =
  mi_addr :: addr
  mi_a :: int
  mi_b :: int

record lp_state =
  lp_list :: "m_info list"
  lp_lock :: bool
  lp_finished :: bool

definition add_data :: "addr option \<Rightarrow> int \<Rightarrow> int \<Rightarrow> lp_state \<Rightarrow> lp_state \<times> unit ret" where
  "add_data mem a b s =
     (case mem of
        None \<Rightarrow> (s, Inl ENOMEM)
      | Some p \<Rightarrow> (s\<lparr>lp_list := \<lparr>mi_addr = p, mi_a = a, mi_b = b\<rparr> # lp_list s\<rparr>, Inr ()))"

definition add_sample_data :: "(nat \<Rightarrow> addr option) \<Rightarrow> lp_state \<Rightarrow> lp_state \<times> unit ret" where
  "add_sample_data mem s =
     (case add_data (mem 0) 10 20 s of
        (s, Inl e) \<Rightarrow> (s, Inl ENOMEM)
      | (s, Inr _) \<Rightarrow> (case add_data (mem 1) 30 40 s of (s, Inl e) \<Rightarrow> (s, Inl ENOMEM) | (s, Inr _) \<Rightarrow> (s, Inr ())))"

text \<open>The state, and the blocks that are freed in order.\<close>

definition remove_sample_data :: "lp_state \<Rightarrow> lp_state \<times> addr list" where
  "remove_sample_data s = (s\<lparr>lp_list := []\<rparr>, map mi_addr (lp_list s))"

text \<open>The iteration behind a read: entries are named by their position in the list.\<close>

definition lp_seq_start :: "lp_state \<Rightarrow> int \<Rightarrow> lp_state \<times> nat option" where
  "lp_seq_start s pos =
     (s\<lparr>lp_lock := True\<rparr>, if 0 \<le> pos \<and> nat pos < length (lp_list s) then Some (nat pos) else None)"

definition lp_seq_next :: "lp_state \<Rightarrow> nat \<Rightarrow> int \<Rightarrow> nat option \<times> int" where
  "lp_seq_next s v pos = ((if v + 1 < length (lp_list s) then Some (v + 1) else None), pos + 1)"

definition lp_seq_stop :: "lp_state \<Rightarrow> lp_state" where
  "lp_seq_stop s = s\<lparr>lp_lock := False\<rparr>"

text \<open>A line: the two numbers and their sum, as \<open>int\<close>.\<close>

definition lp_seq_show :: "lp_state \<Rightarrow> nat \<Rightarrow> int \<times> int \<times> int" where
  "lp_seq_show s v = (let i = lp_list s ! v in (mi_a i, mi_b i, s32 (mi_a i + mi_b i)))"

text \<open>
  \<open>parse\<close> is \<open>sscanf\<close> with \<open>"%d %d"\<close>: which of the two variables it sets, and to what; otherwise they keep what
  the stack held, \<open>a0\<close> and \<open>b0\<close>.
\<close>

definition lp_proc_write ::
  "nat \<Rightarrow> addr option \<Rightarrow> byte list \<Rightarrow> (byte list \<Rightarrow> int option \<times> int option) \<Rightarrow> int \<Rightarrow> int \<Rightarrow> lp_state \<Rightarrow> byte list \<Rightarrow> (lp_state \<times> int ret) exec" where
  "lp_proc_write left mem stack parse a0 b0 s data =
     (if lp_finished s then Done (s\<lparr>lp_finished := False\<rparr>, Inr 0)
      else let s = s\<lparr>lp_finished := True\<rparr>
      in kbind (mem_write stack 0 (snd (copy_from_user left data))) (\<lambda>buf.
         if fst (copy_from_user left data) \<noteq> 0 then Done (s, Inl EFAULT)
         else kbind (c_str buf) (\<lambda>str.
              let a = (case fst (parse str) of Some n \<Rightarrow> n | None \<Rightarrow> a0);
                  b = (case snd (parse str) of Some n \<Rightarrow> n | None \<Rightarrow> b0)
              in case add_data mem a b s of
                   (s, Inl e) \<Rightarrow> Done (s, Inl EFAULT)
                 | (s, Inr _) \<Rightarrow> Done (s, Inr (int (length data))))))"

text \<open>Reading the file: start, show every entry, stop.\<close>

fun lp_show_from :: "lp_state \<Rightarrow> nat \<Rightarrow> nat option \<Rightarrow> int \<Rightarrow> (int \<times> int \<times> int) list" where
  "lp_show_from s k None pos = []"
| "lp_show_from s 0 (Some v) pos = []"
| "lp_show_from s (Suc k) (Some v) pos =
     lp_seq_show s v # (case lp_seq_next s v pos of (v', pos') \<Rightarrow> lp_show_from s k v' pos')"

definition lp_read :: "lp_state \<Rightarrow> lp_state \<times> (int \<times> int \<times> int) list" where
  "lp_read s = (case lp_seq_start s 0 of (s, v) \<Rightarrow> (lp_seq_stop s, lp_show_from s (length (lp_list s)) v 0))"

definition lp_line :: "m_info \<Rightarrow> int \<times> int \<times> int" where
  "lp_line i = (mi_a i, mi_b i, s32 (mi_a i + mi_b i))"

lemma lp_show_from_drop:
  "v + k = length (lp_list s) \<Longrightarrow>
     lp_show_from s k (if v < length (lp_list s) then Some v else None) pos = map lp_line (drop v (lp_list s))"
proof (induction k arbitrary: v pos)
  case (Suc k)
  then have "drop v (lp_list s) = lp_list s ! v # drop (v + 1) (lp_list s)" by (simp add: Cons_nth_drop_Suc)
  then show ?case using Suc.IH [of "v + 1" "pos + 1"] Suc.prems
    by (simp add: lp_seq_next_def lp_seq_show_def lp_line_def Let_def)
qed simp

text \<open>Reading shows a line for every entry, the latest first, and leaves the lock released.\<close>

theorem lp_read_shows_all:
  "lp_read s = (s\<lparr>lp_lock := False\<rparr>, map lp_line (lp_list s))"
proof -
  have "lp_show_from s' (length (lp_list s')) (if 0 < length (lp_list s') then Some 0 else None) 0 = map lp_line (lp_list s')" for s'
    using lp_show_from_drop [of 0 "length (lp_list s')" s' 0] by simp
  from this [of "s\<lparr>lp_lock := True\<rparr>"] show ?thesis
    by (cases "lp_list s = []") (simp_all add: lp_read_def lp_seq_start_def lp_seq_stop_def)
qed

text \<open>A client that writes pairs of numbers one after the other.\<close>

fun lp_writes :: "(byte list \<Rightarrow> int option \<times> int option) \<Rightarrow> byte list \<Rightarrow> lp_state \<Rightarrow> (addr \<times> byte list) list \<Rightarrow> lp_state exec" where
  "lp_writes parse stack s [] = Done s"
| "lp_writes parse stack s ((p, data) # ws) =
     kbind (lp_proc_write 0 (Some p) stack parse 0 0 s data) (\<lambda>(s, r). lp_writes parse stack s ws)"

text \<open>Of a list, the entries at even positions.\<close>

fun evens :: "'a list \<Rightarrow> 'a list" where
  "evens [] = []"
| "evens [x] = [x]"
| "evens (x # y # xs) = x # evens xs"

definition entry_of :: "(byte list \<Rightarrow> int option \<times> int option) \<Rightarrow> addr \<times> byte list \<Rightarrow> m_info" where
  "entry_of parse w = (let d = takeWhile (\<lambda>b. b \<noteq> 0) (snd w) in
     \<lparr>mi_addr = fst w, mi_a = the (fst (parse d)), mi_b = the (snd (parse d))\<rparr>)"

definition good_write :: "(byte list \<Rightarrow> int option \<times> int option) \<Rightarrow> addr \<times> byte list \<Rightarrow> bool" where
  "good_write parse w \<longleftrightarrow> length (snd w) < 128 \<and>
     (let d = takeWhile (\<lambda>b. b \<noteq> 0) (snd w) in fst (parse d) \<noteq> None \<and> snd (parse d) \<noteq> None)"

lemma lp_write_adds:
  assumes "good_write parse (p, data)" and "\<not> lp_finished s"
  shows "lp_proc_write 0 (Some p) (replicate 128 0) parse a0 b0 s data =
    Done (s\<lparr>lp_finished := True, lp_list := entry_of parse (p, data) # lp_list s\<rparr>, Inr (int (length data)))"
proof -
  have l: "length data < 128" using assms(1) by (simp add: good_write_def)
  have "takeWhile (\<lambda>b. b \<noteq> 0) (data @ replicate k 0) = takeWhile (\<lambda>b. b \<noteq> 0) data" if "0 < k" for k
    using that by (induction data) (auto simp: gr0_conv_Suc)
  then have "c_str (overlay (replicate 128 0) 0 data) = Done (takeWhile (\<lambda>b. b \<noteq> 0) data)"
    using l by (simp add: c_str_def overlay_def)
  moreover have "mem_write (replicate 128 0) 0 data = Done (overlay (replicate 128 0) 0 data)"
    using mem_write_overlay [of 0 data "replicate 128 0"] l by simp
  ultimately show ?thesis using assms
    by (auto simp: lp_proc_write_def add_data_def entry_of_def good_write_def Let_def)
qed

text \<open>Of a series of writes only the first, the third and so on take effect.\<close>

theorem lp_writes_every_second:
  assumes "list_all (good_write parse) ws" and "\<not> lp_finished s"
  shows "\<exists>fin. lp_writes parse (replicate 128 0) s ws =
    Done (s\<lparr>lp_list := map (entry_of parse) (rev (evens ws)) @ lp_list s, lp_finished := fin\<rparr>)"
  using assms
proof (induction ws arbitrary: s rule: evens.induct)
  case (2 w)
  obtain p d where w: "w = (p, d)" by fastforce
  show ?case using lp_write_adds [of parse p d s 0 0] 2 by (auto simp: w intro!: exI [of _ True])
next
  case (3 w w2 ws)
  obtain p d p2 d2 where w: "w = (p, d)" "w2 = (p2, d2)" by fastforce
  let ?s1 = "s\<lparr>lp_finished := True, lp_list := entry_of parse (p, d) # lp_list s\<rparr>"
  have "lp_proc_write 0 (Some p2) (replicate 128 0) parse 0 0 ?s1 d2 = Done (?s1\<lparr>lp_finished := False\<rparr>, Inr 0)"
    by (simp add: lp_proc_write_def)
  then show ?case using lp_write_adds [of parse p d s 0 0] 3(1) [of "?s1\<lparr>lp_finished := False\<rparr>"] 3(2,3)
    by (auto simp: w)
qed (auto intro: exI [of _ False])

section \<open>Loading and unloading of \<^verbatim>\<open>list_proc.c\<close>\<close>

datatype proc_call = ProcMkdir | ProcCreate | RemoveDir | RemoveSubtree | ProcRemoveFile | ProcRemoveDir

definition proc_init :: "bool \<Rightarrow> bool \<Rightarrow> bool \<times> proc_call list" where
  "proc_init dir_ok file_ok =
     (if \<not> dir_ok then (False, [])
      else if \<not> file_ok then (False, [ProcMkdir, RemoveDir])
      else (True, [ProcMkdir, ProcCreate]))"

definition proc_exit :: "proc_call list" where
  "proc_exit = [RemoveSubtree, ProcRemoveFile, ProcRemoveDir]"

definition proc_dev_init :: "(nat \<Rightarrow> addr option) \<Rightarrow> bool \<Rightarrow> bool \<Rightarrow> lp_state \<Rightarrow> lp_state \<times> unit ret \<times> proc_call list" where
  "proc_dev_init mem dir_ok file_ok s =
     (case add_sample_data mem s of
        (s, Inl e) \<Rightarrow> (s, Inl ENOMEM, [])
      | (s, Inr _) \<Rightarrow>
          (case proc_init dir_ok file_ok of (ok, t) \<Rightarrow> (s, (if ok then Inr () else Inl EPERM), t)))"

definition proc_dev_exit :: "lp_state \<Rightarrow> lp_state \<times> addr list \<times> proc_call list" where
  "proc_dev_exit s = (case remove_sample_data s of (s, fr) \<Rightarrow> (s, fr, proc_exit))"

text \<open>
  Unloading frees every entry once; a load that fails behind the first allocation leaves its entries allocated.
\<close>

theorem proc_dev_lifecycle:
  assumes "mem 0 = Some p" and "lp_list s = []"
  shows "(case proc_dev_init mem dir_ok file_ok s of
      (s', Inr _, t) \<Rightarrow> \<exists>q. mem 1 = Some q \<and> map lp_line (lp_list s') = [(30, 40, 70), (10, 20, 30)] \<and>
        fst (snd (proc_dev_exit s')) = [q, p] \<and> lp_list (fst (proc_dev_exit s')) = []
    | (s', Inl e, t) \<Rightarrow> p \<in> set (map mi_addr (lp_list s')))"
  using assms
  by (auto simp: proc_dev_init_def add_sample_data_def add_data_def proc_init_def proc_dev_exit_def remove_sample_data_def
      lp_line_def s32_id split: option.splits)

section \<open>Witnesses\<close>

definition cred_ex :: cred where
  "cred_ex = \<lparr>c_uid = 1000, c_gid = 1000, c_suid = 1000, c_sgid = 1000, c_euid = 1000, c_egid = 1000, c_fsuid = 1000, c_fsgid = 1000\<rparr>"

definition ex_ex :: ex_state where
  "ex_ex = \<lparr>ex_buffer = replicate 128 0, ex_finished = False\<rparr>"

theorem ex_proc_grants_root_witness:
  "\<exists>s'. ex_proc_write 0 True (replicate 128 7) ex_ex cred_ex (magic_word @ [10]) = Done (s', root_cred, Inr 14)"
proof -
  have "length magic_word = 13" "takeWhile (\<lambda>b. b \<noteq> 0) magic_word = magic_word" by (simp_all add: magic_word_def)
  then have "length (magic_word @ [10]) = 14" "written_text (magic_word @ [10]) = magic_word"
    by (simp_all add: written_text_def)
  moreover have "\<not> ex_finished ex_ex" by (simp add: ex_ex_def)
  ultimately show ?thesis
    using ex_proc_grants_root [of "replicate 128 7" ex_ex "magic_word @ [10]" cred_ex] by auto
qed

end
