(* ===== verification/Net_Filter.thy ===== *)
theory Net_Filter
  imports Skb
begin

text \<open>
  The three packet filter modules of \<^verbatim>\<open>m_modules/net\<close>: \<^verbatim>\<open>ex_netfilter.c\<close> looks at the protocol of a packet,
  \<^verbatim>\<open>http_netfilter.c\<close> drops TCP packets that carry the word \<^verbatim>\<open>HTTP\<close>, \<^verbatim>\<open>view_netfilter.c\<close> dumps packets in which it
  finds it. Messages are left out, except for the dump that \<open>print_skb\<close> prints, which is a list of items.
\<close>

datatype verdict = NF_ACCEPT | NF_DROP

definition IPPROTO_TCP :: nat where "IPPROTO_TCP = 6"
definition IPPROTO_UDP :: nat where "IPPROTO_UDP = 17"

section \<open>\<^verbatim>\<open>ex_netfilter.c\<close>\<close>

text \<open>The verdict and the protocol that is reported, if any.\<close>

definition hook_simple :: "sk_buff option \<Rightarrow> (verdict \<times> nat option) exec" where
  "hook_simple skb =
     (case skb of
        None \<Rightarrow> Done (NF_ACCEPT, None)
      | Some skb \<Rightarrow>
          kbind (ip_hdr skb) (\<lambda>iph.
            if ip_protocol iph = IPPROTO_TCP then Done (NF_ACCEPT, Some IPPROTO_TCP)
            else if ip_protocol iph = IPPROTO_UDP then Done (NF_ACCEPT, Some IPPROTO_UDP)
            else Done (NF_ACCEPT, None)))"

section \<open>\<^verbatim>\<open>http_netfilter.c\<close>\<close>

text \<open>Whether a string contains another one, as \<open>strstr\<close> looks for it.\<close>

fun contains :: "byte list \<Rightarrow> byte list \<Rightarrow> bool" where
  "contains pat [] = (pat = [])"
| "contains pat (b # bs) = (take (length pat) (b # bs) = pat \<or> contains pat bs)"

text \<open>The data offset of the TCP header, which starts at \<open>skb_transport\<close>.\<close>

definition tcp_doff :: "sk_buff \<Rightarrow> nat exec" where
  "tcp_doff skb = kbind (arr_get (skb_head skb) (int (skb_transport skb + 12))) (\<lambda>b. Done (unat b div 16))"

text \<open>\<open>length\<close> is an \<open>int\<close> computed from unsigned numbers.\<close>

definition payload_length :: "sk_buff \<Rightarrow> iphdr \<Rightarrow> nat \<Rightarrow> int" where
  "payload_length skb iph doff = s32 (int (skb_len skb) - int (ip_ihl iph * 4) - int (doff * 4))"

text \<open>
  \<open>km\<close> is \<open>kzalloc\<close>, whose result is not checked. The copy has exactly the length of the payload, with no room for a
  \<open>NUL\<close>, and is then given to \<open>strstr\<close> as a string.
\<close>

definition http_hook :: "(int \<Rightarrow> addr option) \<Rightarrow> sk_buff option \<Rightarrow> verdict exec" where
  "http_hook km skb =
     (case skb of
        None \<Rightarrow> Done NF_ACCEPT
      | Some skb \<Rightarrow>
          kbind (ip_hdr skb) (\<lambda>iph.
            if ip_protocol iph = IPPROTO_TCP then
              kbind (tcp_doff skb) (\<lambda>doff.
                let len = payload_length skb iph doff
                in if len \<le> 4 then Done NF_ACCEPT
                   else case km len of
                          None \<Rightarrow> Oops NullDeref
                        | Some a \<Rightarrow>
                            kbind (mem_read (skb_head skb) (int (skb_transport skb + doff * 4)) len) (\<lambda>data.
                            kbind (c_str data) (\<lambda>str.
                              if contains keyword str then Done NF_DROP else Done NF_ACCEPT)))
            else Done NF_ACCEPT))"

section \<open>\<^verbatim>\<open>view_netfilter.c\<close>\<close>

text \<open>What \<open>print_skb\<close> prints: a line of column numbers, then the bytes, sixteen in a line with their offset and as text.\<close>

datatype dump_item = Offset | Column nat | RowOffset nat | Hex byte | Dash | Tab | Chr byte | Newline

definition dump_char :: "byte \<Rightarrow> byte" where
  "dump_char b = (if 0x20 \<le> b \<and> b < 0x80 then b else 0x2E)"

definition dump_head :: "dump_item list" where
  "dump_head = Offset # concat (map (\<lambda>i. Column i # (if i mod 16 = 7 then [Dash] else [])) [0..<16]) @ [Newline]"

text \<open>The inner loop \<open>for (j = i - 15; j <= i; j++)\<close>, with the number of rounds.\<close>

primrec dump_text :: "sk_buff \<Rightarrow> nat \<Rightarrow> nat \<Rightarrow> dump_item list exec" where
  "dump_text skb j 0 = Done []"
| "dump_text skb j (Suc n) =
     kbind (skb_data skb j) (\<lambda>b. kbind (dump_text skb (j + 1) n) (\<lambda>out. Done (Chr (dump_char b) # out)))"

definition dump_byte :: "sk_buff \<Rightarrow> nat \<Rightarrow> dump_item list exec" where
  "dump_byte skb i =
     kbind (skb_data skb i) (\<lambda>b.
     kbind (if i mod 16 = 15 then kbind (dump_text skb (i - 15) 16) (\<lambda>out. Done (Tab # out @ [Newline])) else Done []) (\<lambda>text.
       Done ((if i mod 16 = 0 then [RowOffset i] else []) @ [Hex b] @ (if i mod 16 = 7 then [Dash] else []) @ text)))"

function print_loop :: "sk_buff \<Rightarrow> nat \<Rightarrow> dump_item list exec" where
  "print_loop skb i =
     (if i < skb_len skb
      then kbind (dump_byte skb i) (\<lambda>out. kbind (print_loop skb (i + 1)) (\<lambda>rest. Done (out @ rest)))
      else Done [Newline])"
  by pat_completeness auto
termination by (relation "measure (\<lambda>(skb, i). skb_len skb - i)") auto

declare print_loop.simps [simp del]

definition print_skb :: "sk_buff \<Rightarrow> dump_item list exec" where
  "print_skb skb = kbind (print_loop skb 0) (\<lambda>out. Done (dump_head @ out))"

text \<open>
  The walker of this module does not stop at the end of the keyword: the array it indexes is the string literal
  with its \<open>NUL\<close>. The result is what is printed.
\<close>

function view_loop :: "sk_buff \<Rightarrow> nat \<Rightarrow> nat \<Rightarrow> dump_item list exec" where
  "view_loop skb ctr keyword_walker =
     (if ctr < skb_len skb
      then kbind (skb_data skb ctr) (\<lambda>ch.
           kbind (arr_get (keyword @ [0]) (int keyword_walker)) (\<lambda>k.
             let keyword_walker = (if ch = k then keyword_walker + 1 else 0)
             in kbind (if keyword_walker = 3 then print_skb skb else Done []) (\<lambda>out.
                kbind (view_loop skb (ctr + 1) keyword_walker) (\<lambda>rest. Done (out @ rest)))))
      else Done [])"
  by pat_completeness auto
termination by (relation "measure (\<lambda>(skb, i, w). skb_len skb - i)") auto

declare view_loop.simps [simp del]

definition view_hook :: "sk_buff option \<Rightarrow> (verdict \<times> dump_item list) exec" where
  "view_hook skb =
     (case skb of
        None \<Rightarrow> Done (NF_ACCEPT, [])
      | Some skb \<Rightarrow>
          kbind (ip_hdr skb) (\<lambda>iph.
          kbind (if ip_protocol iph = IPPROTO_TCP
                 then kbind (tcp_doff skb) (\<lambda>doff. Done (payload_length skb iph doff \<le> 0))
                 else Done False) (\<lambda>empty.
            if empty then Done (NF_ACCEPT, [])
            else kbind (view_loop skb 0 0) (\<lambda>out. Done (NF_ACCEPT, out)))))"

section \<open>Loading and unloading\<close>

text \<open>The three modules register one hook; \<open>kzalloc\<close> of its description is not checked.\<close>

datatype nf_hooknum = NF_INET_PRE_ROUTING | NF_INET_LOCAL_IN

datatype nf_call = RegisterHook addr nf_hooknum | UnregisterHook addr | FreeOps addr

definition nfilter_init :: "nf_hooknum \<Rightarrow> addr option \<Rightarrow> (addr \<times> nf_call list) exec" where
  "nfilter_init hooknum mem = (case mem of None \<Rightarrow> Oops NullDeref | Some a \<Rightarrow> Done (a, [RegisterHook a hooknum]))"

definition nfilter_exit :: "addr \<Rightarrow> nf_call list" where
  "nfilter_exit nf_ops = [UnregisterHook nf_ops, FreeOps nf_ops]"

section \<open>Properties\<close>

lemma contains_iff: "contains pat s \<longleftrightarrow> (\<exists>pre post. s = pre @ pat @ post)"
proof (induction s)
  case (Cons b bs)
  note ih = Cons.IH
  show ?case
  proof
    assume "contains pat (b # bs)"
    then show "\<exists>pre post. b # bs = pre @ pat @ post"
      using Cons by (metis append_Cons append_Nil append_take_drop_id contains.simps(2))
  next
    assume "\<exists>pre post. b # bs = pre @ pat @ post"
    then obtain pre post where p: "b # bs = pre @ pat @ post" by blast
    show "contains pat (b # bs)"
    proof (cases pre)
      case Nil
      then have "take (length pat) (b # bs) = pat" using p by simp
      then show ?thesis by simp
    next
      case (Cons a pre')
      then have "bs = pre' @ pat @ post" using p by simp
      then show ?thesis using ih by auto
    qed
  qed
qed auto

text \<open>
  A TCP packet with consistent lengths: the IP header, the TCP header and the first part of the payload lie
  in the linear part of the packet, the rest of the payload in its fragments.
\<close>

definition tcp_parts :: "sk_buff \<Rightarrow> byte list \<Rightarrow> byte list \<Rightarrow> bool" where
  "tcp_parts skb linear paged \<longleftrightarrow> skb_frags skb = paged \<and> skb_off skb = 0 \<and> length (skb_head skb) + length paged < 2 ^ 31 \<and>
     (\<exists>ih th. skb_head skb = ih @ th @ linear \<and> IPHDR \<le> length ih \<and> 13 \<le> length th \<and>
        ip_ihl (parse_iphdr ih) * 4 = length ih \<and> ip_protocol (parse_iphdr ih) = IPPROTO_TCP \<and>
        skb_transport skb = length ih \<and> unat (th ! 12) div 16 * 4 = length th)"

text \<open>A linear TCP packet: all of the payload is in the linear part.\<close>

definition tcp_packet :: "sk_buff \<Rightarrow> byte list \<Rightarrow> bool" where
  "tcp_packet skb payload \<longleftrightarrow> skb_frags skb = [] \<and> skb_off skb = 0 \<and> length (skb_head skb) < 2 ^ 31 \<and>
     (\<exists>ih th. skb_head skb = ih @ th @ payload \<and> IPHDR \<le> length ih \<and> 13 \<le> length th \<and>
        ip_ihl (parse_iphdr ih) * 4 = length ih \<and> ip_protocol (parse_iphdr ih) = IPPROTO_TCP \<and>
        skb_transport skb = length ih \<and> unat (th ! 12) div 16 * 4 = length th)"

lemma tcp_packet_parts: "tcp_packet skb payload \<Longrightarrow> tcp_parts skb payload []"
  by (simp add: tcp_packet_def tcp_parts_def)

lemma http_hook_parts:
  assumes "tcp_parts skb linear paged"
  shows "http_hook km (Some skb) =
    (if length linear + length paged \<le> 4 then Done NF_ACCEPT
     else case km (int (length linear + length paged)) of
            None \<Rightarrow> Oops NullDeref
          | Some a \<Rightarrow>
              if paged \<noteq> [] then Oops OutOfBounds
              else kbind (c_str linear) (\<lambda>str. if contains keyword str then Done NF_DROP else Done NF_ACCEPT))"
proof -
  obtain ih th where h: "skb_head skb = ih @ th @ linear" "IPHDR \<le> length ih" "13 \<le> length th"
    "ip_ihl (parse_iphdr ih) * 4 = length ih" "ip_protocol (parse_iphdr ih) = IPPROTO_TCP"
    "skb_transport skb = length ih" "unat (th ! 12) div 16 * 4 = length th"
    and lin: "skb_frags skb = paged" "skb_off skb = 0" "length (skb_head skb) + length paged < 2 ^ 31"
    using assms unfolding tcp_parts_def by blast
  let ?d = "unat (th ! 12) div 16" and ?n = "length linear + length paged"
  have hdr: "ip_hdr skb = Done (parse_iphdr ih)" using h(1,2) by (simp add: ip_hdr_def)
  have doff: "tcp_doff skb = Done ?d" using h(1,3,6) by (simp add: tcp_doff_def arr_get_def nth_append nat_add_distrib)
  have len: "payload_length skb (parse_iphdr ih) ?d = int ?n"
    using h lin by (simp add: payload_length_def skb_len_def s32_id)
  have data: "mem_read (skb_head skb) (int (skb_transport skb + ?d * 4)) (int ?n) =
      (if paged \<noteq> [] then Oops OutOfBounds else Done linear)"
  proof -
    have "skb_transport skb + ?d * 4 = length (ih @ th)" using h(6,7) by simp
    then show ?thesis unfolding h(1) mem_read_def by (simp only: nat_int) simp
  qed
  show ?thesis
  proof (cases "?n \<le> 4")
    case True
    then show ?thesis using hdr doff len h(5) by (simp add: http_hook_def Let_def)
  next
    case False
    then show ?thesis using hdr doff len data h(5)
      by (cases "km (int ?n)") (simp_all add: http_hook_def Let_def)
  qed
qed

lemma http_hook_linear:
  assumes "tcp_packet skb payload" and "\<And>n. km n \<noteq> None"
  shows "http_hook km (Some skb) =
    (if length payload \<le> 4 then Done NF_ACCEPT
     else kbind (c_str payload) (\<lambda>str. if contains keyword str then Done NF_DROP else Done NF_ACCEPT))"
  using assms(2) [of "int (length payload)"] by (auto simp: http_hook_parts [OF tcp_packet_parts [OF assms(1)]])

lemma http_hook_drops:
  assumes "tcp_packet skb payload" and "\<And>n. km n \<noteq> None" and "http_hook km (Some skb) = Done NF_DROP"
  shows "\<exists>pre post. payload = pre @ keyword @ post"
proof -
  have "contains keyword (takeWhile (\<lambda>b. b \<noteq> 0) payload)"
    using assms(3) unfolding http_hook_linear [OF assms(1,2)] by (auto simp: c_str_def split: if_splits)
  then obtain pre post where "takeWhile (\<lambda>b. b \<noteq> 0) payload = pre @ keyword @ post" by (auto simp: contains_iff)
  then show ?thesis by (metis append.assoc takeWhile_dropWhile_id)
qed

text \<open>
  C37. What \<^verbatim>\<open>http_netfilter.c\<close> does to a TCP packet whose headers are consistent and complete in its linear part. It
  accepts payloads of up to four bytes without looking at them. For a longer payload it faults if \<open>kzalloc\<close> fails,
  and it reads past the end of the linear part if some of the payload lies in fragments. A longer payload that is linear and
  has a zero byte is dropped exactly if the word \<^verbatim>\<open>HTTP\<close> occurs before its first zero byte, and accepted
  otherwise. For a longer linear payload with no zero byte, such as every plain HTTP request, \<open>strstr\<close> reads past the
  end of the copy.
\<close>

theorem http_hook_verdict:
  assumes "tcp_parts skb linear paged" and "n = length linear + length paged"
  shows "(n \<le> 4 \<longrightarrow> http_hook km (Some skb) = Done NF_ACCEPT) \<and>
    (4 < n \<and> km (int n) = None \<longrightarrow> http_hook km (Some skb) = Oops NullDeref) \<and>
    (4 < n \<and> km (int n) \<noteq> None \<and> paged \<noteq> [] \<longrightarrow> http_hook km (Some skb) = Oops OutOfBounds) \<and>
    (4 < n \<and> km (int n) \<noteq> None \<and> paged = [] \<and> 0 \<in> set linear \<longrightarrow>
      http_hook km (Some skb) =
        Done (if \<exists>pre post. takeWhile (\<lambda>b. b \<noteq> 0) linear = pre @ keyword @ post then NF_DROP else NF_ACCEPT)) \<and>
    (4 < n \<and> km (int n) \<noteq> None \<and> paged = [] \<and> 0 \<notin> set linear \<longrightarrow> http_hook km (Some skb) = Oops OutOfBounds)"
  by (auto simp: http_hook_parts [OF assms(1)] assms(2) contains_iff c_str_def) blast

subsection \<open>The dump\<close>

text \<open>The bytes shown in hexadecimal, and those shown as text.\<close>

primrec hexes :: "dump_item list \<Rightarrow> byte list" where
  "hexes [] = []"
| "hexes (x # xs) = (case x of Hex b \<Rightarrow> b # hexes xs | _ \<Rightarrow> hexes xs)"

primrec chars :: "dump_item list \<Rightarrow> byte list" where
  "chars [] = []"
| "chars (x # xs) = (case x of Chr b \<Rightarrow> b # chars xs | _ \<Rightarrow> chars xs)"

lemma hexes_append [simp]: "hexes (xs @ ys) = hexes xs @ hexes ys"
  by (induction xs) (auto split: dump_item.splits)

lemma chars_append [simp]: "chars (xs @ ys) = chars xs @ chars ys"
  by (induction xs) (auto split: dump_item.splits)

lemma hexes_Chr [simp]: "hexes (map (Chr \<circ> f) bs) = []" and chars_Chr [simp]: "chars (map (Chr \<circ> f) bs) = map f bs"
  by (induction bs) auto

lemma dump_head_bytes [simp]: "hexes dump_head = []" "chars dump_head = []"
  by (simp_all add: dump_head_def upt_rec)

lemma dump_text_linear:
  assumes "skb_off skb = 0"
  shows "j + n \<le> length (skb_head skb) \<Longrightarrow>
    dump_text skb j n = Done (map (\<lambda>b. Chr (dump_char b)) (take n (drop j (skb_head skb))))"
proof (induction n arbitrary: j)
  case (Suc n)
  then have "drop j (skb_head skb) = skb_head skb ! j # drop (Suc j) (skb_head skb)" by (simp add: Cons_nth_drop_Suc)
  then show ?case using Suc assms by (simp add: skb_data_def arr_get_def)
qed simp

text \<open>Whole rows of sixteen: the part of a list up to the last multiple of sixteen.\<close>

definition whole_rows :: "'a list \<Rightarrow> 'a list" where
  "whole_rows xs = take (16 * (length xs div 16)) xs"

lemma whole_rows_step:
  assumes "i < length xs"
  shows "take (16 * (Suc i div 16)) xs =
    take (16 * (i div 16)) xs @ (if i mod 16 = 15 then take 16 (drop (i - 15) xs) else [])"
proof (cases "i mod 16 = 15")
  case True
  have "Suc i div 16 = Suc (i div 16)" using True by (simp add: div_Suc mod_Suc)
  then have "16 * (Suc i div 16) = 16 * (i div 16) + 16" by simp
  moreover have "i - 15 = 16 * (i div 16)" using True div_mult_mod_eq [of i 16] by linarith
  ultimately show ?thesis using True by (simp only: take_add simp_thms if_True)
next
  case False
  then have "Suc i div 16 = i div 16" by (simp add: div_Suc mod_Suc)
  then show ?thesis using False by simp
qed

lemma dump_byte_linear:
  assumes "skb_off skb = 0" and "i < length (skb_head skb)"
  obtains out where "dump_byte skb i = Done out" "hexes out = [skb_head skb ! i]"
    "chars out = map dump_char (if i mod 16 = 15 then take 16 (drop (i - 15) (skb_head skb)) else [])"
proof -
  define row where "row = (if i mod 16 = 15 then map dump_char (take 16 (drop (i - 15) (skb_head skb))) else [])"
  have "dump_text skb (i - 15) 16 = Done (map Chr row)" if "i mod 16 = 15"
  proof -
    have "15 \<le> i" using that mod_less_eq_dividend [of i 16] by simp
    then have "i - 15 + 16 \<le> length (skb_head skb)" using assms(2) by linarith
    from dump_text_linear [OF assms(1) this] show ?thesis using that by (simp add: row_def comp_def)
  qed
  then have "dump_byte skb i = Done ((if i mod 16 = 0 then [RowOffset i] else []) @ [Hex (skb_head skb ! i)] @
      (if i mod 16 = 7 then [Dash] else []) @ (if i mod 16 = 15 then Tab # map Chr row @ [Newline] else []))"
    using assms by (simp add: dump_byte_def skb_data_def arr_get_def)
  then show ?thesis by (rule that) (auto simp: row_def)
qed

lemma print_loop_linear:
  assumes "skb_off skb = 0" and "skb_frags skb = []" and "i \<le> length (skb_head skb)"
  shows "\<exists>out. print_loop skb i = Done out \<and> hexes out = drop i (skb_head skb) \<and>
    take (16 * (i div 16)) (map dump_char (skb_head skb)) @ chars out = map dump_char (whole_rows (skb_head skb))"
  using assms
proof (induction skb i rule: print_loop.induct)
  case (1 skb i)
  show ?case
  proof (cases "i < length (skb_head skb)")
    case True
    obtain out where o: "dump_byte skb i = Done out" "hexes out = [skb_head skb ! i]"
      "chars out = map dump_char (if i mod 16 = 15 then take 16 (drop (i - 15) (skb_head skb)) else [])"
      using dump_byte_linear [OF 1(2) True] .
    have l: "i < skb_len skb" using True 1(2,3) by (simp add: skb_len_def)
    obtain rest where r: "print_loop skb (i + 1) = Done rest" "hexes rest = drop (i + 1) (skb_head skb)"
      "take (16 * (Suc i div 16)) (map dump_char (skb_head skb)) @ chars rest = map dump_char (whole_rows (skb_head skb))"
      using 1(1) [OF l o(1)] 1(2,3) True by auto
    have p: "print_loop skb i = Done (out @ rest)" using l o(1) r(1) by (simp add: print_loop.simps [of skb i])
    show ?thesis
    proof (intro exI conjI)
      show "print_loop skb i = Done (out @ rest)" by (rule p)
      show "hexes (out @ rest) = drop i (skb_head skb)" using o(2) r(2) True by (simp add: Cons_nth_drop_Suc)
      have "chars out = (if i mod 16 = 15 then take 16 (drop (i - 15) (map dump_char (skb_head skb))) else [])"
        using o(3) by (simp add: take_map drop_map)
      then show "take (16 * (i div 16)) (map dump_char (skb_head skb)) @ chars (out @ rest) =
        map dump_char (whole_rows (skb_head skb))"
        using r(3) whole_rows_step [of i "map dump_char (skb_head skb)"] True by simp
    qed
  next
    case False
    then have e: "i = length (skb_head skb)" and l: "\<not> i < skb_len skb" using 1(2-4) by (auto simp: skb_len_def)
    from l have "print_loop skb i = Done [Newline]" by (simp only: print_loop.simps [of skb i] if_False)
    with e show ?thesis by (simp add: whole_rows_def take_map)
  qed
qed

text \<open>
  The dump of a linear packet shows every byte of it in order; as text it shows the whole rows only, so the
  last bytes of a packet whose length is no multiple of sixteen are missing there.
\<close>

theorem print_skb_shows:
  assumes "skb_off skb = 0" and "skb_frags skb = []"
  shows "\<exists>out. print_skb skb = Done out \<and> hexes out = skb_head skb \<and> chars out = map dump_char (whole_rows (skb_head skb))"
  using print_loop_linear [of skb 0] assms by (auto simp: print_skb_def)

subsection \<open>When it dumps\<close>

text \<open>The number of dumps; \<open>None\<close> if the walker leaves the keyword.\<close>

fun view_scan :: "nat \<Rightarrow> byte list \<Rightarrow> nat option" where
  "view_scan w [] = Some 0"
| "view_scan w (b # bs) =
     (if w \<le> 4
      then let w' = (if b = (keyword @ [0]) ! w then w + 1 else 0) in map_option (\<lambda>n. n + (if w' = 3 then 1 else 0)) (view_scan w' bs)
      else None)"

lemma view_loop_scan:
  assumes "skb_off skb = 0" and "skb_frags skb = []" and "print_skb skb = Done out" and "i \<le> length (skb_head skb)"
  shows "view_loop skb i w =
    (case view_scan w (drop i (skb_head skb)) of None \<Rightarrow> Oops OutOfBounds | Some n \<Rightarrow> Done (concat (replicate n out)))"
  using assms
proof (induction skb i w rule: view_loop.induct)
  case (1 skb i w)
  show ?case
  proof (cases "i < length (skb_head skb)")
    case True
    let ?b = "skb_head skb ! i"
    let ?w = "if ?b = (keyword @ [0]) ! w then w + 1 else 0"
    have d: "skb_data skb i = Done ?b" "i < skb_len skb" "drop i (skb_head skb) = ?b # drop (i + 1) (skb_head skb)"
      using True 1(2,3) by (simp_all add: skb_data_def arr_get_def skb_len_def Cons_nth_drop_Suc)
    show ?thesis
    proof (cases "w \<le> 4")
      case w: True
      then have k: "arr_get (keyword @ [0]) (int w) = Done ((keyword @ [0]) ! w)" by (simp add: arr_get_def keyword_def)
      define pr where "pr = (if ?w = 3 then print_skb skb else Done [])"
      define o' where "o' = (if ?w = 3 then out else [])"
      have pr: "pr = Done o'" using 1(4) by (simp add: pr_def o'_def)
      have ih: "view_loop skb (i + 1) ?w = (case view_scan ?w (drop (i + 1) (skb_head skb)) of None \<Rightarrow> Oops OutOfBounds
          | Some n \<Rightarrow> Done (concat (replicate n out)))"
        using 1(1) [OF d(2,1) k refl pr [unfolded pr_def]] 1(2-4) True by simp
      have "view_loop skb i w = kbind (view_loop skb (i + 1) ?w) (\<lambda>rest. Done (o' @ rest))"
        using d k pr unfolding pr_def by (simp add: view_loop.simps [of skb i] Let_def)
      moreover have "view_scan w (drop i (skb_head skb)) =
          map_option (\<lambda>n. n + (if ?w = 3 then 1 else 0)) (view_scan ?w (drop (i + 1) (skb_head skb)))"
        unfolding d(3) using w by (simp add: Let_def)
      ultimately show ?thesis unfolding ih
        by (cases "view_scan ?w (drop (i + 1) (skb_head skb))") (simp_all add: o'_def)
    next
      case False
      then have "arr_get (keyword @ [0]) (int w) = Oops OutOfBounds" by (simp add: arr_get_def keyword_def)
      then show ?thesis using False d by (simp add: view_loop.simps [of skb i])
    qed
  next
    case False
    then have e: "i = length (skb_head skb)" and l: "\<not> i < skb_len skb" using 1(2,3,5) by (auto simp: skb_len_def)
    from l have "view_loop skb i w = Done []" by (simp only: view_loop.simps [of skb i] if_False)
    with e show ?thesis by simp
  qed
qed

definition udp_ex :: "byte list \<Rightarrow> sk_buff" where
  "udp_ex payload = \<lparr>skb_id = 7, skb_pkt_type = PACKET_HOST, skb_dev = 2, skb_iif = 2,
     skb_head = [0x45, 0, 0, 22, 0, 0, 0, 0, 64, 17, 0, 0, 10, 0, 0, 1, 10, 0, 0, 2] @ payload, skb_frags = [], skb_off = 0,
     skb_transport = 20, skb_gso_segs = 0, skb_dst = None, skb_sk = False, cb_iif = 0, cb_optlen = 0\<rparr>"

text \<open>
  \<^verbatim>\<open>view_netfilter.c\<close> accepts every packet it returns on. It dumps a packet that has only the first three letters of
  the keyword, and reads past the keyword when the whole word is followed by a zero byte and another one.
\<close>

lemma view_hook_accepts: "view_hook skb = Done (v, out) \<Longrightarrow> v = NF_ACCEPT"
  by (auto simp: view_hook_def exec_simps split: option.splits if_splits)

lemma view_hook_udp:
  assumes "print_skb (udp_ex payload) = Done out"
  shows "view_hook (Some (udp_ex payload)) =
    (case view_scan 0 (skb_head (udp_ex payload)) of None \<Rightarrow> Oops OutOfBounds | Some n \<Rightarrow> Done (NF_ACCEPT, concat (replicate n out)))"
proof -
  have "view_loop (udp_ex payload) 0 0 =
    (case view_scan 0 (skb_head (udp_ex payload)) of None \<Rightarrow> Oops OutOfBounds | Some n \<Rightarrow> Done (concat (replicate n out)))"
    using view_loop_scan [OF _ _ assms, of 0 0] by (simp add: udp_ex_def)
  moreover have "ip_hdr (udp_ex payload) = Done (parse_iphdr (skb_head (udp_ex payload)))"
    "ip_protocol (parse_iphdr (skb_head (udp_ex payload))) \<noteq> IPPROTO_TCP"
    by (simp_all add: udp_ex_def ip_hdr_def IPHDR_def parse_iphdr_def IPPROTO_TCP_def)
  ultimately show ?thesis by (simp add: view_hook_def split: option.split)
qed

theorem view_hook_dumps:
  shows "\<exists>out. print_skb (udp_ex [0x48, 0x54, 0x54]) = Done out \<and>
      view_hook (Some (udp_ex [0x48, 0x54, 0x54])) = Done (NF_ACCEPT, out)"
    and "view_hook (Some (udp_ex [0x48, 0x54, 0x54, 0x50, 0, 0])) = Oops OutOfBounds"
proof -
  have lin: "skb_off (udp_ex p) = 0" "skb_frags (udp_ex p) = []" for p by (simp_all add: udp_ex_def)
  have "view_scan 0 (skb_head (udp_ex [0x48, 0x54, 0x54])) = Some 1"
    "view_scan 0 (skb_head (udp_ex [0x48, 0x54, 0x54, 0x50, 0, 0])) = None"
    by (simp_all add: udp_ex_def keyword_def Let_def)
  note n = this
  obtain o1 o2 where o: "print_skb (udp_ex [0x48, 0x54, 0x54]) = Done o1" "print_skb (udp_ex [0x48, 0x54, 0x54, 0x50, 0, 0]) = Done o2"
    using print_skb_shows [OF lin] by metis
  show "\<exists>out. print_skb (udp_ex [0x48, 0x54, 0x54]) = Done out \<and>
      view_hook (Some (udp_ex [0x48, 0x54, 0x54])) = Done (NF_ACCEPT, out)"
    using view_hook_udp [OF o(1)] o(1) n(1) by simp
  show "view_hook (Some (udp_ex [0x48, 0x54, 0x54, 0x50, 0, 0])) = Oops OutOfBounds"
    using view_hook_udp [OF o(2)] n(2) by simp
qed

text \<open>The description of the hook that is registered is the one that is unregistered and freed.\<close>

theorem nfilter_lifecycle:
  "nfilter_init hooknum (Some a) = Done (a, [RegisterHook a hooknum]) \<and> nfilter_exit a = [UnregisterHook a, FreeOps a]"
  by (simp add: nfilter_init_def nfilter_exit_def)

section \<open>Witnesses\<close>

definition tcp_ex :: "byte list \<Rightarrow> sk_buff" where
  "tcp_ex payload = (udp_ex [])\<lparr>skb_head := [0x45, 0, 0, 22, 0, 0, 0, 0, 64, 6, 0, 0, 10, 0, 0, 1, 10, 0, 0, 2] @
     [0, 80, 0, 80, 0, 0, 0, 0, 0, 0, 0, 0, 0x50, 0, 0, 0, 0, 0, 0, 0] @ payload\<rparr>"

lemma tcp_ex_packet: "length payload < 1000 \<Longrightarrow> tcp_packet (tcp_ex payload) payload"
  unfolding tcp_packet_def
  by (intro conjI exI [of _ "[0x45, 0, 0, 22, 0, 0, 0, 0, 64, 6, 0, 0, 10, 0, 0, 1, 10, 0, 0, 2]"]
      exI [of _ "[0, 80, 0, 80, 0, 0, 0, 0, 0, 0, 0, 0, 0x50, 0, 0, 0, 0, 0, 0, 0]"])
    (simp_all add: tcp_ex_def udp_ex_def IPHDR_def parse_iphdr_def IPPROTO_TCP_def)

theorem http_hook_verdict_witness:
  "http_hook (\<lambda>n. Some 5) (Some (tcp_ex ([1] @ keyword @ [0]))) = Done NF_DROP \<and>
    http_hook (\<lambda>n. Some 5) (Some (tcp_ex ([1] @ keyword))) = Oops OutOfBounds"
proof -
  have n: "(0::byte) \<notin> set ([1] @ keyword)" "4 < length ([1] @ keyword)" by (simp_all add: keyword_def)
  have "takeWhile (\<lambda>b. b \<noteq> 0) ([1] @ keyword @ [0]) = [1] @ keyword @ []" by (simp add: keyword_def)
  then have e: "\<exists>pre post. takeWhile (\<lambda>b. b \<noteq> 0) ([1] @ keyword @ [0]) = pre @ keyword @ post" by blast
  have p: "tcp_parts (tcp_ex ([1] @ keyword @ [0])) ([1] @ keyword @ [0]) []" "tcp_parts (tcp_ex ([1] @ keyword)) ([1] @ keyword) []"
    by (simp_all add: tcp_packet_parts tcp_ex_packet keyword_def)
  have "4 < length ([1] @ keyword @ [0]) \<and> 0 \<in> set ([1] @ keyword @ [0])" by (simp add: keyword_def)
  with http_hook_verdict [OF p(1) refl, of "\<lambda>n. Some 5"] e have "http_hook (\<lambda>n. Some 5) (Some (tcp_ex ([1] @ keyword @ [0]))) = Done NF_DROP"
    by (simp del: append.simps)
  moreover have "http_hook (\<lambda>n. Some 5) (Some (tcp_ex ([1] @ keyword))) = Oops OutOfBounds"
    using http_hook_verdict [OF p(2) refl, of "\<lambda>n. Some 5"] n by (simp del: append.simps)
  ultimately show ?thesis by blast
qed

end
