(* ===== verification/Mm_Info.thy ===== *)
theory Mm_Info
  imports Kernel_Base
begin

text \<open>
  The modules that report on memory: \<^verbatim>\<open>m_modules/mm/show_mem.c\<close> prints the memory statistics and the mappings of a
  process when it is loaded, \<^verbatim>\<open>m_modules/mm/lru.c\<close> prints pages of the lists of recently used pages. What is
  printed is the result of the functions; references to kernel objects that are taken and given back are recorded.
\<close>

section \<open>Mappings\<close>

unbundle bit_operations_syntax

definition VM_READ :: int where "VM_READ = 1"
definition VM_WRITE :: int where "VM_WRITE = 2"
definition VM_EXEC :: int where "VM_EXEC = 4"
definition VM_MAYSHARE :: int where "VM_MAYSHARE = 128"

text \<open>
  A mapping: \<open>vm_file\<close> has the device, the inode number and what \<open>d_path\<close> answers; \<open>vm_mm\<close> is the field \<open>start_stack\<close>
  of the structure it points to, or \<open>NULL\<close>.
\<close>

record vm_file_info =
  vf_dev :: "int \<times> int"
  vf_ino :: int
  vf_path :: string

record vm_area =
  vm_start :: int
  vm_end :: int
  vm_flags :: int
  vm_pgoff :: int
  vm_file :: "vm_file_info option"
  vm_mm :: "int option"

record mm_struct =
  mmap :: "vm_area list"
  map_count :: nat
  start_brk :: int
  brk :: int
  total_vm :: int
  hiwater_vm :: int
  hiwater_rss :: int
  locked_vm :: int
  pinned_vm :: int
  data_vm :: int
  stack_vm :: int
  exec_vm :: int
  start_code :: int
  end_code :: int
  anon_pages :: int
  file_pages :: int
  shmem_pages :: int
  swap_ents :: int
  pgtables_bytes :: int

datatype mark = Vdso | Heap | Stack

record map_row =
  mr_range :: "int \<times> int"
  mr_mode :: string
  mr_offset :: int
  mr_file :: "vm_file_info option"
  mr_marks :: "mark list"

definition is_stack :: "vm_area \<Rightarrow> bool exec" where
  "is_stack vma =
     (case vm_mm vma of
        None \<Rightarrow> Oops NullDeref
      | Some start_stack \<Rightarrow> Done (vm_start vma \<le> start_stack \<and> vm_end vma \<ge> start_stack))"

definition mode_chars :: "int \<Rightarrow> string" where
  "mode_chars flags =
     [if flags AND VM_READ \<noteq> 0 then CHR ''r'' else CHR ''-'',
      if flags AND VM_WRITE \<noteq> 0 then CHR ''w'' else CHR ''-'',
      if flags AND VM_EXEC \<noteq> 0 then CHR ''x'' else CHR ''-'',
      if flags AND VM_MAYSHARE \<noteq> 0 then CHR ''s'' else CHR ''p'']"

text \<open>One round of the loop; \<open>buf\<close> is the result of \<open>kmalloc\<close>, which is cleared for every mapping of a file.\<close>

definition show_vma :: "mm_struct \<Rightarrow> addr option \<Rightarrow> vm_area \<Rightarrow> map_row exec" where
  "show_vma mm buf vma =
     (let row = \<lparr>mr_range = (vm_start vma, vm_end vma), mr_mode = mode_chars (vm_flags vma),
                 mr_offset = u64 (vm_pgoff vma * 2 ^ PAGE_SHIFT), mr_file = vm_file vma, mr_marks = []\<rparr>
      in case vm_file vma of
           Some f \<Rightarrow> (case buf of None \<Rightarrow> Oops NullDeref | Some a \<Rightarrow> Done row)
         | None \<Rightarrow>
             let vdso = (if vm_mm vma = None then [Vdso] else [])
             in if vm_start vma \<le> brk mm \<and> vm_end vma \<ge> start_brk mm then Done (row\<lparr>mr_marks := vdso @ [Heap]\<rparr>)
                else kbind (is_stack vma) (\<lambda>st. Done (row\<lparr>mr_marks := vdso @ (if st then [Stack] else [])\<rparr>)))"

text \<open>The loop runs \<open>map_count\<close> times along \<open>vm_next\<close>, without looking whether there is a next mapping.\<close>

fun show_vmas :: "mm_struct \<Rightarrow> addr option \<Rightarrow> nat \<Rightarrow> vm_area list \<Rightarrow> map_row list exec" where
  "show_vmas mm buf 0 vmas = Done []"
| "show_vmas mm buf (Suc n) [] = Oops NullDeref"
| "show_vmas mm buf (Suc n) (vma # vmas) =
     kbind (show_vma mm buf vma) (\<lambda>row. kbind (show_vmas mm buf n vmas) (\<lambda>rows. Done (row # rows)))"

datatype mem_call = KmallocBuf addr | KfreeBuf addr | GetTaskMm

text \<open>
  \<open>task\<close> is the process found for the number and, if it has one, its address space. The result is the rows, or
  \<open>None\<close> after an early return, and the calls.
\<close>

definition show_map :: "addr option \<Rightarrow> mm_struct option option \<Rightarrow> (map_row list option \<times> mem_call list) exec" where
  "show_map buf task =
     (let t0 = (case buf of None \<Rightarrow> [] | Some a \<Rightarrow> [KmallocBuf a])
      in case task of
           None \<Rightarrow> Done (None, t0)
         | Some None \<Rightarrow> Done (None, t0)
         | Some (Some mm) \<Rightarrow>
             let t1 = t0 @ [GetTaskMm]
             in if mmap mm = [] then Done (None, t1)
                else kbind (show_vmas mm buf (map_count mm) (mmap mm)) (\<lambda>rows.
                  Done (Some rows, t1 @ (case buf of None \<Rightarrow> [] | Some a \<Rightarrow> [KfreeBuf a]))))"

section \<open>The statistics\<close>

record mem_report =
  VmPeak :: int
  VmSize :: int
  VmLock :: int
  VmPin :: int
  VmHWM :: int
  VmRSS :: int
  RssAnon :: int
  RssFile :: int
  RssShm :: int
  VmData :: int
  VmStck :: int
  VmExec :: int
  VmLib :: int
  VmPTE :: int
  VmSwap :: int

text \<open>\<open>PRINTK_DEC\<close> turns pages into kilobytes; \<open>PAGE_ALIGN\<close> rounds up to a page.\<close>

definition in_kb :: "int \<Rightarrow> int" where
  "in_kb pages = u64 (pages * 2 ^ (PAGE_SHIFT - 10))"

definition PAGE_ALIGN :: "int \<Rightarrow> int" where
  "PAGE_ALIGN x = u64 (x + PAGE_SIZE - 1) div PAGE_SIZE * PAGE_SIZE"

definition PAGE_MASKED :: "int \<Rightarrow> int" where
  "PAGE_MASKED x = x div PAGE_SIZE * PAGE_SIZE"

definition mem_stats :: "mm_struct \<Rightarrow> mem_report" where
  "mem_stats mm =
     (let anon = anon_pages mm; file = file_pages mm; shmem = shmem_pages mm;
          total = total_vm mm;
          peak = (if total < hiwater_vm mm then hiwater_vm mm else total);
          rss = u64 (anon + file + shmem);
          hwm = (if rss < hiwater_rss mm then hiwater_rss mm else rss);
          exec_bytes = u64 (exec_vm mm * 2 ^ PAGE_SHIFT);
          text = u64 (PAGE_ALIGN (end_code mm) - PAGE_MASKED (start_code mm));
          text = min text exec_bytes;
          lib = u64 (exec_bytes - text)
      in \<lparr>VmPeak = in_kb peak, VmSize = in_kb total, VmLock = in_kb (locked_vm mm), VmPin = in_kb (pinned_vm mm),
          VmHWM = in_kb hwm, VmRSS = in_kb rss, RssAnon = in_kb anon, RssFile = in_kb file, RssShm = in_kb shmem,
          VmData = in_kb (data_vm mm), VmStck = in_kb (stack_vm mm), VmExec = text div 2 ^ 10, VmLib = lib div 2 ^ 10,
          VmPTE = pgtables_bytes mm div 2 ^ 10, VmSwap = in_kb (swap_ents mm)\<rparr>)"

text \<open>Loading the module; it takes its own reference to the address space, and \<open>show_map\<close> another one.\<close>

definition show_mem_init ::
  "addr option \<Rightarrow> mm_struct option option \<Rightarrow> ((mem_report \<times> map_row list option) option \<times> mem_call list) exec" where
  "show_mem_init buf task =
     (case task of
        None \<Rightarrow> Done (None, [])
      | Some None \<Rightarrow> Done (None, [])
      | Some (Some mm) \<Rightarrow> kbind (show_map buf task) (\<lambda>(rows, t). Done (Some (mem_stats mm, rows), GetTaskMm # t)))"

section \<open>\<^verbatim>\<open>lru.c\<close>\<close>

text \<open>
  The frame numbers that \<open>show_pfn\<close> prints for a list of pages: \<open>lru_to_page\<close> is the page before the head. The page it moves to is forgotten at the
  start of the next round. The number of rounds is bounded by the counter.
\<close>

function show_pfn_from :: "nat list \<Rightarrow> nat \<Rightarrow> nat list" where
  "show_pfn_from src page_count =
     (if src = [] then []
      else if page_count + 1 \<ge> 20 then []
      else last src # show_pfn_from src (page_count + 1))"
  by pat_completeness auto
termination by (relation "measure (\<lambda>(src, n). 20 - n)") auto

declare show_pfn_from.simps [simp del]

definition show_pfn :: "nat list \<Rightarrow> nat list" where
  "show_pfn src = show_pfn_from src 0"

record lruvec =
  lru_active_file :: "nat list"
  lru_inactive_file :: "nat list"
  lru_active_anon :: "nat list"
  lru_inactive_anon :: "nat list"
  lru_unevictable :: "nat list"

text \<open>A node: its pages present and its lists; a node that does not exist is \<open>None\<close>.\<close>

fun show_list :: "(nat \<times> lruvec) option list \<Rightarrow> nat list list list" where
  "show_list [] = []"
| "show_list (None # nodes) = show_list nodes"
| "show_list (Some (present, v) # nodes) =
     (if present = 0 then show_list nodes
      else [show_pfn (lru_active_file v), show_pfn (lru_inactive_file v), show_pfn (lru_active_anon v),
            show_pfn (lru_inactive_anon v), show_pfn (lru_unevictable v)] # show_list nodes)"

section \<open>Properties\<close>

text \<open>The row of a mapping, as a function of it.\<close>

definition row_of :: "mm_struct \<Rightarrow> vm_area \<Rightarrow> map_row" where
  "row_of mm vma =
     \<lparr>mr_range = (vm_start vma, vm_end vma), mr_mode = mode_chars (vm_flags vma),
      mr_offset = u64 (vm_pgoff vma * 4096), mr_file = vm_file vma,
      mr_marks = (if vm_file vma \<noteq> None then []
                  else if vm_start vma \<le> brk mm \<and> vm_end vma \<ge> start_brk mm then [Heap]
                  else if vm_start vma \<le> the (vm_mm vma) \<and> vm_end vma \<ge> the (vm_mm vma) then [Stack] else [])\<rparr>"

lemma show_vma_row: "vm_mm vma \<noteq> None \<Longrightarrow> show_vma mm (Some a) vma = Done (row_of mm vma)"
  by (auto simp: show_vma_def row_of_def is_stack_def PAGE_SHIFT_def Let_def split: option.splits)

lemma show_vmas_rows:
  "list_all (\<lambda>vma. vm_mm vma \<noteq> None) vmas \<Longrightarrow> show_vmas mm (Some a) (length vmas) vmas = Done (map (row_of mm) vmas)"
  by (induction vmas) (auto simp: show_vma_row)

lemma show_vmas_short: "length vmas < n \<Longrightarrow> \<not> is_done (show_vmas mm buf n vmas)"
  by (induction mm buf n vmas rule: show_vmas.induct) (auto simp: is_done_kbind)

text \<open>
  With memory for its buffer and a count that is true, \<open>show_map\<close> prints one row for each mapping, in order. It takes a
  reference to the address space that it never gives back; without a process or an address space it loses its buffer. A count above the number of mappings is a fault.
\<close>

theorem show_map_rows:
  assumes "mmap mm \<noteq> []" and "list_all (\<lambda>vma. vm_mm vma \<noteq> None) (mmap mm)"
  shows "(map_count mm = length (mmap mm) \<longrightarrow>
      show_map (Some a) (Some (Some mm)) = Done (Some (map (row_of mm) (mmap mm)), [KmallocBuf a, GetTaskMm, KfreeBuf a])) \<and>
    (length (mmap mm) < map_count mm \<longrightarrow> \<not> is_done (show_map (Some a) (Some (Some mm)))) \<and>
    show_map (Some a) None = Done (None, [KmallocBuf a])"
  using assms show_vmas_short [of "mmap mm" "map_count mm" mm "Some a"]
  by (auto simp: show_map_def show_vmas_rows is_done_iff kbind_eq_Done)

text \<open>
  The statistics of an address space whose numbers are those of a 64-bit machine: the peaks are not below the
  current values, the resident set is the sum of its parts, and text and libraries together are the executable mappings.
\<close>

lemma in_kb_id: "0 \<le> x \<Longrightarrow> x < 2 ^ 62 \<Longrightarrow> in_kb x = 4 * x"
  by (simp add: in_kb_def PAGE_SHIFT_def u64_id)

theorem mem_stats_consistent:
  assumes "list_all (\<lambda>x. 0 \<le> x \<and> x < 2 ^ 51) [total_vm mm, hiwater_vm mm, hiwater_rss mm, exec_vm mm, anon_pages mm, file_pages mm, shmem_pages mm]"
  shows "VmSize (mem_stats mm) \<le> VmPeak (mem_stats mm) \<and> VmRSS (mem_stats mm) \<le> VmHWM (mem_stats mm) \<and>
    VmRSS (mem_stats mm) = RssAnon (mem_stats mm) + RssFile (mem_stats mm) + RssShm (mem_stats mm) \<and>
    VmExec (mem_stats mm) + VmLib (mem_stats mm) = 4 * exec_vm mm"
proof -
  have u: "u64 (anon_pages mm + file_pages mm + shmem_pages mm) = anon_pages mm + file_pages mm + shmem_pages mm"
    "u64 (exec_vm mm * 4096) = exec_vm mm * 4096" using assms by (simp_all add: u64_id)
  define tx where "tx = min (u64 (PAGE_ALIGN (end_code mm) - PAGE_MASKED (start_code mm))) (exec_vm mm * 4096)"
  have t: "0 \<le> tx" "tx \<le> exec_vm mm * 4096" using u64_range assms by (simp_all add: tx_def)
  have d: "4096 dvd tx"
  proof -
    have e: "PAGE_ALIGN (end_code mm) - PAGE_MASKED (start_code mm) =
        (u64 (end_code mm + PAGE_SIZE - 1) div PAGE_SIZE - start_code mm div PAGE_SIZE) * 4096"
      by (simp add: PAGE_ALIGN_def PAGE_MASKED_def PAGE_SIZE_def left_diff_distrib)
    have "4096 dvd u64 (k * 4096)" for k by (simp add: u64_def take_bit_eq_mod dvd_mod)
    then have "4096 dvd u64 (PAGE_ALIGN (end_code mm) - PAGE_MASKED (start_code mm))" unfolding e by blast
    then show ?thesis by (simp add: tx_def min_def)
  qed
  then have k: "tx div 1024 + (exec_vm mm * 4096 - tx) div 1024 = 4 * exec_vm mm" by fastforce
  have l: "u64 (exec_vm mm * 4096 - tx) = exec_vm mm * 4096 - tx" using t assms by (simp add: u64_id)
  show ?thesis
    using assms u k l by (simp add: mem_stats_def Let_def in_kb_id PAGE_SHIFT_def flip: tx_def)
qed

text \<open>\<open>show_pfn\<close> prints the last page of a list, nineteen times.\<close>

lemma show_pfn_same: "src \<noteq> [] \<Longrightarrow> show_pfn src = replicate 19 (last src)"
  by (simp add: show_pfn_def show_pfn_from.simps numeral_eq_Suc)

end
