(* ===== verification/Syscalls.thy ===== *)
theory Syscalls
  imports Block_Store
begin

text \<open>
  The system calls that the repository adds to the kernel (\<^verbatim>\<open>linux/kernel/mycall.c\<close>, with the structure of
  \<^verbatim>\<open>linux/include/linux/syscalls.h\<close>), the module that looks for the table of system calls
  (\<^verbatim>\<open>m_modules/basic/find_table.c\<close>), the exported functions of \<^verbatim>\<open>m_modules/basic/callee.c\<close>, and the attributes of
  \<^verbatim>\<open>m_modules/fs/km_debugfs.c\<close> and \<^verbatim>\<open>rpi_debugfs.c\<close>.
\<close>

section \<open>The added system calls\<close>

text \<open>\<open>mycall\<close>: \<open>put_user\<close> may fail, which is not looked at; the result has the value stored at \<open>to_user\<close>, if any.\<close>

definition sys_mycall :: "bool \<Rightarrow> int \<Rightarrow> int \<Rightarrow> int \<times> int option" where
  "sys_mycall faults a b = (let sum = s32 (a + b) in (21, if faults then None else Some sum))"

text \<open>\<open>struct cpu_info\<close> is 84 bytes; \<open>stack\<close> is what the memory of \<open>src\<close> holds when the function is entered.\<close>

definition VENDOR_LEN :: nat where "VENDOR_LEN = 16"
definition MODEL_LEN :: nat where "MODEL_LEN = 64"

record cpu_info =
  vendor_id :: "byte list"
  model_id :: "byte list"
  cache_size :: "byte list"

definition cpu_info_bytes :: "cpu_info \<Rightarrow> byte list" where
  "cpu_info_bytes c = vendor_id c @ model_id c @ cache_size c"

text \<open>
  \<open>sprintf\<close> of a string into an array; \<open>x86_vendor\<close>, \<open>x86_model\<close> and \<open>x86_cache\<close> are the fields of \<open>boot_cpu_data\<close>, the first two
  as strings. \<open>ok\<close> is the answer of \<open>access_ok\<close>. The result is the returned number and the bytes that reached the user.
\<close>

definition sprintf_str :: "byte list \<Rightarrow> byte list \<Rightarrow> byte list exec" where
  "sprintf_str arr str = mem_write arr 0 (str @ [0])"

definition sys_get_cpu_info ::
  "cpu_info \<Rightarrow> byte list \<Rightarrow> byte list \<Rightarrow> byte list \<Rightarrow> bool \<Rightarrow> nat \<Rightarrow> (int \<times> byte list) exec" where
  "sys_get_cpu_info stack x86_vendor x86_model x86_cache ok left =
     kbind (sprintf_str (vendor_id stack) x86_vendor) (\<lambda>v.
     kbind (sprintf_str (model_id stack) x86_model) (\<lambda>m.
       let src = \<lparr>vendor_id = v, model_id = m, cache_size = x86_cache\<rparr>
       in if \<not> ok then Done (-1, []) else Done (0, snd (copy_to_user left (cpu_info_bytes src)))))"

text \<open>
  The call fills in the three fields for strings that fit with their \<open>NUL\<close>; a longer one overflows its array. What lies behind the strings in the arrays is
  whatever was on the kernel's stack, and is copied to the user with them.
\<close>

theorem get_cpu_info_fields:
  assumes "length (vendor_id stack) = VENDOR_LEN" and "length (model_id stack) = MODEL_LEN"
  shows "(length v < VENDOR_LEN \<and> length m < MODEL_LEN \<longrightarrow>
      sys_get_cpu_info stack v m c True 0 =
        Done (0, v @ 0 # drop (Suc (length v)) (vendor_id stack) @ m @ 0 # drop (Suc (length m)) (model_id stack) @ c)) \<and>
    (VENDOR_LEN \<le> length v \<or> MODEL_LEN \<le> length m \<longrightarrow> sys_get_cpu_info stack v m c ok left = Oops OutOfBounds)"
proof -
  have fits: "sprintf_str arr s = Done (s @ 0 # drop (Suc (length s)) arr)" if "length s < length arr" for arr s
    using mem_write_overlay [of 0 "s @ [0]" arr] that by (simp add: sprintf_str_def overlay_def)
  have long: "sprintf_str arr s = Oops OutOfBounds" if "\<not> length s < length arr" for arr s
    using that by (simp add: sprintf_str_def mem_write_def)
  show ?thesis
    using assms fits [of v "vendor_id stack"] fits [of m "model_id stack"] long [of v "vendor_id stack"] long [of m "model_id stack"]
    by (cases "length v < VENDOR_LEN") (auto simp: sys_get_cpu_info_def cpu_info_bytes_def)
qed

section \<open>The table of system calls\<close>

text \<open>
  \<open>mem p\<close> is the word at the address \<open>p\<close>, \<open>None\<close> if the address is not mapped. \<open>__NR_close\<close> is 3.
\<close>

definition START_CHECK :: int where "START_CHECK = 0xffffffff81000000"
definition END_CHECK :: int where "END_CHECK = 0xffffffffa2000000"
definition NR_close :: int where "NR_close = 3"

function find_from :: "(int \<Rightarrow> int option) \<Rightarrow> int \<Rightarrow> int \<Rightarrow> int option exec" where
  "find_from mem ksys_close ptr =
     (if ptr < END_CHECK
      then (case mem (ptr + 8 * NR_close) of
              None \<Rightarrow> Oops OutOfBounds
            | Some w \<Rightarrow> if w = ksys_close then Done (Some ptr) else find_from mem ksys_close (ptr + 8))
      else Done None)"
  by pat_completeness auto
termination by (relation "measure (\<lambda>(mem, c, ptr). nat (END_CHECK - ptr))") auto

declare find_from.simps [simp del]

definition find_system_call_table :: "(int \<Rightarrow> int option) \<Rightarrow> int \<Rightarrow> int option exec" where
  "find_system_call_table mem ksys_close = find_from mem ksys_close START_CHECK"

lemma find_from_first:
  assumes "\<And>k. k < n \<Longrightarrow> \<exists>w. mem (ptr + 8 * int k + 8 * NR_close) = Some w \<and> w \<noteq> c"
    and "ptr + 8 * int n < END_CHECK" and "mem (ptr + 8 * int n + 8 * NR_close) = Some c"
  shows "find_from mem c ptr = Done (Some (ptr + 8 * int n))"
  using assms
proof (induction n arbitrary: ptr)
  case 0
  then show ?case by (simp add: find_from.simps)
next
  case (Suc n)
  obtain w where w: "mem (ptr + 8 * NR_close) = Some w" "w \<noteq> c" using Suc.prems(1) [of 0] by auto
  have "find_from mem c (ptr + 8) = Done (Some (ptr + 8 + 8 * int n))"
  proof (rule Suc.IH)
    show "\<exists>w. mem (ptr + 8 + 8 * int k + 8 * NR_close) = Some w \<and> w \<noteq> c" if "k < n" for k
      using Suc.prems(1) [of "Suc k"] that by (simp add: algebra_simps)
  qed (use Suc.prems(2,3) in \<open>simp_all add: algebra_simps\<close>)
  then show ?case using w Suc.prems(2) by (simp add: find_from.simps [of mem c ptr] algebra_simps)
qed

text \<open>
  The search returns the first place in its range from which the entry for \<open>close\<close> is the kernel's function, provided that the
  memory up to there can be read; the table itself is found if no earlier place happens to look like it.
\<close>

theorem find_table_first:
  assumes "START_CHECK + 8 * int n < END_CHECK"
    and "\<And>k. k \<le> n \<Longrightarrow> mem (START_CHECK + 8 * int k + 8 * NR_close) \<noteq> None"
    and "mem (START_CHECK + 8 * int n + 8 * NR_close) = Some c"
  shows "\<exists>k \<le> n. find_system_call_table mem c = Done (Some (START_CHECK + 8 * int k)) \<and>
    mem (START_CHECK + 8 * int k + 8 * NR_close) = Some c \<and>
    (\<forall>j < k. mem (START_CHECK + 8 * int j + 8 * NR_close) \<noteq> Some c)"
proof -
  define k where "k = (LEAST k. mem (START_CHECK + 8 * int k + 8 * NR_close) = Some c)"
  have k: "mem (START_CHECK + 8 * int k + 8 * NR_close) = Some c" "k \<le> n"
    unfolding k_def by (rule LeastI, rule assms(3)) (rule Least_le, rule assms(3))
  have before: "mem (START_CHECK + 8 * int j + 8 * NR_close) \<noteq> Some c" if "j < k" for j
    using that not_less_Least unfolding k_def by blast
  have "\<exists>w. mem (START_CHECK + 8 * int j + 8 * NR_close) = Some w \<and> w \<noteq> c" if "j < k" for j
    using before [OF that] assms(2) [of j] k(2) that by auto
  from find_from_first [where n = k and ptr = START_CHECK and mem = mem and c = c, OF this _ k(1)] have "find_system_call_table mem c = Done (Some (START_CHECK + 8 * int k))"
    using assms(1) k(2) by (simp add: find_system_call_table_def)
  with k before show ?thesis by blast
qed

section \<open>Small functions\<close>

definition callee_add :: "int \<Rightarrow> int \<Rightarrow> int" where "callee_add a b = s32 (a + b)"
definition callee_sub :: "int \<Rightarrow> int \<Rightarrow> int" where "callee_sub a b = s32 (a - b)"

lemma callee_add_sub: "- (2 ^ 31) \<le> a \<Longrightarrow> a < 2 ^ 31 \<Longrightarrow> callee_sub (callee_add a b) b = a"
proof -
  assume r: "- (2 ^ 31) \<le> a" "a < 2 ^ 31"
  have "signed_take_bit 31 (signed_take_bit 31 (a + b) - b) =
      signed_take_bit 31 (signed_take_bit 31 (signed_take_bit 31 (a + b)) - signed_take_bit 31 b)" by (simp only: signed_take_bit_diff)
  also have "\<dots> = signed_take_bit 31 (signed_take_bit 31 (a + b) - signed_take_bit 31 b)" by simp
  also have "\<dots> = signed_take_bit 31 (a + b - b)" by (simp only: signed_take_bit_diff)
  finally have "s32 (s32 (a + b) - b) = s32 a" by (simp add: s32_def)
  then show ?thesis using r by (simp add: callee_add_def callee_sub_def s32_id)
qed

text \<open>The attribute \<open>val\<close> of the two debugfs modules: the state has 32 bits, the value that is set 64.\<close>

definition debug_stat_get :: "int \<Rightarrow> int" where "debug_stat_get st = st"
definition debug_stat_set :: "int \<Rightarrow> int" where "debug_stat_set val = u32 val"

lemma debug_stat_roundtrip: "0 \<le> v \<Longrightarrow> v < 2 ^ 32 \<Longrightarrow> debug_stat_get (debug_stat_set v) = v"
  by (simp add: debug_stat_get_def debug_stat_set_def u32_id)

end
