(* ===== verification/Programs.thy ===== *)
theory Programs
  imports Char_Dev Syscalls
begin

text \<open>
  The programs that come with the modules, run against the models of the drivers:
  \<^verbatim>\<open>m_modules/mm/mmap_app.c\<close>, \<^verbatim>\<open>m_modules/char_dev/chardev_app.c\<close>, \<^verbatim>\<open>ioctl_app.c\<close> and \<^verbatim>\<open>md5_app.c\<close>, and
  \<^verbatim>\<open>linux/test_syscall.c\<close>. A program is the sequence of its system calls; what it prints is a list of the
  values that its calls of \<open>printf\<close> show. An uninitialised variable holds whatever its memory held before, a
  parameter.
\<close>

section \<open>Integers in memory\<close>

text \<open>An \<open>int\<close> is four bytes, the least significant first.\<close>

definition int_mem :: "int \<Rightarrow> byte list" where
  "int_mem v = le_bytes 4 (nat (u32 v))"

definition mem_int :: "byte list \<Rightarrow> int" where
  "mem_int bs = s32 (int (le_val bs))"

lemma length_int_mem [simp]: "length (int_mem v) = 4"
  by (simp add: int_mem_def)

lemma mem_int_int_mem: "mem_int (int_mem v) = s32 v"
proof -
  have "int (le_val (int_mem v)) = u32 v"
    using u32_range [of v] by (simp add: int_mem_def le_val_le_bytes nat_mod_as_int)
  moreover have "s32 (u32 v) = s32 v" by (simp add: s32_def u32_def signed_take_bit_take_bit)
  ultimately show ?thesis by (simp add: mem_int_def)
qed

section \<open>\<^verbatim>\<open>mmap_app.c\<close>\<close>

definition create_data :: "mmap_state \<Rightarrow> mmap_state exec" where
  "create_data s = kbind (write_ints s (map (\<lambda>i. int_mem (int i)) [0..<10]) 0) (\<lambda>(s, off). Done s)"

text \<open>The loop of \<open>display_data\<close>: \<open>data\<close> is the memory of the variable, the result the numbers printed.\<close>

fun display_loop :: "mmap_state \<Rightarrow> nat \<Rightarrow> int \<Rightarrow> byte list \<Rightarrow> int list exec" where
  "display_loop s 0 off data = Done []"
| "display_loop s (Suc k) off data =
     kbind (mmap_read 0 s 4 off) (\<lambda>(off, r, bs).
       let data = (case r of Inl e \<Rightarrow> data | Inr n \<Rightarrow> bs) in
       kbind (display_loop s k off data) (\<lambda>rest. Done (if r = Inr 4 then mem_int data # rest else rest)))"

definition display_data :: "mmap_state \<Rightarrow> int list exec" where
  "display_data s = display_loop s 10 0 (int_mem 0)"

definition change_data :: "byte list \<Rightarrow> mmap_state \<Rightarrow> mmap_state exec" where
  "change_data garbage s =
     kbind (mmap_read 0 s 4 0) (\<lambda>(off, r, bs).
       let data = (case r of Inl e \<Rightarrow> garbage | Inr n \<Rightarrow> bs) in
       kbind (mmap_write 0 s (int_mem (mem_int data + 100)) off) (\<lambda>(s, off, r). Done s))"

text \<open>
  \<open>mmap_data\<close>: the mapping is at the address \<open>v\<close>, the start of a page. The first access, at \<open>v + 28\<close>, faults; the
  handler is given the address of the page, \<open>v\<close>, and brings in a page of the allocation; \<open>None\<close> is the end of the process by a signal. The result of \<open>mmap\<close> is compared with
  \<open>NULL\<close>, which it never returns for an error.
\<close>

definition mmap_data :: "int \<Rightarrow> mmap_state \<Rightarrow> mmap_state option exec" where
  "mmap_data v s =
     (case mmap_remap s of
        (s, Inl e) \<Rightarrow> Done None
      | (s, Inr u) \<Rightarrow>
          kbind (mmap_vm_fault s (Some (v, v))) (\<lambda>f.
            case f of
              Inl sigbus \<Rightarrow> Done None
            | Inr page \<Rightarrow>
                (case mm_data s of
                   None \<Rightarrow> Oops NullDeref
                 | Some (a, m) \<Rightarrow>
                     kbind (mem_read m (page * PAGE_SIZE + 28) 4) (\<lambda>bs.
                     kbind (mem_write m (page * PAGE_SIZE + 28) (int_mem (mem_int bs + 200))) (\<lambda>m.
                       Done (Some (mmap_vma_close (s\<lparr>mm_data := Some (a, m)\<rparr>))))))))"

definition mmap_app_main :: "int \<Rightarrow> byte list \<Rightarrow> mmap_state \<Rightarrow> (mmap_state option \<times> int list list) exec" where
  "mmap_app_main v garbage s =
     kbind (create_data s) (\<lambda>s.
     kbind (display_data s) (\<lambda>d1.
     kbind (change_data garbage s) (\<lambda>s.
     kbind (display_data s) (\<lambda>d2.
     kbind (mmap_data v s) (\<lambda>r.
       case r of
         None \<Rightarrow> Done (None, [d1, d2])
       | Some s \<Rightarrow> kbind (display_data s) (\<lambda>d3. Done (Some s, [d1, d2, d3])))))))"

section \<open>\<^verbatim>\<open>chardev_app.c\<close>\<close>

datatype app_line = Perror string | Printed "byte list"

definition hello5 :: "byte list" where
  "hello5 = [0x68, 0x65, 0x6C, 0x6C, 0x6F]"

text \<open>
  After a failed open the descriptor is negative and every other call fails. \<open>buf\<close> is static, so it starts
  out as zeros.
\<close>

definition chardev_app_main :: "kmalloc \<Rightarrow> app_line list exec" where
  "chardev_app_main km =
     (case chardev_open km of
        Inl e \<Rightarrow> Done [Perror ''open error'', Perror ''write error'', Perror ''read error'', Perror ''close error'']
      | Inr file \<Rightarrow>
          kbind (chardev_write 0 file hello5) (\<lambda>(file, w).
          kbind (chardev_read 0 file 5) (\<lambda>(r, out).
            let werr = (case w of Inl e \<Rightarrow> [Perror ''write error''] | Inr n \<Rightarrow> []) in
            kbind (mem_write (replicate 1024 0) 0 out) (\<lambda>buf.
              case r of
                Inl e \<Rightarrow> Done (werr @ [Perror ''read error''])
              | Inr n \<Rightarrow> kbind (c_str buf) (\<lambda>str. Done (werr @ [Printed str]))))))"

section \<open>\<^verbatim>\<open>ioctl_app.c\<close>\<close>

definition pr0gr4m :: "byte list" where
  "pr0gr4m = [0x70, 0x72, 0x30, 0x67, 0x72, 0x34, 0x6D, 0x2E, 0x30, 0x78, 0x46]"

text \<open>
  The lines that the program prints, \<open>size\<close> and \<open>buf\<close>. \<open>set_stack\<close> and \<open>get_stack\<close> are what the memory of
  \<open>set_info\<close> and \<open>get_info\<close> holds at first, \<open>info\<close> is the structure of the driver. The call of \<open>strncpy\<close> copies
  the eleven bytes of the text and no zero byte behind them.
\<close>

definition ioctl_app_main :: "byte list \<Rightarrow> byte list \<Rightarrow> byte list \<Rightarrow> (nat \<times> byte list) list exec" where
  "ioctl_app_main set_stack get_stack info =
     kbind (mem_write (info_buf set_stack) 0 pr0gr4m) (\<lambda>buf.
     let set_info = le_bytes 8 100 @ buf in
     kbind (chardev_ioctl 0 0 info IOCTL_WRITE set_info) (\<lambda>(info, r1, o1).
     kbind (chardev_ioctl 0 0 info IOCTL_READ get_stack) (\<lambda>(info, r2, o2).
     let get_info = (case r2 of Inl e \<Rightarrow> get_stack | Inr u \<Rightarrow> o2) in
     kbind (c_str (info_buf get_info)) (\<lambda>str1.
     kbind (chardev_ioctl 0 0 info IOCTL_STATUS []) (\<lambda>(info, r3, o3).
     kbind (chardev_ioctl 0 0 info IOCTL_RW get_info) (\<lambda>(info, r4, o4).
     let get_info' = (case r4 of Inl e \<Rightarrow> get_info | Inr u \<Rightarrow> o4) in
     kbind (c_str (info_buf get_info')) (\<lambda>str2.
       Done [(le_val (info_size get_info), str1), (le_val (info_size get_info'), str2)])))))))"

section \<open>\<^verbatim>\<open>md5_app.c\<close>\<close>

text \<open>
  The state of the device afterwards and the bytes that \<open>hexdump\<close> prints; \<open>None\<close> is the exit without an argument or
  after a failed open. \<open>read\<close> copies the digest into the first bytes of the cleared buffer.
\<close>

definition app_hexdump :: "byte list \<Rightarrow> nat \<Rightarrow> byte list exec" where
  "app_hexdump buf len = mem_read buf 0 (int len)"

definition md5_app_main ::
  "crypto_env \<Rightarrow> addr option \<Rightarrow> md5_state \<Rightarrow> byte list option \<Rightarrow> (md5_state \<times> byte list option) exec" where
  "md5_app_main env mem s argv1 =
     (case argv1 of
        None \<Rightarrow> Done (s, None)
      | Some arg \<Rightarrow>
          (case virtual_device_open s of
             (s, Inl e) \<Rightarrow> Done (s, None)
           | (s, Inr u) \<Rightarrow>
               kbind (virtual_device_write 0 s arg) (\<lambda>(s, w).
               kbind (virtual_device_read env mem 0 s 16) (\<lambda>(r, out, t).
               kbind (mem_write (replicate 16 0) 0 out) (\<lambda>buf.
               kbind (app_hexdump buf 16) (\<lambda>ls.
                 Done (fst (virtual_device_release s), Some ls)))))))"

section \<open>\<^verbatim>\<open>test_syscall.c\<close>\<close>

text \<open>
  What the program prints: the two numbers of \<open>mycall\<close>, the result of \<open>get_cpu_info\<close>, and the fields of the
  structure. \<open>sum0\<close> and \<open>info\<close> are the initial contents of the two variables.
\<close>

definition test_syscall_main ::
  "int \<Rightarrow> byte list \<Rightarrow> cpu_info \<Rightarrow> byte list \<Rightarrow> byte list \<Rightarrow> byte list \<Rightarrow> ((int \<times> int) \<times> int \<times> byte list \<times> byte list \<times> nat) exec" where
  "test_syscall_main sum0 info stack x86_vendor x86_model x86_cache =
     (case sys_mycall False 10 20 of
        (ret1, stored) \<Rightarrow>
          let s = (case stored of None \<Rightarrow> sum0 | Some v \<Rightarrow> v) in
          kbind (sys_get_cpu_info stack x86_vendor x86_model x86_cache True 0) (\<lambda>(ret2, out).
          kbind (mem_write info 0 out) (\<lambda>info.
          kbind (c_str info) (\<lambda>vendor.
          kbind (c_str (drop VENDOR_LEN info)) (\<lambda>model.
            Done ((ret1, s), ret2, vendor, model, le_val (take 4 (drop (VENDOR_LEN + MODEL_LEN) info))))))))"

section \<open>The device as an array of integers\<close>

definition mm_word :: "mmap_state \<Rightarrow> nat \<Rightarrow> int" where
  "mm_word s i = mem_int (take 4 (drop (4 * i) (mm_bytes s)))"

lemma mmap_ready_bytes: "mmap_ready s \<Longrightarrow> length (mm_bytes s) = 4096"
  by (auto simp: mmap_ready_def mm_bytes_def)

lemma mm_word_overlay:
  assumes "mmap_ready s" and "p < 1024" and "mm_bytes s' = overlay (mm_bytes s) (4 * p) (int_mem v)"
  shows "mm_word s' = (mm_word s)(p := s32 v)"
proof
  fix i
  have len: "4 * p + length (int_mem v) \<le> length (mm_bytes s)" using assms(2) mmap_ready_bytes [OF assms(1)] by simp
  show "mm_word s' i = ((mm_word s)(p := s32 v)) i"
  proof (cases "i = p")
    case True
    then show ?thesis using read_overlay [OF len] by (simp add: mm_word_def assms(3) mem_int_int_mem)
  next
    case False
    then have "4 * i + 4 \<le> 4 * p \<or> 4 * p + 4 \<le> 4 * i" by linarith
    then show ?thesis using False read_overlay_other [OF len, of "4 * i" 4] by (simp add: mm_word_def assms(3))
  qed
qed

lemma mmap_write_word:
  assumes "mmap_ready s" and "p < 1024"
  obtains s' where "mmap_write 0 s (int_mem v) (int p) = Done (s', int (p + 1), Inr 4)" "mmap_ready s'"
    "mm_word s' = (mm_word s)(p := s32 v)"
proof -
  from mmap_write_in_range [OF assms(1), of p "int_mem v"] assms(2) obtain s' where
    "mmap_write 0 s (int_mem v) (int p) = Done (s', int (p + 1), Inr 4)" "mmap_ready s'"
    "mm_bytes s' = overlay (mm_bytes s) (4 * p) (int_mem v)" by auto
  then show thesis using that mm_word_overlay [OF assms] by blast
qed

lemma mmap_read_word:
  assumes "mmap_ready s" and "p < 1024"
  obtains bs where "mmap_read 0 s 4 (int p) = Done (int (p + 1), Inr 4, bs)" "mem_int bs = mm_word s p"
proof -
  obtain a m where m: "mm_data s = Some (a, m)" "length m = 4096" "mm_bytes s = m"
    using assms(1) by (auto simp: mmap_ready_def mm_bytes_def)
  have np: "nat (4 * int p) = 4 * p" by linarith
  have "mmap_read 0 s 4 (int p) = Done (int (p + 1), Inr 4, take 4 (drop (4 * p) m))"
    using m np assms(2) by (simp add: mmap_read_def DATA_SIZE_def mem_read_def s64_nonneg)
  then show thesis using that m(3) by (simp add: mm_word_def)
qed

lemma write_ints_words:
  assumes "mmap_ready s" and "p + length vs \<le> 1024"
  shows "\<exists>s'. write_ints s (map int_mem vs) (int p) = Done (s', int (p + length vs)) \<and> mmap_ready s' \<and>
    (\<forall>i. mm_word s' i = (if p \<le> i \<and> i < p + length vs then s32 (vs ! (i - p)) else mm_word s i))"
  using assms
proof (induction vs arbitrary: s p)
  case (Cons v vs)
  from mmap_write_word [OF Cons.prems(1), of p v] Cons.prems(2) obtain s1 where
    s1: "mmap_write 0 s (int_mem v) (int p) = Done (s1, int (p + 1), Inr 4)" "mmap_ready s1"
    "mm_word s1 = (mm_word s)(p := s32 v)" by auto
  from Cons.IH [OF s1(2), of "p + 1"] Cons.prems(2) obtain s2 where
    s2: "write_ints s1 (map int_mem vs) (int (p + 1)) = Done (s2, int (p + 1 + length vs))" "mmap_ready s2"
    "\<forall>i. mm_word s2 i = (if p + 1 \<le> i \<and> i < p + 1 + length vs then s32 (vs ! (i - (p + 1))) else mm_word s1 i)" by auto
  have "mm_word s2 i = (if p \<le> i \<and> i < p + length (v # vs) then s32 ((v # vs) ! (i - p)) else mm_word s i)" for i
    using s2(3) s1(3) by (auto simp: nth_Cons' Suc_diff_le not_le less_Suc_eq_le intro: le_antisym)
  then show ?case using s1(1) s2(1,2) by simp
qed simp

lemma display_words:
  "mmap_ready s \<Longrightarrow> p + k \<le> 1024 \<Longrightarrow> display_loop s k (int p) data = Done (map (mm_word s) [p..<p + k])"
proof (induction k arbitrary: p data)
  case (Suc k)
  from mmap_read_word [OF Suc.prems(1), of p] Suc.prems(2) obtain bs where
    "mmap_read 0 s 4 (int p) = Done (int (p + 1), Inr 4, bs)" "mem_int bs = mm_word s p" by auto
  moreover have "[p..<p + Suc k] = p # [p + 1..<p + 1 + k]" by (simp add: upt_conv_Cons del: upt_Suc)
  ultimately show ?case using Suc.IH [of "p + 1" bs] Suc.prems by (simp del: upt_Suc)
qed simp

lemma create_words:
  assumes "mmap_ready s"
  obtains s' where "create_data s = Done s'" "mmap_ready s'" "\<forall>i<10. mm_word s' i = int i"
proof -
  have m: "map (\<lambda>i. int_mem (int i)) [0..<10] = map int_mem (map int [0..<10])" by simp
  from write_ints_words [OF assms, of 0 "map int [0..<10]"] obtain s' where
    "write_ints s (map int_mem (map int [0..<10])) 0 = Done (s', 10)" "mmap_ready s'"
    "\<forall>i<10. mm_word s' i = s32 (int i)" by (auto simp del: upt_rec_numeral)
  then show thesis by (intro that [of s']) (simp_all add: create_data_def m width_simps del: upt_rec_numeral)
qed

lemma change_words:
  assumes "mmap_ready s"
  obtains s' where "change_data garbage s = Done s'" "mmap_ready s'" "mm_word s' = (mm_word s)(1 := s32 (mm_word s 0 + 100))"
proof -
  from mmap_read_word [OF assms, of 0] obtain bs where
    r: "mmap_read 0 s 4 0 = Done (1, Inr 4, bs)" "mem_int bs = mm_word s 0" by auto
  from mmap_write_word [OF assms, of 1 "mm_word s 0 + 100"] obtain s' where
    "mmap_write 0 s (int_mem (mm_word s 0 + 100)) 1 = Done (s', 2, Inr 4)" "mmap_ready s'"
    "mm_word s' = (mm_word s)(1 := s32 (mm_word s 0 + 100))" by auto
  with r show thesis by (intro that [of s']) (simp_all add: change_data_def)
qed

lemma mapped_words:
  assumes "mmap_ready s"
  obtains s' where "mmap_data v s = Done (Some s')" "mmap_ready s'" "mm_word s' = (mm_word s)(7 := s32 (mm_word s 7 + 200))"
    "mm_counter s' = s32 (s32 (mm_counter s + 1) - 1)"
proof -
  obtain a m where m: "mm_data s = Some (a, m)" "length m = 4096" "mm_bytes s = m"
    using assms by (auto simp: mmap_ready_def mm_bytes_def)
  let ?x = "int_mem (mm_word s 7 + 200)"
  let ?s = "mmap_vma_close ((mmap_vma_open s)\<lparr>mm_data := Some (a, overlay m 28 ?x)\<rparr>)"
  have f: "mmap_vm_fault (mmap_vma_open s) (Some (v, v)) = Done (Inr 0)"
    using m by (auto simp: mmap_vm_fault_def mmap_vma_open_def DATA_SIZE_def u64_def)
  have "mem_read m 28 4 = Done (take 4 (drop 28 m))" using m(2) by (simp add: mem_read_def)
  moreover have "mem_int (take 4 (drop 28 m)) = mm_word s 7" by (simp add: mm_word_def m(3))
  moreover have "mem_write m 28 ?x = Done (overlay m 28 ?x)" using mem_write_overlay [of 28 ?x m] m(2) by simp
  ultimately have "mmap_data v s = Done (Some ?s)"
    using f m(1) by (simp add: mmap_data_def mmap_remap_def) (simp add: mmap_vma_open_def)
  moreover have "mmap_ready ?s" using m(2) by (simp add: mmap_ready_def mmap_vma_close_def)
  moreover have "mm_word ?s = (mm_word s)(7 := s32 (mm_word s 7 + 200))"
    using m(3) by (intro mm_word_overlay [OF assms]) (simp_all add: mm_bytes_def mmap_vma_close_def)
  ultimately show thesis by (intro that [of ?s]) (simp_all add: mmap_vma_close_def mmap_vma_open_def)
qed

text \<open>Reading and writing do not count as mappings.\<close>

lemma mmap_write_counter: "mmap_write left s buf off = Done (s', off', r) \<Longrightarrow> mm_counter s' = mm_counter s"
  by (auto simp: mmap_write_def exec_simps split: option.splits)

lemma write_ints_counter: "write_ints s xs off = Done (s', off') \<Longrightarrow> mm_counter s' = mm_counter s"
  by (induction xs arbitrary: s off) (auto simp: kbind_eq_Done dest: mmap_write_counter)

lemma data_counter:
  "create_data s = Done s' \<Longrightarrow> mm_counter s' = mm_counter s" "change_data g s = Done s' \<Longrightarrow> mm_counter s' = mm_counter s"
  by (auto simp: create_data_def change_data_def Let_def kbind_eq_Done dest!: write_ints_counter mmap_write_counter)

text \<open>
  C39. The test program of the mmap device, run against the driver as loading leaves it, whatever its
  page held: it shows the ten numbers that it has written; then the second one replaced by the first plus
  100, because the read before has moved the position; and at last the eighth one plus 200, stored through the
  mapping. The mapping is counted and discounted.
\<close>

theorem mmap_app_output:
  assumes "mmap_init env = Done (Some m, t)"
  shows "\<exists>s'. mmap_app_main v garbage (mmap_loaded m) = Done (Some s',
      [[0, 1, 2, 3, 4, 5, 6, 7, 8, 9], [0, 100, 2, 3, 4, 5, 6, 7, 8, 9], [0, 100, 2, 3, 4, 5, 6, 207, 8, 9]]) \<and>
    mmap_ready s' \<and> mm_counter s' = s32 (s32 (mm_counter (mmap_loaded m) + 1) - 1)"
proof -
  have up: "[0..<10] = [0, 1, 2, 3, 4, 5, 6, 7, 8, 9::nat]" by (simp add: upt_rec)
  have d: "display_data s = Done (map (mm_word s) [0, 1, 2, 3, 4, 5, 6, 7, 8, 9])" if "mmap_ready s" for s
    using display_words [OF that, of 0 10 "int_mem 0"] unfolding display_data_def by (simp del: upt_rec_numeral add: up)
  obtain s1 where s1: "create_data (mmap_loaded m) = Done s1" "mmap_ready s1" "\<forall>i<10. mm_word s1 i = int i"
    using create_words [OF mmap_loaded_ready [OF assms]] .
  obtain s2 where s2: "change_data garbage s1 = Done s2" "mmap_ready s2" "mm_word s2 = (mm_word s1)(1 := s32 (mm_word s1 0 + 100))"
    using change_words [OF s1(2)] .
  obtain s3 where s3: "mmap_data v s2 = Done (Some s3)" "mmap_ready s3" "mm_word s3 = (mm_word s2)(7 := s32 (mm_word s2 7 + 200))"
    "mm_counter s3 = s32 (s32 (mm_counter s2 + 1) - 1)"
    using mapped_words [OF s2(2), of v] .
  have "mm_counter s2 = mm_counter (mmap_loaded m)" using data_counter [of _ s1] data_counter [of _ s2] s1(1) s2(1) by simp
  then show ?thesis
    using s1 s2 s3 d [OF s1(2)] d [OF s2(2)] d [OF s3(2)] by (simp add: mmap_app_main_def width_simps)
qed

theorem mmap_app_output_witness:
  "\<exists>m t s'. mmap_init \<lparr>ce_cdev = Some 1, ce_region = Inr 240, ce_add = True, ce_class = Inr 2, ce_mem = Some 3\<rparr> = Done (Some m, t) \<and>
     mmap_app_main 65536 [1, 2, 3, 4] (mmap_loaded m) = Done (Some s',
      [[0, 1, 2, 3, 4, 5, 6, 7, 8, 9], [0, 100, 2, 3, 4, 5, 6, 7, 8, 9], [0, 100, 2, 3, 4, 5, 6, 207, 8, 9]])"
proof -
  let ?env = "\<lparr>ce_cdev = Some 1, ce_region = Inr 240, ce_add = True, ce_class = Inr 2, ce_mem = Some 3\<rparr>"
  obtain m t where i: "mmap_init ?env = Done (Some m, t)" by (simp add: account_simps)
  from mmap_app_output [OF i, of 65536 "[1, 2, 3, 4]"] i show ?thesis by blast
qed

section \<open>The output of the other programs\<close>

lemma takeWhile_text: "0 \<notin> set (xs :: byte list) \<Longrightarrow> takeWhile (\<lambda>b. b \<noteq> 0) (xs @ ys) = xs @ takeWhile (\<lambda>b. b \<noteq> 0) ys"
  by (subst takeWhile_append2) auto

lemma overlay_start: "length bs \<le> length m \<Longrightarrow> overlay m 0 bs = bs @ drop (length bs) m"
  by (simp add: overlay_def)

text \<open>
  C40. The test program of the ioctl device. \<open>strncpy\<close> puts no zero byte behind the text, so what is printed
  depends on the memory that \<open>set_info\<close> happened to have: the text goes on to the first zero byte there. If it
  finds one early enough, the program prints the text with 100, and then the text with the word that
  the driver appends and 106; otherwise the program reads, or the driver writes, past the end of a buffer.
\<close>

theorem ioctl_app_output:
  assumes "length set_stack = SIZEOF_INFO"
  shows "let rest = drop 11 (info_buf set_stack); str = pr0gr4m @ takeWhile (\<lambda>b. b \<noteq> 0) rest in
    ioctl_app_main set_stack get_stack info =
      (if 0 \<in> set rest \<and> length str \<le> 121 then Done [(100, str), (106, str @ hello)] else Oops OutOfBounds)"
proof -
  define rest where "rest = drop 11 (info_buf set_stack)"
  define str where "str = pr0gr4m @ takeWhile (\<lambda>b. b \<noteq> 0) rest"
  let ?set = "le_bytes 8 100 @ pr0gr4m @ rest"
  have len: "length (info_buf set_stack) = 128" using assms by (simp add: info_buf_def SIZEOF_INFO_def)
  have p: "length pr0gr4m = 11" "0 \<notin> set pr0gr4m" by (simp_all add: pr0gr4m_def)
  have w: "mem_write (info_buf set_stack) 0 pr0gr4m = Done (pr0gr4m @ rest)"
    using mem_write_overlay [of 0 pr0gr4m "info_buf set_stack"] len p(1) by (simp add: overlay_start rest_def)
  have set: "length ?set = SIZEOF_INFO" "info_buf ?set = pr0gr4m @ rest" "le_val (info_size ?set) = 100"
    using len p(1) by (simp_all add: SIZEOF_INFO_def rest_def info_buf_def info_size_def le_val_le_bytes)
  have tw: "takeWhile (\<lambda>b. b \<noteq> 0) (info_buf ?set) = str" "0 \<in> set (info_buf ?set) \<longleftrightarrow> 0 \<in> set rest"
    using takeWhile_text [OF p(2)] p(2) by (simp_all add: set(2) str_def)
  note spec = chardev_ioctl_spec [OF set(1)]
  have st: "chardev_ioctl 0 0 i IOCTL_STATUS u = kbind (c_str (info_buf i)) (\<lambda>_. Done (i, Inr (), []))" for i u
    by (simp add: chardev_ioctl_def IOCTL_READ_def IOCTL_WRITE_def IOCTL_STATUS_def ioc_defs)
  have "ioctl_app_main set_stack get_stack info =
      kbind (c_str (info_buf ?set)) (\<lambda>str1. kbind (chardev_ioctl 0 0 ?set IOCTL_RW ?set) (\<lambda>(info, r4, o4).
        kbind (c_str (info_buf (case r4 of Inl e \<Rightarrow> ?set | Inr u \<Rightarrow> o4))) (\<lambda>str2.
          Done [(100, str1), (le_val (info_size (case r4 of Inl e \<Rightarrow> ?set | Inr u \<Rightarrow> o4)), str2)])))"
    using spec set(3) by (cases "c_str (info_buf ?set)") (simp_all add: ioctl_app_main_def w st Let_def cong: sum.case_cong)
  moreover have "c_str (info_buf ?set) = (if 0 \<in> set rest then Done str else Oops OutOfBounds)"
    unfolding c_str_def tw ..
  moreover have "\<exists>out. chardev_ioctl 0 0 ?set IOCTL_RW ?set = Done (out, Inr (), out) \<and> le_val (info_size out) = 106 \<and>
      c_str (info_buf out) = Done (str @ hello)" if "0 \<in> set rest" "length str \<le> 121"
    using spec [of ?set "[]" IOCTL_READ 0 0] that unfolding tw set(3) by (auto simp: hello_def)
  moreover have "chardev_ioctl 0 0 ?set IOCTL_RW ?set = Oops OutOfBounds" if "\<not> (0 \<in> set rest \<and> length str \<le> 121)"
    using spec [of ?set "[]" IOCTL_READ 0 0] that unfolding tw by blast
  ultimately have "ioctl_app_main set_stack get_stack info =
      (if 0 \<in> set rest \<and> length str \<le> 121 then Done [(100, str), (106, str @ hello)] else Oops OutOfBounds)"
    by (cases "0 \<in> set rest \<and> length str \<le> 121") auto
  then show ?thesis by (simp add: Let_def rest_def str_def)
qed

theorem ioctl_app_output_witness:
  "ioctl_app_main (replicate 136 0) (replicate 136 1) [] = Done [(100, pr0gr4m), (106, pr0gr4m @ hello)]"
proof -
  have "info_buf (replicate 136 0) = replicate 128 0" by (simp add: info_buf_def)
  moreover have "takeWhile (\<lambda>b. b \<noteq> 0) (replicate 117 (0::byte)) = []" by (subst takeWhile_eq_Nil_iff) simp
  moreover have "length pr0gr4m \<le> 121" by (simp add: pr0gr4m_def)
  ultimately show ?thesis
    using ioctl_app_output [of "replicate 136 0" "replicate 136 1" "[]"] by (simp add: SIZEOF_INFO_def Let_def)
qed

text \<open>
  The test program of \<^verbatim>\<open>chardev.c\<close> gets its text back, provided that the uncleared buffer of the driver has a zero
  byte behind it, for the messages of the driver.
\<close>

theorem chardev_app_output:
  assumes "km 0 BUF_LEN = Some (a, m)" and "length m = nat BUF_LEN"
  shows "(0 \<in> set (drop 5 m) \<longrightarrow> chardev_app_main km = Done [Printed hello5]) \<and>
    (0 \<notin> set m \<longrightarrow> chardev_app_main km = Oops OutOfBounds)"
proof (intro conjI impI)
  have h: "length hello5 = 5" "0 \<notin> set hello5" by (simp_all add: hello5_def)
  assume z: "0 \<in> set (drop 5 m)"
  have l: "length m = 1024" using assms(2) by (simp add: BUF_LEN_def)
  let ?m = "hello5 @ drop 5 m"
  have w: "mem_write m 0 hello5 = Done ?m" using mem_write_overlay [of 0 hello5 m] l h(1) by (simp add: overlay_start)
  have "mem_read ?m 0 5 = Done hello5" using h(1) l by (simp add: mem_read_def)
  moreover have "mem_write (replicate 1024 0) 0 hello5 = Done (hello5 @ replicate 1019 0)"
    using mem_write_overlay [of 0 hello5 "replicate 1024 0"] h(1) by (simp add: overlay_start)
  moreover have "c_str (hello5 @ replicate 1019 0) = Done hello5"
    using takeWhile_text [OF h(2), of "replicate 1019 0"] by (simp add: c_str_def takeWhile_eq_Nil_iff)
  moreover have "c_str m = Done (takeWhile (\<lambda>b. b \<noteq> 0) m)" using z by (auto simp: c_str_def dest: in_set_dropD)
  ultimately show "chardev_app_main km = Done [Printed hello5]"
    using assms(1) w z h(1) by (simp add: chardev_app_main_def chardev_open_def chardev_write_def chardev_read_def BUF_LEN_def c_str_def)
qed (use assms(1) in \<open>simp add: chardev_app_main_def chardev_open_def chardev_write_def c_str_def\<close>)

text \<open>
  The test program of the md5 device prints the digest of its argument followed by whatever is left of a
  longer text that was hashed before, and leaves the device free.
\<close>

theorem md5_app_output:
  assumes "md5_usage s = 1" and "length (plaintext s) = MAX_LEN" and "length arg < MAX_LEN" and "0 \<notin> set arg"
    and "0 \<in> set (drop (length arg) (plaintext s))" and "\<And>x. length (cr_digest env x) = MD5_LEN"
    and "cr_shash env = Inr sh" and "cr_sdesc env = Some sd" and "cr_init env \<and> cr_update env \<and> cr_final env"
  shows "\<exists>s'. md5_app_main env (Some a) s (Some arg) =
      Done (s', Some (cr_digest env (arg @ takeWhile (\<lambda>b. b \<noteq> 0) (drop (length arg) (plaintext s))))) \<and> md5_usage s' = 1"
proof -
  let ?s = "s\<lparr>md5_usage := 0\<rparr>" and ?p = "arg @ drop (length arg) (plaintext s)"
  let ?d = "cr_digest env (arg @ takeWhile (\<lambda>b. b \<noteq> 0) (drop (length arg) (plaintext s)))"
  have o: "virtual_device_open s = (?s, Inr ())" using assms(1) by (simp add: virtual_device_open_def atomic_dec_and_test_def)
  have p: "overlay (plaintext s) 0 arg = ?p" using assms(2,3) by (simp add: overlay_start)
  have w: "virtual_device_write 0 ?s arg = Done (?s\<lparr>plaintext := ?p\<rparr>, Inr (int (length arg)))"
    using mem_write_overlay [of 0 arg "plaintext s"] assms(2,3) p by (simp add: virtual_device_write_def)
  from md5_read_digest [of ?s arg env sh sd a 16] assms p takeWhile_text [OF assms(4)] w
  have r: "\<exists>t. virtual_device_read env (Some a) 0 (?s\<lparr>plaintext := ?p\<rparr>) 16 = Done (Inr 16, ?d, t)" by auto
  have "length ?d = 16" using assms(6) by (simp add: MD5_LEN_def)
  then have "mem_write (replicate 16 0) 0 ?d = Done ?d" "app_hexdump ?d 16 = Done ?d"
    by (simp_all add: mem_write_def app_hexdump_def mem_read_def)
  with o w r show ?thesis
    by (auto simp: md5_app_main_def virtual_device_release_def atomic_inc_def)
qed

text \<open>
  The test of the added system calls prints 21 and 30, and the names of the processor up to their zero bytes.
\<close>

theorem test_syscall_output:
  assumes "length (vendor_id stack) = VENDOR_LEN" "length (model_id stack) = MODEL_LEN" and "length info = 84" "length c = 4"
    and "length v < VENDOR_LEN" "length m < MODEL_LEN" and "0 \<notin> set v" "0 \<notin> set m"
  shows "test_syscall_main sum0 info stack v m c = Done ((21, 30), 0, v, m, le_val c)"
proof -
  define vv where "vv = v @ 0 # drop (Suc (length v)) (vendor_id stack)"
  define mm where "mm = m @ 0 # drop (Suc (length m)) (model_id stack)"
  have l: "length vv = 16" "length mm = 64" using assms by (simp_all add: VENDOR_LEN_def MODEL_LEN_def vv_def mm_def)
  have g: "sys_get_cpu_info stack v m c True 0 = Done (0, vv @ mm @ c)"
    using get_cpu_info_fields [OF assms(1,2), of v m c] assms(5,6) by (simp add: vv_def mm_def)
  have w: "mem_write info 0 (vv @ mm @ c) = Done (vv @ mm @ c)"
    using mem_write_overlay [of 0 "vv @ mm @ c" info] l assms(3,4) by (simp add: overlay_def)
  have "c_str (vv @ mm @ c) = Done v" "c_str (mm @ c) = Done m"
    using takeWhile_text [OF assms(7)] takeWhile_text [OF assms(8)] by (simp_all add: c_str_def vv_def mm_def)
  moreover have "drop VENDOR_LEN (vv @ mm @ c) = mm @ c" using l by (simp add: VENDOR_LEN_def)
  moreover have "drop (VENDOR_LEN + MODEL_LEN) (vv @ mm @ c) = c" using l by (simp add: VENDOR_LEN_def MODEL_LEN_def)
  ultimately show ?thesis
    using g w assms(4) by (simp add: test_syscall_main_def sys_mycall_def width_simps)
qed

end
