(* ===== verification/Demos.thy ===== *)
theory Demos
  imports Kernel_Base
begin

text \<open>
  The demonstration modules: \<^verbatim>\<open>m_modules/ds/xarray.c\<close>, \<^verbatim>\<open>m_modules/mm/cache.c\<close>, \<^verbatim>\<open>m_modules/mm/slab_ex.c\<close>,
  \<^verbatim>\<open>m_modules/proc/timer.c\<close>, \<^verbatim>\<open>m_modules/time/ktime.c\<close>, \<^verbatim>\<open>m_modules/time/rdtsc_app.c\<close> and \<^verbatim>\<open>m_modules/uio/ex_uio.c\<close>. What they call of the
  kernel (the xarray, the caches, the timers, the clocks) is a parameter; laws of the xarray and of the timers are as
  documented.
\<close>

section \<open>\<^verbatim>\<open>xarray.c\<close>\<close>

text \<open>
  The operations on an array of pointers. A store returns the old entry or an error;
  \<open>xa_find\<close> and \<open>xa_find_after\<close> return the first entry from an index on, or behind it, up to a bound.
\<close>

record 'x xarray_ops =
  xa_store :: "'x \<Rightarrow> nat \<Rightarrow> addr \<Rightarrow> 'x \<times> (errno + addr option)"
  xa_load :: "'x \<Rightarrow> nat \<Rightarrow> addr option"
  xa_erase :: "'x \<Rightarrow> nat \<Rightarrow> 'x \<times> addr option"
  xa_find :: "'x \<Rightarrow> nat \<Rightarrow> nat \<Rightarrow> (nat \<times> addr) option"
  xa_find_after :: "'x \<Rightarrow> nat \<Rightarrow> nat \<Rightarrow> (nat \<times> addr) option"
  xa_destroy :: "'x \<Rightarrow> 'x"

definition ULONG_MAX :: nat where "ULONG_MAX = 2 ^ 64 - 1"

text \<open>The items that are allocated: \<open>index\<close> and \<open>order\<close>.\<close>

type_synonym item_heap = "addr \<rightharpoonup> nat \<times> nat"

definition xa_item :: "item_heap \<Rightarrow> addr option \<Rightarrow> (nat \<times> nat) exec" where
  "xa_item h p = (case p of None \<Rightarrow> Oops NullDeref | Some a \<Rightarrow> (case h a of None \<Rightarrow> Oops OutOfBounds | Some i \<Rightarrow> Done i))"

text \<open>The item with a given index is allocated, filled and stored; the result of the allocation is not checked.\<close>

definition xa_add :: "'x xarray_ops \<Rightarrow> (nat \<Rightarrow> addr option) \<Rightarrow> nat \<Rightarrow> item_heap \<times> 'x \<Rightarrow> (item_heap \<times> 'x) exec" where
  "xa_add ops km i hx =
     (case hx of (h, x) \<Rightarrow>
       (case km i of
          None \<Rightarrow> Oops NullDeref
        | Some a \<Rightarrow> Done (h(a \<mapsto> (i, i + 100)), fst (xa_store ops x i a))))"

fun xa_add_all :: "'x xarray_ops \<Rightarrow> (nat \<Rightarrow> addr option) \<Rightarrow> nat list \<Rightarrow> item_heap \<times> 'x \<Rightarrow> (item_heap \<times> 'x) exec" where
  "xa_add_all ops km [] hx = Done hx"
| "xa_add_all ops km (i # is) hx = kbind (xa_add ops km i hx) (xa_add_all ops km is)"

text \<open>\<open>xa_for_each\<close>, which shows the items; the fuel bounds the rounds.\<close>

fun xa_each :: "nat \<Rightarrow> 'x xarray_ops \<Rightarrow> item_heap \<Rightarrow> 'x \<Rightarrow> (nat \<times> addr) option \<Rightarrow> (nat \<times> nat) list exec option" where
  "xa_each k ops h x None = Some (Done [])"
| "xa_each 0 ops h x (Some e) = None"
| "xa_each (Suc k) ops h x (Some (i, a)) =
     (case xa_item h (Some a) of
        Oops f \<Rightarrow> Some (Oops f)
      | Done it \<Rightarrow> map_option (\<lambda>r. kbind r (\<lambda>rest. Done (it # rest))) (xa_each k ops h x (xa_find_after ops x i ULONG_MAX)))"

text \<open>
  The module: the items shown by the two loads, the two erasures, the find and the loop, the items allocated
  at the end and the array. \<open>xa_destroy\<close> empties the array and does not free what its entries point to.
\<close>

definition xarray_user_test ::
  "nat \<Rightarrow> 'x xarray_ops \<Rightarrow> (nat \<Rightarrow> addr option) \<Rightarrow> 'x \<Rightarrow> ((nat \<times> nat) list \<times> item_heap \<times> 'x) exec option" where
  "xarray_user_test fuel ops km x =
     (case kbind (xa_add_all ops km [0..<11] (Map.empty, x)) (\<lambda>(h, x).
        kbind (xa_item h (xa_load ops x 0)) (\<lambda>l0.
        kbind (xa_item h (xa_load ops x 8)) (\<lambda>l8.
        case xa_erase ops x 4 of (x, e4) \<Rightarrow>
        kbind (xa_item h e4) (\<lambda>e4.
        case xa_erase ops x 7 of (x, e7) \<Rightarrow>
        kbind (xa_item h e7) (\<lambda>e7.
        kbind (xa_item h (map_option snd (xa_find ops x 0 ULONG_MAX))) (\<lambda>f.
          Done (h, x, [l0, l8, e4, e7, f]))))))) of
        Oops e \<Rightarrow> Some (Oops e)
      | Done (h, x, shown) \<Rightarrow>
          map_option (\<lambda>r. kbind r (\<lambda>each. Done (shown @ each, h, xa_destroy ops x)))
            (xa_each fuel ops h x (xa_find ops x 0 ULONG_MAX)))"

text \<open>The laws of an array with the abstract contents \<open>look\<close>, for stores that find memory.\<close>

definition first_entry :: "(nat \<rightharpoonup> addr) \<Rightarrow> nat \<Rightarrow> nat \<Rightarrow> (nat \<times> addr) option" where
  "first_entry m i n =
     (if \<exists>j. i \<le> j \<and> j \<le> n \<and> m j \<noteq> None
      then let j = LEAST j. i \<le> j \<and> j \<le> n \<and> m j \<noteq> None in Some (j, the (m j)) else None)"

definition xarray_laws :: "'x xarray_ops \<Rightarrow> ('x \<Rightarrow> nat \<rightharpoonup> addr) \<Rightarrow> bool" where
  "xarray_laws ops look \<longleftrightarrow>
     (\<forall>x i a. look (fst (xa_store ops x i a)) = (look x)(i \<mapsto> a)) \<and> (\<forall>x i. xa_load ops x i = look x i) \<and>
     (\<forall>x i. look (fst (xa_erase ops x i)) = (look x)(i := None) \<and> snd (xa_erase ops x i) = look x i) \<and>
     (\<forall>x i n. xa_find ops x i n = first_entry (look x) i n) \<and>
     (\<forall>x i n. xa_find_after ops x i n = first_entry (look x) (Suc i) n) \<and> (\<forall>x. look (xa_destroy ops x) = Map.empty)"

text \<open>A plain map satisfies them.\<close>

definition map_xarray :: "(nat \<rightharpoonup> addr) xarray_ops" where
  "map_xarray = \<lparr>xa_store = \<lambda>x i a. (x(i \<mapsto> a), Inr (x i)), xa_load = \<lambda>x i. x i, xa_erase = \<lambda>x i. (x(i := None), x i),
     xa_find = first_entry, xa_find_after = \<lambda>x i. first_entry x (Suc i), xa_destroy = \<lambda>x. Map.empty\<rparr>"

lemma map_xarray_laws: "xarray_laws map_xarray (\<lambda>x. x)"
  by (simp add: xarray_laws_def map_xarray_def)

lemma first_entry_at:
  assumes "\<And>j. i \<le> j \<Longrightarrow> j < k \<Longrightarrow> m j = None" and "m k = Some a" and "i \<le> k" "k \<le> n"
  shows "first_entry m i n = Some (k, a)"
proof -
  have "(LEAST j. i \<le> j \<and> j \<le> n \<and> m j \<noteq> None) = k"
    using assms by (intro Least_equality) (auto simp: not_less [symmetric])
  then show ?thesis using assms(2-4) by (auto simp: first_entry_def)
qed

lemma first_entry_none: "(\<And>j. i \<le> j \<Longrightarrow> m j = None) \<Longrightarrow> first_entry m i n = None"
  by (auto simp: first_entry_def)

lemma xa_add_all_stored:
  assumes "xarray_laws ops look" and "\<And>i. i \<in> set is \<Longrightarrow> km i = Some (f i)" and "inj_on f (set is \<union> J)"
    and "\<And>i. i \<in> J \<Longrightarrow> look x i = Some (f i) \<and> h (f i) = Some (i, i + 100)" and "\<And>i. i \<notin> J \<Longrightarrow> look x i = None"
  shows "\<exists>h' x'. xa_add_all ops km is (h, x) = Done (h', x') \<and>
    (\<forall>i \<in> set is \<union> J. look x' i = Some (f i) \<and> h' (f i) = Some (i, i + 100)) \<and> (\<forall>i. i \<notin> set is \<union> J \<longrightarrow> look x' i = None)"
  using assms(2-5)
proof (induction "is" arbitrary: h x J)
  case (Cons i "is")
  let ?x = "fst (xa_store ops x i (f i))" and ?h = "h(f i \<mapsto> (i, i + 100))"
  have l: "look ?x = (look x)(i \<mapsto> f i)" using assms(1) by (simp add: xarray_laws_def)
  have inj: "f j = f i \<longleftrightarrow> j = i" if "j \<in> J" for j using inj_onD [OF Cons.prems(2), of j i] that by auto
  have "\<exists>h' x'. xa_add_all ops km is (?h, ?x) = Done (h', x') \<and>
      (\<forall>j \<in> set is \<union> insert i J. look x' j = Some (f j) \<and> h' (f j) = Some (j, j + 100)) \<and>
      (\<forall>j. j \<notin> set is \<union> insert i J \<longrightarrow> look x' j = None)"
    using Cons.prems l inj by (intro Cons.IH) auto
  then show ?case using Cons.prems(1) [of i] by (simp add: xa_add_def)
qed auto

lemma xa_each_shows:
  assumes "xarray_laws ops look" and "sorted_wrt (<) js" and "\<And>i. k \<le> i \<Longrightarrow> look x i \<noteq> None \<longleftrightarrow> i \<in> set js"
    and "\<And>i. i \<in> set js \<Longrightarrow> k \<le> i \<and> i \<le> ULONG_MAX \<and> look x i = Some (f i) \<and> h (f i) = Some (i, i + 100)"
    and "length js \<le> fuel"
  shows "xa_each fuel ops h x (first_entry (look x) k ULONG_MAX) = Some (Done (map (\<lambda>i. (i, i + 100)) js))"
  using assms(2-5)
proof (induction js arbitrary: k fuel)
  case Nil
  then have "first_entry (look x) k ULONG_MAX = None" by (intro first_entry_none) auto
  then show ?case by (cases fuel) auto
next
  case (Cons j js)
  have j: "k \<le> j" "j \<le> ULONG_MAX" "look x j = Some (f j)" "h (f j) = Some (j, j + 100)" using Cons.prems(3) by auto
  have "look x i = None" if "k \<le> i" "i < j" for i using that Cons.prems(1) Cons.prems(2) [of i] by auto
  then have e: "first_entry (look x) k ULONG_MAX = Some (j, f j)" using j by (intro first_entry_at) auto
  obtain n where n: "fuel = Suc n" "length js \<le> n" using Cons.prems(4) by (cases fuel) auto
  have "look x i \<noteq> None \<longleftrightarrow> i \<in> set js" if "Suc j \<le> i" for i using Cons.prems(2) [of i] j(1) that by auto
  then have "xa_each n ops h x (first_entry (look x) (Suc j) ULONG_MAX) = Some (Done (map (\<lambda>i. (i, i + 100)) js))"
    using Cons.prems(1,3) n(2) by (intro Cons.IH) (auto simp: Suc_le_eq)
  then show ?case using assms(1) e n(1) j(4) by (simp add: xarray_laws_def xa_item_def)
qed

text \<open>
  The demonstration shows what it stored, in the order of the indices, without the two erased items. The array is empty
  at the end, and all eleven items are still allocated, with nothing that leads to them.
\<close>

theorem xarray_test_output:
  assumes laws: "xarray_laws ops look" and "look x = Map.empty" and "\<And>i. i < 11 \<Longrightarrow> km i = Some (f i)" and "inj_on f {0..<11}"
    and "9 \<le> fuel"
  shows "\<exists>h x'. xarray_user_test fuel ops km x =
      Some (Done (map (\<lambda>i. (i, i + 100)) ([0, 8, 4, 7, 0] @ [0, 1, 2, 3, 5, 6, 8, 9, 10]), h, x')) \<and>
    look x' = Map.empty \<and> (\<forall>i<11. h (f i) \<noteq> None)"
proof -
  from xa_add_all_stored [OF laws, of "[0..<11]" km f "{}" x Map.empty] assms(2-4) obtain h x0 where
    add: "xa_add_all ops km [0..<11] (Map.empty, x) = Done (h, x0)"
    and st: "\<And>i. i < 11 \<Longrightarrow> look x0 i = Some (f i) \<and> h (f i) = Some (i, i + 100)" "\<And>i. \<not> i < 11 \<Longrightarrow> look x0 i = None"
    by (auto simp del: upt_rec_numeral)
  let ?x = "fst (xa_erase ops (fst (xa_erase ops x0 4)) 7)"
  define js where "js = [0, 1, 2, 3, 5, 6, 8, 9, 10::nat]"
  have look: "look ?x = (look x0)(4 := None, 7 := None)" using laws by (simp add: xarray_laws_def)
  have js: "i \<in> set js \<longleftrightarrow> i < 11 \<and> i \<noteq> 4 \<and> i \<noteq> 7" for i unfolding js_def by simp presburger
  have p: "look ?x i = (if i \<in> set js then Some (f i) else None)" for i unfolding look js using st by auto
  have "i \<le> ULONG_MAX" if "i \<in> set js" for i using that unfolding js by (simp add: ULONG_MAX_def)
  moreover have "sorted_wrt (<) js" "length js \<le> fuel" using assms(5) by (simp_all add: js_def)
  moreover have "h (f i) = Some (i, i + 100)" if "i \<in> set js" for i using that st js by simp
  ultimately have each: "xa_each fuel ops h ?x (first_entry (look ?x) 0 ULONG_MAX) = Some (Done (map (\<lambda>i. (i, i + 100)) js))"
    using p by (intro xa_each_shows [OF laws, where f = f]) simp_all
  have find: "first_entry (look ?x) 0 ULONG_MAX = Some (0, f 0)" using p [of 0] js [of 0] by (intro first_entry_at) auto
  have it: "xa_item h (xa_load ops x0 0) = Done (0, 100)" "xa_item h (xa_load ops x0 8) = Done (8, 108)"
    "xa_item h (snd (xa_erase ops x0 4)) = Done (4, 104)" "xa_item h (snd (xa_erase ops (fst (xa_erase ops x0 4)) 7)) = Done (7, 107)"
    "xa_item h (Some (f 0)) = Done (0, 100)"
    using laws st by (simp_all add: xarray_laws_def xa_item_def)
  have "xarray_user_test fuel ops km x = Some (Done (map (\<lambda>i. (i, i + 100)) ([0, 8, 4, 7, 0] @ js), h, xa_destroy ops ?x))"
    using laws each find it unfolding xarray_user_test_def add
    by (simp add: xarray_laws_def case_prod_unfold)
  moreover have "look (xa_destroy ops ?x) = Map.empty" using laws by (simp add: xarray_laws_def)
  ultimately show ?thesis using st(1) unfolding js_def by blast
qed

section \<open>\<^verbatim>\<open>cache.c\<close> and \<^verbatim>\<open>slab_ex.c\<close>\<close>

text \<open>The two static pointers, and the calls that unloading makes with them.\<close>

record cache_state =
  my_cachep :: "addr option"
  cache_p :: "addr option"

datatype cache_call = KmemCacheFree "addr option" "addr option" | KmemCacheDestroy "addr option"

definition cache_init :: "addr option \<Rightarrow> (addr \<Rightarrow> addr option) \<Rightarrow> cache_state \<Rightarrow> cache_state \<times> unit ret" where
  "cache_init kmem_cache_create kmem_cache_alloc s =
     (let s = s\<lparr>my_cachep := kmem_cache_create\<rparr> in
      case my_cachep s of None \<Rightarrow> (s, Inr ()) | Some c \<Rightarrow> (s\<lparr>cache_p := kmem_cache_alloc c\<rparr>, Inr ()))"

definition cache_exit :: "cache_state \<Rightarrow> cache_call list" where
  "cache_exit s = [KmemCacheFree (my_cachep s) (cache_p s), KmemCacheDestroy (my_cachep s)]"

text \<open>
  Unloading gives back the object and the cache that loading got. Without a cache the module is loaded all the same, and
  unloading frees into no cache.
\<close>

theorem cache_lifecycle:
  assumes "cache_init created alloc \<lparr>my_cachep = None, cache_p = None\<rparr> = (s, r)"
  shows "r = Inr () \<and> (case created of
      None \<Rightarrow> cache_exit s = [KmemCacheFree None None, KmemCacheDestroy None]
    | Some c \<Rightarrow> cache_exit s = [KmemCacheFree (Some c) (alloc c), KmemCacheDestroy (Some c)])"
  using assms by (auto simp: cache_init_def cache_exit_def split: option.splits)

text \<open>
  \<open>slab_ex.c\<close>: two blocks, filled, and the caches of their pages if these are pages of a cache; the results of
  \<open>kmalloc\<close> are not checked. The result is what is shown and what is freed.
\<close>

definition slab_fill :: "byte list owned \<Rightarrow> byte \<Rightarrow> nat \<Rightarrow> (addr \<times> byte list) exec" where
  "slab_fill p v n =
     (case p of
        None \<Rightarrow> Oops NullDeref
      | Some (a, m) \<Rightarrow> kbind (mem_write m 0 (replicate n v)) (\<lambda>m. Done (a, m)))"

definition show_init :: "kmalloc \<Rightarrow> (addr \<Rightarrow> (string \<times> int) option) \<Rightarrow> ((string \<times> int) list \<times> addr list) exec" where
  "show_init km slab_cache =
     kbind (slab_fill (km 0 124) 0x78 124) (\<lambda>(a1, m1).
     kbind (slab_fill (km 1 48) 0x56 48) (\<lambda>(a2, m2).
       Done (List.map_filter slab_cache [a1, a2], [a1, a2])))"

theorem show_init_balanced:
  assumes "kmalloc_sized km"
  shows "case (km 0 124, km 1 48) of
      (Some (a1, m1), Some (a2, m2)) \<Rightarrow> show_init km slab_cache = Done (List.map_filter slab_cache [a1, a2], [a1, a2])
    | _ \<Rightarrow> show_init km slab_cache = Oops NullDeref"
proof -
  have "is_done (slab_fill (km k n) v (nat n))" if "km k n \<noteq> None" for k n v
    using that assms by (auto simp: slab_fill_def kmalloc_sized_def mem_write_def)
  then have d: "\<exists>m'. slab_fill (km k n) v (nat n) = Done (a, m')" if "km k n = Some (a, m)" for k n v a m
    using that by (fastforce simp: slab_fill_def is_done_kbind kbind_eq_Done is_done_iff)
  show ?thesis
    using d [of 0 124 _ _ "0x78"] d [of 1 48 _ _ "0x56"]
    by (auto simp: show_init_def slab_fill_def [of None] split: option.splits)
qed

section \<open>\<^verbatim>\<open>timer.c\<close>, \<^verbatim>\<open>ktime.c\<close> and \<^verbatim>\<open>rdtsc_app.c\<close>\<close>

text \<open>
  The numbers that \<^verbatim>\<open>/proc/timer\<close> shows; the clocks are parameters, given as seconds and nanoseconds.
\<close>

record clocks =
  ck_ktime :: int
  ck_ts :: "(int \<times> int) list"
  ck_cycles :: int
  ck_khz :: int

definition timer_proc_show :: "int \<Rightarrow> int \<Rightarrow> clocks \<Rightarrow> int list \<times> (int \<times> int) list \<times> int list" where
  "timer_proc_show HZ m_jiffy c =
     ([HZ, m_jiffy, u64 (m_jiffy + HZ), m_jiffy div HZ div 60, m_jiffy div HZ, ck_ktime c], ck_ts c, [ck_cycles c, ck_khz c])"

text \<open>
  The counter of ticks does not start at 0 but 300 seconds before it overflows 32 bits, so that the times since the start that are
  shown are wrong by a constant.
\<close>

theorem timer_uptime_offset:
  assumes "HZ \<in> {100, 250, 300, 1000}" and "0 \<le> t" "t < 2 ^ 32"
  shows "fst (timer_proc_show HZ (u32 (- (300 * HZ)) + HZ * t) c) ! 4 = t + (2 ^ 32 div HZ - 300)"
proof -
  have "u32 (- (300 * HZ)) = 2 ^ 32 - 300 * HZ" using assms(1) by (auto simp: u32_def take_bit_eq_mod)
  then have "u32 (- (300 * HZ)) + HZ * t = 2 ^ 32 + (t - 300) * HZ" by (simp add: algebra_simps)
  moreover have "(2 ^ 32 + (t - 300) * HZ) div HZ = (t - 300) + 2 ^ 32 div HZ" using assms(1) by (intro div_mult_self1) auto
  ultimately show ?thesis by (simp add: timer_proc_show_def)
qed

text \<open>
  The high resolution timer: \<open>hrtimer_forward\<close> is a parameter that moves the time of expiry. The callback asks for
  another round.
\<close>

definition timer_interval_ns :: int where "timer_interval_ns = 1000000"

definition ktime_set :: "int \<Rightarrow> int \<Rightarrow> int" where
  "ktime_set secs nsecs = s64 (secs * 1000000000 + nsecs)"

definition timer_callback :: "(int \<Rightarrow> int \<Rightarrow> int \<Rightarrow> int) \<Rightarrow> int \<Rightarrow> int \<Rightarrow> int \<times> bool" where
  "timer_callback hrtimer_forward expires currtime =
     (hrtimer_forward expires currtime (ktime_set 0 timer_interval_ns), True)"

fun timer_rounds :: "(int \<Rightarrow> int \<Rightarrow> int \<Rightarrow> int) \<Rightarrow> int \<Rightarrow> int list \<Rightarrow> int" where
  "timer_rounds fwd expires [] = expires"
| "timer_rounds fwd expires (now # later) =
     (case timer_callback fwd expires now of (e, restart) \<Rightarrow> if restart then timer_rounds fwd e later else e)"

text \<open>
  If forwarding moves an expired timer by whole intervals past the current time, the timer runs for ever, on the
  grid of milliseconds that its first expiry started, whatever the delays of its interrupts.
\<close>

theorem timer_keeps_grid:
  assumes "\<And>e now i. e \<le> now \<Longrightarrow> 0 < i \<Longrightarrow> now < fwd e now i \<and> i dvd fwd e now i - e"
    and "nows \<noteq> []" and "sorted (e # nows)" and "\<And>k. k < length nows \<Longrightarrow> timer_rounds fwd e (take k nows) \<le> nows ! k"
  shows "List.last nows < timer_rounds fwd e nows \<and> timer_interval_ns dvd timer_rounds fwd e nows - e"
  using assms(2-4)
proof (induction nows arbitrary: e)
  case (Cons now later)
  have i: "ktime_set 0 timer_interval_ns = timer_interval_ns" "0 < timer_interval_ns"
    by (simp_all add: ktime_set_def timer_interval_ns_def width_simps)
  let ?e = "fwd e now timer_interval_ns"
  have e: "now < ?e" "timer_interval_ns dvd ?e - e" using assms(1) [of e now] Cons.prems(2) i(2) by auto
  show ?case
  proof (cases "later = []")
    case True
    then show ?thesis using e i(1) by (simp add: timer_callback_def)
  next
    case False
    have k: "timer_rounds fwd ?e (take k later) \<le> later ! k" if "k < length later" for k
      using Cons.prems(3) [of "Suc k"] that i(1) by (simp add: timer_callback_def)
    moreover have "?e \<le> later ! 0" using k [of 0] False by simp
    then have "sorted (?e # later)" using Cons.prems(2) False by (cases later) auto
    ultimately have "List.last later < timer_rounds fwd ?e later" "timer_interval_ns dvd timer_rounds fwd ?e later - ?e"
      using Cons.IH [OF False] by blast+
    moreover have "timer_rounds fwd e (now # later) = timer_rounds fwd ?e later" using i(1) by (simp add: timer_callback_def)
    ultimately show ?thesis using False e(2) dvd_add [of timer_interval_ns "timer_rounds fwd ?e later - ?e" "?e - e"] by simp
  qed
qed simp

text \<open>
  \<open>rdtsc\<close> leaves the halves of the counter in two registers. The program is compiled without the macro of the
  kernel's configuration, so on a 64-bit machine its output operand is one of the registers alone.
\<close>

definition EAX_EDX_VAL :: "bool \<Rightarrow> int \<Rightarrow> int \<Rightarrow> int" where
  "EAX_EDX_VAL config_x86_64 low high = (if config_x86_64 then u64 (or low (push_bit 32 high)) else low)"

theorem rdtsc_app_value:
  assumes "0 \<le> tsc" "tsc < 2 ^ 64"
  shows "EAX_EDX_VAL True (take_bit 32 tsc) (drop_bit 32 tsc) = tsc \<and> EAX_EDX_VAL False (take_bit 32 tsc) (drop_bit 32 tsc) = tsc mod 2 ^ 32"
proof -
  have "or (take_bit 32 tsc) (push_bit 32 (drop_bit 32 tsc)) = tsc"
    by (rule bit_eqI) (auto simp: bit_or_iff bit_take_bit_iff bit_push_bit_iff bit_drop_bit_eq, metis le_add_diff_inverse not_less)
  then show ?thesis using assms by (simp add: EAX_EDX_VAL_def u64_id) (simp add: take_bit_eq_mod)
qed

section \<open>\<^verbatim>\<open>ex_uio.c\<close>\<close>

text \<open>
  The program that serves the interrupts of a device from user space. \<open>pread\<close> of the high byte of the command register is
  a parameter, \<open>None\<close> for an error; so are the results of the \<open>pwrite\<close> and the \<open>read\<close> of each round,
  the latter the number of interrupts so far. The observed calls are listed; the run ends with an error or is
  still waiting when the list of results is exhausted.
\<close>

datatype uio_call = UioStarted | UioInterrupts int | UioWrite byte | UioWait

definition command_mask :: "byte \<Rightarrow> byte" where
  "command_mask command_high = and command_high (not 0x4)"

fun uio_loop :: "byte \<Rightarrow> int \<Rightarrow> int \<Rightarrow> (bool \<times> int option) list \<Rightarrow> uio_call list" where
  "uio_loop cmd i icount [] = []"
| "uio_loop cmd i icount ((written, got) # rs) =
     (if i = 0 then UioStarted else UioInterrupts (s32 icount)) # UioWrite cmd #
       (if \<not> written then []
        else UioWait # (case got of None \<Rightarrow> [] | Some n \<Rightarrow> uio_loop cmd (s32 (i + 1)) n rs))"

definition uio_main :: "bool \<Rightarrow> bool \<Rightarrow> byte option \<Rightarrow> int \<Rightarrow> (bool \<times> int option) list \<Rightarrow> uio_call list" where
  "uio_main uio_open config_open pread garbage rs =
     (if \<not> uio_open \<or> \<not> config_open then []
      else case pread of None \<Rightarrow> [] | Some command_high \<Rightarrow> uio_loop (command_mask command_high) 0 garbage rs)"

text \<open>
  Every wait comes right after a write that enables the interrupts and leaves the other bits of the register; every
  message shows the number that the wait before it returned, and the first one none.
\<close>

lemma command_mask_bits: "bit (command_mask c) n \<longleftrightarrow> bit c n \<and> n \<noteq> 2" if "n < 8"
proof -
  have four: "(4 :: byte) = push_bit 2 1" by (simp add: push_bit_eq_mult)
  have "bit (4 :: byte) n \<longleftrightarrow> n = 2" using that unfolding four bit_push_bit_iff bit_1_iff by auto
  then show ?thesis using that by (auto simp: command_mask_def bit_simps)
qed

theorem uio_serves_interrupts:
  assumes "length ns < 2 ^ 31" and "0 \<le> i" "i + int (length ns) < 2 ^ 31"
  shows "uio_loop cmd i icount (map (\<lambda>n. (True, Some n)) ns) =
    concat (map (\<lambda>k. [if i + int k = 0 then UioStarted else UioInterrupts (s32 ((icount # ns) ! k)), UioWrite cmd, UioWait])
      [0..<length ns])"
  using assms(2,3)
proof (induction ns arbitrary: i icount)
  case (Cons n ns)
  have s: "s32 (i + 1) = i + 1" using Cons.prems by (simp add: width_simps)
  have "[0..<length (n # ns)] = 0 # map Suc [0..<length ns]" by (simp add: map_Suc_upt upt_conv_Cons del: upt_Suc)
  moreover have "uio_loop cmd (i + 1) n (map (\<lambda>n. (True, Some n)) ns) =
      concat (map (\<lambda>k. [if i + 1 + int k = 0 then UioStarted else UioInterrupts (s32 ((n # ns) ! k)), UioWrite cmd, UioWait]) [0..<length ns])"
    using Cons.prems by (intro Cons.IH) auto
  ultimately show ?case using s by (simp add: o_def algebra_simps del: upt_Suc cong: if_cong)
qed simp

end
