(* ===== verification/Idr_Test.thy ===== *)
theory Idr_Test
  imports Kernel_Base "HOL-Library.AList"
begin

text \<open>
  The tests of the kernel's allocator of IDs (\<^verbatim>\<open>linux/tools/testing/idr-test.c\<close>). The allocator itself is not in the
  repository: it is a parameter, a function from a state and a call to the state afterwards and the result, and what is
  documented of it is the hypothesis \<open>documented\<close>. A test is the list of the calls it makes, each with the condition that it asserts of
  the result. Shown are that the tests ask for nothing but documented behaviour, and what the program prints.
\<close>

section \<open>Calls, results and tests\<close>

text \<open>The pointers that the tests store: \<open>DUMMY_PTR\<close>, \<open>NULL\<close>, items with their index and order, characters of a name, others.\<close>

datatype entry = DUMMY_PTR | NULLP | Item nat nat | NameChar nat | Other nat

datatype idr_call =
    IdrAlloc entry int int
  | IdrAllocCyclic entry int int
  | IdrAllocU32 entry nat nat
  | IdrRemove nat
  | IdrReplace entry nat
  | IdrFind nat
  | IdrGetNext nat
  | IdrForEach
  | IdrIsEmpty
  | IdrDestroy
  | IdrSetCursor nat

text \<open>
  A call returns an ID or an error code, an entry (\<open>NULLP\<close> also if there is none), success and the value of the
  variable \<open>nextid\<close> behind the call, the next ID with its entry, the entries visited, or a truth value.
\<close>

datatype idr_result =
    ResId "nat ret"
  | ResEntry "entry ret"
  | ResU32 "unit ret" nat
  | ResNext "nat \<times> entry"
  | ResAll "(nat \<times> entry) list"
  | ResBool bool
  | ResUnit

type_synonym 's allocator = "'s \<Rightarrow> idr_call \<Rightarrow> 's \<times> idr_result"

text \<open>An assertion that does not hold ends the program, as \<open>BUG_ON\<close> and \<open>assert\<close> do.\<close>

type_synonym ('c, 'r) script = "('c \<times> ('r \<Rightarrow> bool)) list"
type_synonym idr_script = "(idr_call, idr_result) script"

fun run_test :: "('s \<Rightarrow> 'c \<Rightarrow> 's \<times> 'r) \<Rightarrow> 's \<Rightarrow> ('c, 'r) script \<Rightarrow> ('s \<times> 'r list) exec" where
  "run_test op s [] = Done (s, [])"
| "run_test op s ((c, ok) # rest) =
     (case op s c of (s, r) \<Rightarrow>
        if ok r then kbind (run_test op s rest) (\<lambda>(s, rs). Done (s, r # rs)) else Oops KernelBug)"

abbreviation any_result :: "'r \<Rightarrow> bool" where
  "any_result \<equiv> \<lambda>_. True"

definition is_id :: "nat \<Rightarrow> idr_result \<Rightarrow> bool" where
  "is_id i r \<longleftrightarrow> r = ResId (Inr i)"

fun is_error :: "idr_result \<Rightarrow> bool" where
  "is_error (ResId (Inl e)) \<longleftrightarrow> True"
| "is_error _ \<longleftrightarrow> False"

text \<open>\<open>item_idr_free\<close> as the callback of \<open>idr_for_each\<close>: every entry is an item with the ID as its index.\<close>

fun is_item :: "nat \<Rightarrow> entry \<Rightarrow> bool" where
  "is_item i (Item index order) \<longleftrightarrow> index = i"
| "is_item i _ \<longleftrightarrow> False"

fun item_idr_free :: "idr_result \<Rightarrow> bool" where
  "item_idr_free (ResAll es) \<longleftrightarrow> list_all (\<lambda>(id, p). is_item id p) es"
| "item_idr_free _ \<longleftrightarrow> False"

fun found_item :: "nat \<Rightarrow> idr_result \<Rightarrow> bool" where
  "found_item i (ResEntry (Inr p)) \<longleftrightarrow> is_item i p"
| "found_item i _ \<longleftrightarrow> False"

fun next_is :: "nat \<Rightarrow> idr_result \<Rightarrow> bool" where
  "next_is i (ResNext (j, p)) \<longleftrightarrow> j = i"
| "next_is i _ \<longleftrightarrow> False"

definition item_idr_remove :: "nat \<Rightarrow> idr_script" where
  "item_idr_remove i =
     [(IdrFind i, found_item i), (IdrRemove i, any_result)]"

section \<open>The tests\<close>

definition INT_MAX :: nat where "INT_MAX = 2 ^ 31 - 1"

text \<open>The item that a round stores has the index that the ID is expected to have.\<close>

definition idr_alloc_test :: idr_script where
  "idr_alloc_test =
     [(IdrAllocCyclic DUMMY_PTR 0 0x4000, is_id 0), (IdrAllocCyclic DUMMY_PTR 0x3ffd 0x4000, is_id 0x3ffd),
      (IdrRemove 0x3ffd, any_result), (IdrRemove 0, any_result)] @
     map (\<lambda>i. let index = (if i < 0x4000 then i else i - 0x3fff) in (IdrAllocCyclic (Item index 0) 1 0x4000, is_id index))
       [0x3ffe..<0x4003] @
     [(IdrForEach, item_idr_free), (IdrDestroy, any_result)]"

definition idr_replace_test :: idr_script where
  "idr_replace_test = [(IdrAlloc (Other 0) 10 11, any_result), (IdrReplace (Other 1) 10, any_result), (IdrDestroy, any_result)]"

abbreviation empty_is :: "bool \<Rightarrow> idr_call \<times> (idr_result \<Rightarrow> bool)" where
  "empty_is b \<equiv> (IdrIsEmpty, \<lambda>r. r = ResBool b)"

definition idr_null_test :: idr_script where
  "idr_null_test =
     [empty_is True,
      (IdrAlloc NULLP 0 0, is_id 0), empty_is False, (IdrRemove 0, any_result), empty_is True,
      (IdrAlloc NULLP 0 0, is_id 0), empty_is False, (IdrDestroy, any_result), empty_is True] @
     map (\<lambda>i. (IdrAlloc NULLP 0 0, is_id i)) [0..<10] @
     [(IdrReplace DUMMY_PTR 3, \<lambda>r. r = ResEntry (Inr NULLP)), (IdrReplace DUMMY_PTR 4, \<lambda>r. r = ResEntry (Inr NULLP)),
      (IdrReplace NULLP 4, \<lambda>r. r = ResEntry (Inr DUMMY_PTR)), (IdrReplace DUMMY_PTR 11, \<lambda>r. r = ResEntry (Inl ENOENT)),
      (IdrRemove 5, any_result), (IdrAlloc NULLP 0 0, is_id 5), (IdrRemove 5, any_result)] @
     concat (map (\<lambda>i. [(IdrRemove i, any_result), empty_is False]) [0..<9]) @
     [(IdrRemove 8, any_result), empty_is False, (IdrRemove 9, any_result), empty_is True,
      (IdrAlloc NULLP 0 0, is_id 0), (IdrReplace DUMMY_PTR 3, \<lambda>r. r = ResEntry (Inl ENOENT)),
      (IdrReplace DUMMY_PTR 0, \<lambda>r. r = ResEntry (Inr NULLP)), (IdrReplace NULLP 0, \<lambda>r. r = ResEntry (Inr DUMMY_PTR)),
      (IdrDestroy, any_result), empty_is True] @
     map (\<lambda>i. (IdrAlloc NULLP 1 0, is_id i)) [1..<10] @
     [(IdrDestroy, any_result), empty_is True]"

text \<open>The preloading of memory around these allocations does not show in what they return.\<close>

definition idr_nowait_test :: idr_script where
  "idr_nowait_test =
     map (\<lambda>i. (IdrAlloc (Item i 0) (int i) (int i + 1), is_id i)) [0..<3] @ [(IdrForEach, item_idr_free), (IdrDestroy, any_result)]"

definition indices :: "nat list" where
  "indices = [4, 7, 9, 15, 65, 128, 1000, 99999]"

text \<open>The array ends with a 0, which is also the end of the last range; \<open>nextid\<close> starts at 0 and is one more than what was found before.\<close>

definition idr_get_next_test :: idr_script where
  "idr_get_next_test =
     map (\<lambda>(i, end). (IdrAlloc (Item i 0) (int i) end, is_id i)) (zip indices (map int (tl indices) @ [0])) @
     map (\<lambda>(nextid, i). (IdrGetNext nextid, next_is i)) (zip (0 # map Suc indices) indices) @
     [(IdrForEach, item_idr_free), (IdrDestroy, any_result)]"

fun idr_u32_cb :: "idr_result \<Rightarrow> bool" where
  "idr_u32_cb (ResAll es) \<longleftrightarrow> list_all (\<lambda>(id, p). id \<le> INT_MAX \<and> p = DUMMY_PTR) es"
| "idr_u32_cb _ \<longleftrightarrow> False"

text \<open>The messages that announce the expected warnings of the allocator are left out.\<close>

definition idr_u32_test1 :: "nat \<Rightarrow> idr_script" where
  "idr_u32_test1 handle =
     [(IdrAllocU32 DUMMY_PTR handle handle, \<lambda>r. r = ResU32 (Inr ()) handle),
      (IdrAllocU32 DUMMY_PTR handle handle, \<lambda>r. r = ResU32 (Inl ENOSPC) handle),
      (IdrGetNext 0, \<lambda>r. if handle > INT_MAX then r = ResNext (0, NULLP) else r = ResNext (handle, DUMMY_PTR)),
      (IdrForEach, idr_u32_cb), (IdrRemove handle, \<lambda>r. r = ResEntry (Inr DUMMY_PTR)), empty_is True]"

definition idr_u32_test :: idr_script where
  "idr_u32_test = concat (map idr_u32_test1 [10, 0x7fffffff, 0x80000000, 0x80000001, 0xffe00000, 0xffffffff])"

text \<open>The loops \<open>idr_for_each_entry\<close> of this test have no body.\<close>

definition idr_align_test :: idr_script where
  "idr_align_test =
     concat (map (\<lambda>k. map (\<lambda>i. (IdrAlloc (NameChar i) 0 0, is_id (i - k))) [k..<k + 9] @ [(IdrDestroy, any_result)]) [0..<4]) @
     concat (map (\<lambda>i. [(IdrAlloc (NameChar i) 0 0, is_id 0), (IdrAlloc (NameChar (i + 1)) 0 0, is_id 1),
       (IdrRemove 1, any_result), (IdrRemove 0, any_result), empty_is True]) [0..<8]) @
     concat (map (\<lambda>i. [(IdrAlloc NULLP 0 0, is_id 0), (IdrReplace (NameChar i) 0, any_result),
       (IdrFind 0, \<lambda>r. r = ResEntry (Inr (NameChar i))), (IdrRemove 0, any_result)]) [0..<8]) @
     concat (map (\<lambda>i. [(IdrAlloc (NameChar i) 0 0, is_id 0), (IdrAlloc NULLP 0 0, is_id 1), (IdrRemove 1, any_result),
       (IdrReplace (NameChar (i + 1)) 0, any_result), (IdrRemove 0, any_result)]) [0..<8])"

text \<open>
  The part of \<open>idr_checks\<close> before it calls the other tests; \<open>RADIX_TREE_MAP_SIZE\<close> is a parameter. An \<open>int\<close> argument beyond
  \<open>INT_MAX\<close> is negative.
\<close>

definition idr_checks_fill :: idr_script where
  "idr_checks_fill =
     map (\<lambda>i. (IdrAlloc (Item i 0) 0 20000, is_id i)) [0..<10000] @ [(IdrAlloc DUMMY_PTR 5 30, is_error)] @
     concat (map item_idr_remove [0..<5000]) @
     [(IdrRemove 3, any_result), (IdrForEach, item_idr_free), (IdrDestroy, any_result), empty_is True]"

definition idr_checks_small :: "nat \<Rightarrow> idr_script" where
  "idr_checks_small map_size =
     [(IdrRemove 3, any_result), (IdrRemove 0, any_result), (IdrAlloc DUMMY_PTR 0 0, is_id 0), (IdrRemove 1, any_result)] @
     map (\<lambda>i. (IdrAlloc DUMMY_PTR 0 0, is_id i)) [1..<map_size] @
     [(IdrRemove (2 ^ 30), any_result), (IdrDestroy, any_result)]"

definition idr_checks_max :: idr_script where
  "idr_checks_max =
     map (\<lambda>i. (IdrAlloc (Item i 0) (s32 (int i)) (s32 (int i + 10)), is_id i)) [INT_MAX - 3..<INT_MAX + 1] @
     [(IdrAlloc DUMMY_PTR (s32 (int INT_MAX - 1)) (s32 (int INT_MAX + 1)), \<lambda>r. r = ResId (Inl ENOSPC)),
      (IdrAlloc DUMMY_PTR (s32 (int INT_MAX - 1)) (s32 (int INT_MAX + 11)), \<lambda>r. r = ResId (Inl ENOSPC)),
      (IdrForEach, item_idr_free), (IdrDestroy, any_result), (IdrDestroy, any_result), empty_is True]"

definition idr_checks_cursor :: idr_script where
  "idr_checks_cursor =
     [(IdrSetCursor (INT_MAX - 3), any_result)] @
     map (\<lambda>i. let index = (if i \<le> INT_MAX then i else i - INT_MAX - 1) in (IdrAllocCyclic (Item index 0) 0 0, is_id index))
       [INT_MAX - 3..<INT_MAX + 3] @
     [(IdrForEach, item_idr_free), (IdrDestroy, any_result), empty_is True]"

definition idr_checks_from_one :: idr_script where
  "idr_checks_from_one =
     map (\<lambda>i. (IdrAlloc (Item i 0) 1 20000, is_id i)) [1..<10000] @ [(IdrForEach, item_idr_free), (IdrDestroy, any_result)]"

text \<open>
  \<open>idr_checks\<close> without the last test, which runs for ten seconds beside another thread. \<open>mk\<close> is the allocator with a given base
  that \<open>DEFINE_IDR\<close> and \<open>idr_init_base\<close> set up; every test has its own, but the last one has that of \<open>idr_checks\<close>.
\<close>

definition idr_own_tests :: "(nat \<times> idr_script) list" where
  "idr_own_tests =
     [(0, idr_replace_test), (0, idr_alloc_test), (0, idr_null_test), (0, idr_nowait_test),
      (0, idr_get_next_test), (1, idr_get_next_test), (4, idr_get_next_test),
      (4, idr_u32_test), (1, idr_u32_test), (0, idr_u32_test)]"

fun run_own_tests :: "'s allocator \<Rightarrow> (nat \<Rightarrow> 's) \<Rightarrow> (nat \<times> idr_script) list \<Rightarrow> unit exec" where
  "run_own_tests op mk [] = Done ()"
| "run_own_tests op mk ((base, ts) # rest) = kbind (run_test op (mk base) ts) (\<lambda>_. run_own_tests op mk rest)"

definition idr_checks :: "'s allocator \<Rightarrow> (nat \<Rightarrow> 's) \<Rightarrow> nat \<Rightarrow> 's exec" where
  "idr_checks op mk map_size =
     kbind (run_test op (mk 0)
       (idr_checks_fill @ idr_checks_small map_size @ idr_checks_max @ idr_checks_cursor @ idr_checks_from_one)) (\<lambda>(idr, _).
     kbind (run_own_tests op mk idr_own_tests) (\<lambda>_.
     kbind (run_test op idr idr_align_test) (\<lambda>(idr, _). Done idr)))"

section \<open>The allocator of bare IDs\<close>

datatype ida_call = IdaAlloc | IdaAllocMin nat | IdaFree nat | IdaDestroy | IdaSimpleGet int int | IdaIsEmpty
datatype ida_result = IdaId "nat ret" | IdaBool bool | IdaUnit

fun ida_error :: "ida_result \<Rightarrow> bool" where
  "ida_error (IdaId (Inl e)) \<longleftrightarrow> True"
| "ida_error _ \<longleftrightarrow> False"

definition ida_id :: "nat \<Rightarrow> ida_result \<Rightarrow> bool" where
  "ida_id i r \<longleftrightarrow> r = IdaId (Inr i)"

type_synonym ida_script = "(ida_call, ida_result) script"

text \<open>
  The numbers that \<open>rand\<close> returns are a parameter, a list for every round; the clock decides how many rounds there are. The bitmap
  is the set of the IDs that the test holds.
\<close>

fun random_steps :: "nat set \<Rightarrow> nat list \<Rightarrow> ida_script" where
  "random_steps bitmap [] = []"
| "random_steps bitmap (i # rs) =
     (let bit = i mod 2048 in
      if bit \<in> bitmap then (IdaFree bit, any_result) # random_steps (bitmap - {bit}) rs
      else (IdaAllocMin bit, ida_id bit) # random_steps (insert bit bitmap) rs)"

definition ida_check_random :: "nat list list \<Rightarrow> ida_script" where
  "ida_check_random rounds = concat (map (\<lambda>rs. random_steps {} rs @ [(IdaDestroy, any_result)]) rounds)"

definition ida_simple_get_remove_test :: ida_script where
  "ida_simple_get_remove_test =
     map (\<lambda>i. (IdaSimpleGet 0 20000, ida_id i)) [0..<10000] @ [(IdaSimpleGet 5 30, ida_error)] @
     map (\<lambda>i. (IdaFree i, any_result)) [0..<10000] @ [(IdaIsEmpty, \<lambda>r. r = IdaBool True), (IdaDestroy, any_result)]"

section \<open>The program as it is\<close>

text \<open>
  What the two tests print that \<open>main\<close> runs, line by line. Every call comes with the lines that its result leads to; only items are
  dereferenced.
\<close>

datatype shown =
    Heading string
  | Allocated nat "nat ret"
  | Listed nat nat nat
  | Found nat nat nat
  | NotFound nat
  | IsEmpty bool
  | IdaShown "nat ret"

fun is_pointee :: "entry \<Rightarrow> bool" where
  "is_pointee (Item index order) \<longleftrightarrow> True"
| "is_pointee _ \<longleftrightarrow> False"

fun all_items :: "idr_result \<Rightarrow> bool" where
  "all_items (ResAll es) \<longleftrightarrow> list_all (\<lambda>(id, p). is_pointee p) es"
| "all_items _ \<longleftrightarrow> False"

fun item_or_null :: "idr_result \<Rightarrow> bool" where
  "item_or_null (ResEntry (Inr p)) \<longleftrightarrow> p = NULLP \<or> is_pointee p"
| "item_or_null _ \<longleftrightarrow> False"

fun show_id :: "nat \<Rightarrow> idr_result \<Rightarrow> shown list" where
  "show_id i (ResId r) = [Allocated i r]"
| "show_id i _ = []"

fun show_entry :: "nat \<times> entry \<Rightarrow> shown list" where
  "show_entry (i, Item index order) = [Listed i index order]"
| "show_entry _ = []"

fun show_all :: "idr_result \<Rightarrow> shown list" where
  "show_all (ResAll es) = concat (map show_entry es)"
| "show_all _ = []"

fun show_find :: "nat \<Rightarrow> idr_result \<Rightarrow> shown list" where
  "show_find i (ResEntry (Inr (Item index order))) = [Found i index order]"
| "show_find i _ = [NotFound i]"

fun show_empty :: "idr_result \<Rightarrow> shown list" where
  "show_empty (ResBool b) = [IsEmpty b]"
| "show_empty _ = []"

fun show_ida :: "ida_result \<Rightarrow> shown list" where
  "show_ida (IdaId r) = [IdaShown r]"
| "show_ida _ = []"

fun run_shown :: "('s \<Rightarrow> 'c \<Rightarrow> 's \<times> 'r) \<Rightarrow> 's \<Rightarrow> (shown list \<times> 'c \<times> ('r \<Rightarrow> bool) \<times> ('r \<Rightarrow> shown list)) list \<Rightarrow> ('s \<times> shown list) exec" where
  "run_shown op s [] = Done (s, [])"
| "run_shown op s ((before, c, ok, out) # rest) =
     (case op s c of (s, r) \<Rightarrow>
        if ok r then kbind (run_shown op s rest) (\<lambda>(s, ls). Done (s, before @ out r @ ls)) else Oops KernelBug)"

definition idr_test_simple :: "'s allocator \<Rightarrow> 's \<Rightarrow> ('s \<times> shown list) exec" where
  "idr_test_simple op s =
     run_shown op s
       (map (\<lambda>i. (if i = 0 then [Heading ''idr_alloc()..................''] else [],
            IdrAlloc (Item i (i * 10)) 0 0, any_result, show_id i)) [0..<10] @
        [([Heading ''idr_for_each_entry()................''], IdrForEach, all_items, show_all),
         ([Heading ''idr_find()...................''], IdrFind 5, item_or_null, show_find 5),
         ([Heading ''idr_remove()................''], IdrRemove 5, any_result, \<lambda>_. []),
         ([], IdrFind 5, item_or_null, show_find 5),
         ([Heading ''idr_destroy()..........''], IdrForEach, item_idr_free, \<lambda>_. []),
         ([], IdrDestroy, any_result, \<lambda>_. []),
         ([], IdrIsEmpty, any_result, show_empty)])"

definition ida_test_simple :: "('a \<Rightarrow> ida_call \<Rightarrow> 'a \<times> ida_result) \<Rightarrow> 'a \<Rightarrow> ('a \<times> shown list) exec" where
  "ida_test_simple op a =
     run_shown op a
       (map (\<lambda>i. (if i = 0 then [Heading ''ida_alloc()''] else [], IdaAlloc, any_result, show_ida)) [0..<10] @
        [([Heading ''ida_free()''], IdaFree 3, any_result, \<lambda>_. []), ([], IdaFree 5, any_result, \<lambda>_. [])] @
        map (\<lambda>i. ([], IdaAlloc, any_result, show_ida)) [0..<5] @
        [([Heading ''ida_destroy()''], IdaDestroy, any_result, \<lambda>_. [])])"

text \<open>\<open>main\<close> returns behind the two simple tests; the calls behind the first \<open>return\<close> are never made.\<close>

definition idr_test_main ::
  "('a \<Rightarrow> ida_call \<Rightarrow> 'a \<times> ida_result) \<Rightarrow> 'a \<Rightarrow> 's allocator \<Rightarrow> 's \<Rightarrow> (shown list \<times> int) exec" where
  "idr_test_main ida a idr s =
     kbind (ida_test_simple ida a) (\<lambda>(a, shown1).
     kbind (idr_test_simple idr s) (\<lambda>(s, shown2). Done (shown1 @ shown2, 0)))"

section \<open>What is documented of the allocator\<close>

text \<open>
  The abstract allocator: the first ID that is handed out, the cursor of the cyclic allocation, and the entries.
  An allocation takes the lowest free ID in its range. A range of \<open>int\<close> whose end is not positive reaches to
  \<open>INT_MAX\<close>. The walks over the entries pass over null pointers and stop at \<open>INT_MAX\<close>.
\<close>

record idr_state =
  id_base :: nat
  id_next :: nat
  id_map :: "nat \<rightharpoonup> entry"

function lowest :: "(nat \<Rightarrow> bool) \<Rightarrow> nat \<Rightarrow> nat \<Rightarrow> nat option" where
  "lowest P i n = (if n < i then None else if P i then Some i else lowest P (Suc i) n)"
  by pat_completeness auto
termination by (relation "measure (\<lambda>(P, i, n). Suc n - i)") auto

declare lowest.simps [simp del]

definition last_id :: "int \<Rightarrow> nat" where
  "last_id end = (if end > 0 then nat (end - 1) else INT_MAX)"

definition take_id :: "idr_state \<Rightarrow> entry \<Rightarrow> nat \<Rightarrow> nat \<Rightarrow> idr_state \<times> nat ret" where
  "take_id s p start n =
     (case lowest (\<lambda>j. id_map s j = None) (max start (id_base s)) n of
        None \<Rightarrow> (s, Inl ENOSPC)
      | Some j \<Rightarrow> (s\<lparr>id_map := (id_map s)(j \<mapsto> p)\<rparr>, Inr j))"

definition take_cyclic :: "idr_state \<Rightarrow> entry \<Rightarrow> int \<Rightarrow> nat \<Rightarrow> idr_state \<times> nat ret" where
  "take_cyclic s p start n =
     (let id = (if s32 (int (id_next s)) < start then nat start else id_next s);
          again = (\<lambda>(s, r). (case r of Inl e \<Rightarrow> s | Inr j \<Rightarrow> s\<lparr>id_next := nat (u32 (int j + 1))\<rparr>, r)) in
      case take_id s p id n of
        (s', Inr j) \<Rightarrow> again (s', Inr j)
      | (s', Inl e) \<Rightarrow> if int id > start then again (take_id s p (nat start) n) else (s, Inl e))"

definition entry_of :: "entry option \<Rightarrow> entry" where
  "entry_of p = (case p of None \<Rightarrow> NULLP | Some e \<Rightarrow> e)"

definition populated :: "(nat \<rightharpoonup> entry) \<Rightarrow> nat list" where
  "populated m = sorted_list_of_set {j. entry_of (m j) \<noteq> NULLP \<and> j \<le> INT_MAX}"

definition visited :: "(nat \<rightharpoonup> entry) \<Rightarrow> (nat \<times> entry) list" where
  "visited m = map (\<lambda>j. (j, entry_of (m j))) (populated m)"

definition next_id :: "(nat \<rightharpoonup> entry) \<Rightarrow> nat \<Rightarrow> nat option" where
  "next_id m i = lowest (\<lambda>j. entry_of (m j) \<noteq> NULLP) i INT_MAX"

fun idr_spec :: "idr_state \<Rightarrow> idr_call \<Rightarrow> idr_state \<times> idr_result" where
  "idr_spec s (IdrAlloc p start end) =
     (if start < 0 then (s, ResId (Inl EINVAL)) else map_prod id ResId (take_id s p (nat start) (last_id end)))"
| "idr_spec s (IdrAllocCyclic p start end) = map_prod id ResId (take_cyclic s p start (last_id end))"
| "idr_spec s (IdrAllocU32 p nextid n) =
     map_prod id (\<lambda>r. case r of Inl e \<Rightarrow> ResU32 (Inl e) nextid | Inr j \<Rightarrow> ResU32 (Inr ()) j) (take_id s p nextid n)"
| "idr_spec s (IdrRemove i) = (s\<lparr>id_map := (id_map s)(i := None)\<rparr>, ResEntry (Inr (entry_of (id_map s i))))"
| "idr_spec s (IdrReplace p i) =
     (case id_map s i of
        None \<Rightarrow> (s, ResEntry (Inl ENOENT))
      | Some q \<Rightarrow> (s\<lparr>id_map := (id_map s)(i \<mapsto> p)\<rparr>, ResEntry (Inr q)))"
| "idr_spec s (IdrFind i) = (s, ResEntry (Inr (entry_of (id_map s i))))"
| "idr_spec s (IdrGetNext i) =
     (s, ResNext (case next_id (id_map s) i of None \<Rightarrow> (i, NULLP) | Some j \<Rightarrow> (j, entry_of (id_map s j))))"
| "idr_spec s IdrForEach = (s, ResAll (visited (id_map s)))"
| "idr_spec s IdrIsEmpty = (s, ResBool (id_map s = Map.empty))"
| "idr_spec s IdrDestroy = (s\<lparr>id_map := Map.empty\<rparr>, ResUnit)"
| "idr_spec s (IdrSetCursor i) = (s\<lparr>id_next := i\<rparr>, ResUnit)"

text \<open>The bare IDs: the set of those in use.\<close>

definition ida_take :: "nat set \<Rightarrow> nat \<Rightarrow> nat \<Rightarrow> nat set \<times> ida_result" where
  "ida_take used i n = (case lowest (\<lambda>j. j \<notin> used) i n of None \<Rightarrow> (used, IdaId (Inl ENOSPC)) | Some j \<Rightarrow> (insert j used, IdaId (Inr j)))"

fun ida_spec :: "nat set \<Rightarrow> ida_call \<Rightarrow> nat set \<times> ida_result" where
  "ida_spec used IdaAlloc = ida_take used 0 INT_MAX"
| "ida_spec used (IdaAllocMin i) = ida_take used i INT_MAX"
| "ida_spec used (IdaFree i) = (used - {i}, IdaUnit)"
| "ida_spec used IdaDestroy = ({}, IdaUnit)"
| "ida_spec used (IdaSimpleGet start end) = ida_take used (nat start) (nat (end - 1))"
| "ida_spec used IdaIsEmpty = (used, IdaBool (used = {}))"

text \<open>An implementation agrees with its description on every call.\<close>

definition documented :: "('a \<Rightarrow> 'c \<Rightarrow> 'a \<times> 'r) \<Rightarrow> ('s \<Rightarrow> 'c \<Rightarrow> 's \<times> 'r) \<Rightarrow> ('s \<Rightarrow> 'a) \<Rightarrow> bool" where
  "documented spec op view \<longleftrightarrow> (\<forall>s c. map_prod view id (op s c) = spec (view s) c)"

section \<open>What a test sees of an implementation\<close>

text \<open>Whatever the tests see of a documented allocator they see of the abstract one.\<close>

lemma documented_step: "documented spec op view \<Longrightarrow> op s c = (s', r) \<Longrightarrow> spec (view s) c = (view s', r)"
  unfolding documented_def by (metis id_apply map_prod_simp)

lemma documented_self: "documented spec spec (\<lambda>s. s)"
  by (simp add: documented_def prod.map_ident_strong)

lemma run_test_documented:
  assumes "documented spec op view"
  shows "run_test spec (view s) ts = Done (x, rs) \<Longrightarrow> \<exists>s'. run_test op s ts = Done (s', rs) \<and> view s' = x"
proof (induction ts arbitrary: s rs)
  case (Cons t ts)
  obtain c ok where t: "t = (c, ok)" by force
  obtain s1 r where op: "op s c = (s1, r)" by force
  from Cons.prems t documented_step [OF assms op] obtain rs' where ok: "ok r" "rs = r # rs'"
    and r: "run_test spec (view s1) ts = Done (x, rs')"
    by (auto simp: kbind_eq_Done split: if_splits)
  from Cons.IH [OF r] ok t op show ?case by auto
qed simp

lemma run_shown_documented:
  assumes "documented spec op view"
  shows "run_shown spec (view s) ts = Done (x, ls) \<Longrightarrow> \<exists>s'. run_shown op s ts = Done (s', ls) \<and> view s' = x"
proof (induction ts arbitrary: s ls)
  case (Cons t ts)
  obtain b c ok out where t: "t = (b, c, ok, out)" by (cases t)
  obtain s1 r where op: "op s c = (s1, r)" by force
  from Cons.prems t documented_step [OF assms op] obtain ls' where ok: "ok r" "ls = b @ out r @ ls'"
    and r: "run_shown spec (view s1) ts = Done (x, ls')"
    by (auto simp: kbind_eq_Done split: if_splits)
  from Cons.IH [OF r] ok t op show ?case by auto
qed simp

definition passes :: "('s \<Rightarrow> 'c \<Rightarrow> 's \<times> 'r) \<Rightarrow> 's \<Rightarrow> ('c, 'r) script \<Rightarrow> 's \<Rightarrow> bool" where
  "passes spec s ts s' \<longleftrightarrow> (\<exists>rs. run_test spec s ts = Done (s', rs))"

lemma passes_Nil [simp]: "passes spec s [] s' \<longleftrightarrow> s' = s"
  by (auto simp: passes_def)

lemma passes_Cons [simp]:
  "passes spec s ((c, ok) # ts) s' \<longleftrightarrow> ok (snd (spec s c)) \<and> passes spec (fst (spec s c)) ts s'"
  by (auto simp: passes_def case_prod_unfold kbind_eq_Done)

lemma passes_append: "passes spec s ts s1 \<Longrightarrow> passes spec s1 ts' s' \<Longrightarrow> passes spec s (ts @ ts') s'"
  by (induction ts arbitrary: s) auto

lemma passes_documented:
  assumes "documented spec op view" and "passes spec (view s) ts x"
  shows "\<exists>s'. passes op s ts s' \<and> view s' = x"
  using assms run_test_documented [OF assms(1)] unfolding passes_def by metis

section \<open>The lowest free ID\<close>

lemma lowest_at:
  assumes "\<And>k. i \<le> k \<Longrightarrow> k < j \<Longrightarrow> \<not> P k" and "P j" and "i \<le> j" "j \<le> n"
  shows "lowest P i n = Some j"
  using assms
proof (induction P i n rule: lowest.induct)
  case (1 P i n)
  then show ?case by (cases "i = j") (auto simp: lowest.simps [of P i] lowest.simps [of P j])
qed

lemma lowest_none: "(\<And>k. i \<le> k \<Longrightarrow> k \<le> n \<Longrightarrow> \<not> P k) \<Longrightarrow> lowest P i n = None"
  by (induction P i n rule: lowest.induct) (auto simp: lowest.simps)

text \<open>Consecutive allocations from a range whose lower IDs are taken.\<close>

lemma passes_fill:
  assumes "\<And>j. max (nat start) (id_base s) \<le> j \<Longrightarrow> j < k \<Longrightarrow> id_map s j \<noteq> None" and "\<And>j. k \<le> j \<Longrightarrow> j < n \<Longrightarrow> id_map s j = None"
    and "0 \<le> start" "max (nat start) (id_base s) \<le> k" "n \<le> Suc (last_id end)"
  shows "passes idr_spec s (map (\<lambda>i. (IdrAlloc (p i) start end, is_id i)) [k..<n])
    (s\<lparr>id_map := \<lambda>j. if k \<le> j \<and> j < n then Some (p j) else id_map s j\<rparr>)"
  using assms
proof (induction "n - k" arbitrary: k s)
  case 0
  then have "n \<le> k" by simp
  then have "(\<lambda>j. if k \<le> j \<and> j < n then Some (p j) else id_map s j) = id_map s" by (intro ext) auto
  then show ?case using \<open>n \<le> k\<close> by simp
next
  case (Suc d)
  let ?s = "s\<lparr>id_map := (id_map s)(k \<mapsto> p k)\<rparr>"
  have "lowest (\<lambda>j. id_map s j = None) (max (nat start) (id_base s)) (last_id end) = Some k"
    using Suc.prems Suc.hyps(2) by (intro lowest_at) auto
  then have st: "idr_spec s (IdrAlloc (p k) start end) = (?s, ResId (Inr k))" using Suc.prems(3) by (simp add: take_id_def)
  have "passes idr_spec ?s (map (\<lambda>i. (IdrAlloc (p i) start end, is_id i)) [Suc k..<n])
      (?s\<lparr>id_map := \<lambda>j. if Suc k \<le> j \<and> j < n then Some (p j) else id_map ?s j\<rparr>)"
    using Suc.prems Suc.hyps(2) by (intro Suc.hyps(1)) (auto simp: le_Suc_eq less_Suc_eq)
  moreover have "(\<lambda>j. if Suc k \<le> j \<and> j < n then Some (p j) else id_map ?s j) =
      (\<lambda>j. if k \<le> j \<and> j < n then Some (p j) else id_map s j)" using Suc.hyps(2) by (auto simp: fun_eq_iff)
  moreover have "[k..<n] = k # [Suc k..<n]" using Suc.hyps(2) by (simp add: upt_conv_Cons)
  ultimately show ?case using st by (simp add: is_id_def)
qed

text \<open>Items that are removed one after the other.\<close>

lemma passes_remove:
  assumes "\<And>j. k \<le> j \<Longrightarrow> j < n \<Longrightarrow> \<exists>ord. id_map s j = Some (Item j ord)"
  shows "passes idr_spec s (concat (map item_idr_remove [k..<n])) (s\<lparr>id_map := \<lambda>j. if k \<le> j \<and> j < n then None else id_map s j\<rparr>)"
  using assms
proof (induction "n - k" arbitrary: k s)
  case 0
  then have "n \<le> k" by simp
  then have "(\<lambda>j. if k \<le> j \<and> j < n then None else id_map s j) = id_map s" by (intro ext) auto
  then show ?case using \<open>n \<le> k\<close> by simp
next
  case (Suc d)
  let ?s = "s\<lparr>id_map := (id_map s)(k := None)\<rparr>"
  obtain ord where "id_map s k = Some (Item k ord)" using Suc.prems [of k] Suc.hyps(2) by force
  moreover have "passes idr_spec ?s (concat (map item_idr_remove [Suc k..<n]))
      (?s\<lparr>id_map := \<lambda>j. if Suc k \<le> j \<and> j < n then None else id_map ?s j\<rparr>)"
    using Suc.prems Suc.hyps(2) by (intro Suc.hyps(1)) auto
  moreover have "(\<lambda>j. if Suc k \<le> j \<and> j < n then None else id_map ?s j) = (\<lambda>j. if k \<le> j \<and> j < n then None else id_map s j)"
    using Suc.hyps(2) by (auto simp: fun_eq_iff)
  moreover have "[k..<n] = k # [Suc k..<n]" using Suc.hyps(2) by (simp add: upt_conv_Cons)
  ultimately show ?case by (simp add: item_idr_remove_def entry_of_def)
qed

lemma set_populated: "set (populated m) = {j. entry_of (m j) \<noteq> NULLP \<and> j \<le> INT_MAX}" and sorted_populated: "sorted (populated m)"
proof -
  have "finite {j. entry_of (m j) \<noteq> NULLP \<and> j \<le> INT_MAX}" by (rule finite_subset [of _ "{..INT_MAX}"]) auto
  then show "set (populated m) = {j. entry_of (m j) \<noteq> NULLP \<and> j \<le> INT_MAX}" "sorted (populated m)" by (simp_all add: populated_def)
qed

lemma for_each_items:
  assumes "\<And>j e. id_map s j = Some e \<Longrightarrow> is_item j e"
  shows "item_idr_free (snd (idr_spec s IdrForEach))"
  using assms by (auto simp: visited_def list_all_iff set_populated entry_of_def split: option.splits)

lemma next_id_populated: "next_id m i = (case filter (\<lambda>j. i \<le> j) (populated m) of [] \<Rightarrow> None | j # _ \<Rightarrow> Some j)"
proof (cases "filter (\<lambda>j. i \<le> j) (populated m)")
  case Nil
  then have "\<not> entry_of (m k) \<noteq> NULLP" if "i \<le> k" "k \<le> INT_MAX" for k using that by (auto simp: filter_empty_conv set_populated)
  then show ?thesis using Nil by (auto simp: next_id_def intro: lowest_none)
next
  case (Cons j js)
  then have "sorted (j # js)" using sorted_wrt_filter [OF sorted_populated, of "\<lambda>j. i \<le> j" m] by simp
  moreover have "set (j # js) = {k. entry_of (m k) \<noteq> NULLP \<and> k \<le> INT_MAX \<and> i \<le> k}"
    by (subst Cons [symmetric]) (auto simp: set_populated)
  ultimately have j: "entry_of (m k) \<noteq> NULLP \<and> k \<le> INT_MAX \<and> i \<le> k \<longleftrightarrow> k = j \<or> k \<in> set js" "k \<in> set js \<Longrightarrow> j \<le> k" for k
    by auto
  have "lowest (\<lambda>j. entry_of (m j) \<noteq> NULLP) i INT_MAX = Some j"
  proof (rule lowest_at)
    fix k assume "i \<le> k" "k < j"
    then show "\<not> entry_of (m k) \<noteq> NULLP" using j [of k] j(1) [of j] by auto
  qed (use j(1) [of j] in auto)
  then show ?thesis using Cons by (simp add: next_id_def)
qed

text \<open>An allocator with no entries, and a test that leaves it so.\<close>

definition clean :: "nat \<Rightarrow> idr_state \<Rightarrow> bool" where
  "clean b s \<longleftrightarrow> id_map s = Map.empty \<and> id_base s = b"

definition tidy :: "nat \<Rightarrow> idr_script \<Rightarrow> bool" where
  "tidy b ts \<longleftrightarrow> (\<forall>s. clean b s \<longrightarrow> (\<exists>s'. passes idr_spec s ts s' \<and> clean b s'))"

lemma tidy_append: "tidy b ts \<Longrightarrow> tidy b ts' \<Longrightarrow> tidy b (ts @ ts')"
  unfolding tidy_def by (metis passes_append)

lemma tidy_Nil [simp]: "tidy b []"
  by (simp add: tidy_def)

lemma tidy_concat: "(\<And>ts. ts \<in> set tss \<Longrightarrow> tidy b ts) \<Longrightarrow> tidy b (concat tss)"
  by (induction tss) (auto simp: tidy_append)

text \<open>The end of most tests.\<close>

lemma tidy_end:
  assumes "passes idr_spec s ts s1" and "\<And>j e. id_map s1 j = Some e \<Longrightarrow> is_item j e" and "id_base s1 = b"
  shows "\<exists>s'. passes idr_spec s (ts @ [(IdrForEach, item_idr_free), (IdrDestroy, any_result)]) s' \<and> clean b s'"
  using for_each_items [OF assms(2)] assms(3)
  by (intro exI [of _ "s1\<lparr>id_map := Map.empty\<rparr>"] conjI passes_append [OF assms(1)]) (auto simp: clean_def)

lemma tidy_fill:
  assumes "0 \<le> start" "max (nat start) b \<le> k" "n \<le> Suc (last_id end)" "k = max (nat start) b"
  shows "tidy b (map (\<lambda>i. (IdrAlloc (Item i ord) start end, is_id i)) [k..<n] @ [(IdrForEach, item_idr_free), (IdrDestroy, any_result)])"
  unfolding tidy_def
proof (intro allI impI)
  fix s assume "clean b s"
  then show "\<exists>s'. passes idr_spec s (map (\<lambda>i. (IdrAlloc (Item i ord) start end, is_id i)) [k..<n] @
      [(IdrForEach, item_idr_free), (IdrDestroy, any_result)]) s' \<and> clean b s'"
    using assms by (intro tidy_end [OF passes_fill [of start s k n "end" "\<lambda>i. Item i ord"]]) (auto simp: clean_def split: if_splits)
qed

lemma idr_checks_from_one_tidy: "tidy 0 idr_checks_from_one"
  unfolding idr_checks_from_one_def by (rule tidy_fill) (simp_all add: last_id_def)

lemma empty_is_tidy: "tidy b [empty_is True]"
  by (simp add: tidy_def clean_def)

lemma idr_checks_fill_tidy: "tidy 0 idr_checks_fill"
proof -
  let ?first = "map (\<lambda>i. (IdrAlloc (Item i 0) 0 20000, is_id i)) [0..<10000] @ [(IdrAlloc DUMMY_PTR 5 30, is_error)] @
    concat (map item_idr_remove [0..<5000]) @ [(IdrRemove 3, any_result)]"
  have "tidy 0 (?first @ [(IdrForEach, item_idr_free), (IdrDestroy, any_result)])"
    unfolding tidy_def
  proof (intro allI impI)
    fix s assume c: "clean 0 s"
    let ?s1 = "s\<lparr>id_map := \<lambda>j. if 0 \<le> j \<and> j < 10000 then Some (Item j 0) else id_map s j\<rparr>"
    let ?s2 = "?s1\<lparr>id_map := \<lambda>j. if 0 \<le> j \<and> j < 5000 then None else id_map ?s1 j\<rparr>"
    have 1: "passes idr_spec s (map (\<lambda>i. (IdrAlloc (Item i 0) 0 20000, is_id i)) [0..<10000]) ?s1"
      using c by (intro passes_fill) (auto simp: clean_def last_id_def)
    have "lowest (\<lambda>j. id_map ?s1 j = None) 5 29 = None" by (intro lowest_none) auto
    then have 2: "passes idr_spec ?s1 [(IdrAlloc DUMMY_PTR 5 30, is_error)] ?s1" using c by (simp add: take_id_def last_id_def clean_def)
    have 3: "passes idr_spec ?s1 (concat (map item_idr_remove [0..<5000])) ?s2" by (intro passes_remove) auto
    have 4: "passes idr_spec ?s2 [(IdrRemove 3, any_result)] ?s2" by (auto simp: fun_upd_idem)
    show "\<exists>s'. passes idr_spec s (?first @ [(IdrForEach, item_idr_free), (IdrDestroy, any_result)]) s' \<and> clean 0 s'"
      by (rule tidy_end [OF passes_append [OF 1 passes_append [OF 2 passes_append [OF 3 4]]]])
        (use c in \<open>auto simp: clean_def split: if_splits\<close>)
  qed
  from tidy_append [OF this empty_is_tidy] show ?thesis
    unfolding idr_checks_fill_def by (simp del: upt_rec_numeral)
qed

section \<open>Tests on a few IDs\<close>

text \<open>The entries as a list, on which the simplifier runs a script.\<close>

definition store :: "(nat \<times> entry) list \<Rightarrow> nat \<rightharpoonup> entry" where
  "store xs = map_of xs"

lemma store_Nil [simp]: "store [] = Map.empty"
  by (simp add: store_def)

lemma store_at: "store ((j, e) # xs) i = (if j = i then Some e else store xs i)"
  by (simp add: store_def)

lemma store_upd: "(store xs)(i \<mapsto> e) = store (AList.update i e xs)" and store_first: "[i \<mapsto> e] = store [(i, e)]"
  and store_remove: "(store xs)(i := None) = store (AList.delete i xs)" and none_remove: "Map.empty(i := None) = Map.empty"
  by (simp_all add: store_def update_conv' delete_conv')

lemma store_empty [simp]: "store (x # xs) = Map.empty \<longleftrightarrow> False"
  by (simp add: store_def)

lemma populated_store:
  "distinct (map fst xs) \<Longrightarrow> populated (store xs) = sort (map fst (filter (\<lambda>(j, e). e \<noteq> NULLP \<and> j \<le> INT_MAX) xs))"
  (is "_ \<Longrightarrow> _ = sort (map fst ?ys)")
proof (rule sorted_distinct_set_unique)
  assume d: "distinct (map fst xs)"
  have "j \<in> set (populated (store xs)) \<longleftrightarrow> (\<exists>e. (j, e) \<in> set ?ys)" for j
    by (cases "map_of xs j") (auto simp: set_populated store_def entry_of_def map_of_eq_Some_iff [OF d, symmetric])
  then show "set (populated (store xs)) = set (sort (map fst ?ys))" by force
qed (simp_all add: sorted_populated distinct_map_filter, simp add: populated_def)

lemmas idr_run = take_id_def take_cyclic_def last_id_def lowest.simps is_id_def entry_of_def INT_MAX_def
  store_at store_upd store_first store_remove none_remove upt_rec numeral_2_eq_2 [symmetric]
  visited_def populated_store next_id_populated s32_def u32_def

lemma idr_replace_test_tidy: "tidy 0 idr_replace_test"
  by (simp add: tidy_def idr_replace_test_def idr_run clean_def)

lemma idr_null_test_tidy: "tidy 0 idr_null_test"
  by (simp add: tidy_def idr_null_test_def idr_run clean_def)

lemma idr_alloc_test_passes:
  assumes "clean 0 s" and "id_next s = 0"
  shows "\<exists>s'. passes idr_spec s idr_alloc_test s' \<and> clean 0 s'"
  using assms by (simp add: idr_alloc_test_def idr_run clean_def)

lemma idr_nowait_test_tidy: "tidy 0 idr_nowait_test"
  by (simp add: tidy_def idr_nowait_test_def idr_run clean_def)

lemma idr_checks_max_tidy: "tidy 0 idr_checks_max"
  by (simp add: tidy_def idr_checks_max_def idr_run clean_def)

lemma idr_checks_cursor_tidy: "tidy 0 idr_checks_cursor"
  by (simp add: tidy_def idr_checks_cursor_def idr_run clean_def)

lemma idr_get_next_test_tidy: "b \<le> 4 \<Longrightarrow> tidy b idr_get_next_test"
  by (simp add: tidy_def idr_get_next_test_def indices_def idr_run clean_def)

lemma idr_u32_test1_tidy: "b \<le> handle \<Longrightarrow> tidy b (idr_u32_test1 handle)"
  by (simp add: tidy_def idr_u32_test1_def idr_run clean_def)

lemma idr_align_test_tidy: "tidy 0 idr_align_test"
  by (simp add: tidy_def idr_align_test_def idr_run clean_def)

lemma idr_checks_small_tidy:
  assumes "map_size \<le> Suc INT_MAX"
  shows "tidy 0 (idr_checks_small map_size)"
proof -
  have "\<exists>s'. passes idr_spec s (idr_checks_small map_size) s' \<and> clean 0 s'" if c: "clean 0 s" for s
  proof -
    let ?s = "s\<lparr>id_map := [0 \<mapsto> DUMMY_PTR]\<rparr>"
    have "passes idr_spec ?s (map (\<lambda>i. (IdrAlloc DUMMY_PTR 0 0, is_id i)) [1..<map_size])
      (?s\<lparr>id_map := \<lambda>j. if 1 \<le> j \<and> j < map_size then Some DUMMY_PTR else id_map ?s j\<rparr>)"
      using c assms by (intro passes_fill) (auto simp: clean_def last_id_def)
    then have "passes idr_spec ?s (map (\<lambda>i. (IdrAlloc DUMMY_PTR 0 0, is_id i)) [1..<map_size] @
      [(IdrRemove (2 ^ 30), any_result), (IdrDestroy, any_result)]) (s\<lparr>id_map := Map.empty\<rparr>)"
      by (rule passes_append) simp
    then show ?thesis using c by (auto simp: idr_checks_small_def idr_run clean_def simp del: upt_rec)
  qed
  then show ?thesis by (simp add: tidy_def)
qed

lemma idr_u32_test_tidy: "b \<le> 4 \<Longrightarrow> tidy b idr_u32_test"
  unfolding idr_u32_test_def by (rule tidy_concat) (auto intro!: idr_u32_test1_tidy)

section \<open>All tests pass\<close>

text \<open>
  On every allocator that behaves as documented and that is empty when it is set up, \<open>idr_checks\<close> runs through:
  no assertion fails, and the allocator is empty in the end.
\<close>

definition fresh :: "nat \<Rightarrow> idr_state" where
  "fresh base = \<lparr>id_base = base, id_next = 0, id_map = Map.empty\<rparr>"

lemma fresh_clean: "clean b (fresh b)"
  by (simp add: fresh_def clean_def)

lemma tidy_fresh: "tidy b ts \<Longrightarrow> \<exists>s'. passes idr_spec (fresh b) ts s'"
  using fresh_clean [of b] by (auto simp: tidy_def)

lemma own_test_passes: "(b, ts) \<in> set idr_own_tests \<Longrightarrow> \<exists>s'. passes idr_spec (fresh b) ts s'"
  using idr_alloc_test_passes [OF fresh_clean [of 0]] tidy_fresh [OF idr_get_next_test_tidy [of 1]] tidy_fresh [OF idr_u32_test_tidy [of 1]]
  by (auto simp: idr_own_tests_def fresh_def [of 0, THEN arg_cong [of _ _ id_next]] intro: tidy_fresh idr_replace_test_tidy
    idr_null_test_tidy idr_nowait_test_tidy idr_get_next_test_tidy idr_u32_test_tidy)

lemma run_own_tests_pass:
  assumes d: "documented idr_spec op view" and mk: "\<And>b. view (mk b) = fresh b"
    and ts: "\<And>b ts. (b, ts) \<in> set tss \<Longrightarrow> \<exists>s'. passes idr_spec (fresh b) ts s'"
  shows "run_own_tests op mk tss = Done ()"
  using ts
proof (induction tss)
  case (Cons t tss)
  obtain b ts where t: "t = (b, ts)" by force
  from Cons.prems [of b ts] t mk obtain x where "passes idr_spec (view (mk b)) ts x" by auto
  from passes_documented [OF d this] Cons t show ?case by (auto simp: passes_def)
qed simp

theorem idr_checks_pass:
  assumes d: "documented idr_spec op view" and mk: "\<And>b. view (mk b) = fresh b" and "map_size \<le> Suc INT_MAX"
  shows "\<exists>s. idr_checks op mk map_size = Done s \<and> clean 0 (view s)"
proof -
  let ?first = "idr_checks_fill @ idr_checks_small map_size @ idr_checks_max @ idr_checks_cursor @ idr_checks_from_one"
  have "tidy 0 ?first"
    by (intro tidy_append idr_checks_fill_tidy idr_checks_small_tidy idr_checks_max_tidy idr_checks_cursor_tidy
      idr_checks_from_one_tidy assms(3))
  then obtain x where x: "passes idr_spec (view (mk 0)) ?first x" "clean 0 x" using fresh_clean [of 0] mk by (auto simp: tidy_def)
  from passes_documented [OF d x(1)] obtain s where s: "passes op (mk 0) ?first s" "clean 0 (view s)" using x(2) by auto
  from idr_align_test_tidy s(2) obtain y where y: "passes idr_spec (view s) idr_align_test y" "clean 0 y" by (auto simp: tidy_def)
  from passes_documented [OF d y(1)] obtain s' where s': "passes op s idr_align_test s'" "clean 0 (view s')" using y(2) by auto
  have "run_own_tests op mk idr_own_tests = Done ()" by (rule run_own_tests_pass [OF d mk own_test_passes])
  then show ?thesis using s(1) s' by (auto simp: idr_checks_def passes_def)
qed

text \<open>The tests of the bare IDs, whatever the random numbers are.\<close>

lemma random_steps_pass: "bitmap \<subseteq> {..<2048} \<Longrightarrow> \<exists>used. passes ida_spec bitmap (random_steps bitmap rs) used"
proof (induction rs arbitrary: bitmap)
  case (Cons r rs)
  let ?b = "r mod 2048"
  have "lowest (\<lambda>j. j \<notin> bitmap) ?b INT_MAX = Some ?b" if "?b \<notin> bitmap"
    using that by (intro lowest_at) (auto simp: INT_MAX_def)
  then show ?case using Cons.IH [of "bitmap - {?b}"] Cons.IH [of "insert ?b bitmap"] Cons.prems
    by (auto simp: Let_def ida_take_def ida_id_def)
qed auto

lemma ida_check_random_passes:
  assumes "documented ida_spec op view" and "view a = {}"
  shows "\<exists>a'. passes op a (ida_check_random rounds) a' \<and> view a' = {}"
proof -
  have "passes ida_spec {} (ida_check_random rounds) {}"
  proof (induction rounds)
    case (Cons rs rounds)
    obtain used where "passes ida_spec {} (random_steps {} rs) used" using random_steps_pass [of "{}" rs] by auto
    then have "passes ida_spec {} (random_steps {} rs @ [(IdaDestroy, any_result)]) {}" by (rule passes_append) simp
    from passes_append [OF this Cons] show ?case by (simp add: ida_check_random_def)
  qed (simp add: ida_check_random_def)
  then show ?thesis using passes_documented [OF assms(1)] assms(2) by fastforce
qed

lemma ida_get_all:
  "k \<le> n \<Longrightarrow> n \<le> 20000 \<Longrightarrow> passes ida_spec {..<k} (map (\<lambda>i. (IdaSimpleGet 0 20000, ida_id i)) [k..<n]) {..<n}"
proof (induction "n - k" arbitrary: k)
  case (Suc d)
  then have "lowest (\<lambda>j. j \<notin> {..<k}) 0 19999 = Some k" by (intro lowest_at) auto
  moreover have "[k..<n] = k # [Suc k..<n]" using Suc.hyps(2) by (simp add: upt_conv_Cons)
  ultimately show ?case using Suc.hyps(1) [of "Suc k"] Suc.hyps(2) Suc.prems by (simp add: ida_take_def ida_id_def lessThan_Suc)
qed auto

lemma ida_free_all: "k \<le> n \<Longrightarrow> passes ida_spec {k..<n} (map (\<lambda>i. (IdaFree i, any_result)) [k..<n]) {}"
proof (induction "n - k" arbitrary: k)
  case (Suc d)
  then have "[k..<n] = k # [Suc k..<n]" "{k..<n} - {k} = {Suc k..<n}" by (auto simp: upt_conv_Cons)
  then show ?case using Suc.hyps(1) [of "Suc k"] Suc.hyps(2) by simp
qed auto

lemma ida_simple_get_remove_passes:
  assumes "documented ida_spec op view" and "view a = {}"
  shows "\<exists>a'. passes op a ida_simple_get_remove_test a' \<and> view a' = {}"
proof -
  have "lowest (\<lambda>j. j \<notin> {..<10000}) 5 29 = None" by (intro lowest_none) auto
  then have "passes ida_spec {..<10000} [(IdaSimpleGet 5 30, ida_error)] {0..<10000}" by (simp add: ida_take_def atLeast0LessThan)
  moreover have "passes ida_spec {} [(IdaIsEmpty, \<lambda>r. r = IdaBool True), (IdaDestroy, any_result)] {}" by simp
  ultimately have "passes ida_spec {..<0} ida_simple_get_remove_test {}" unfolding ida_simple_get_remove_test_def
    by (intro passes_append [OF ida_get_all] passes_append [OF _ passes_append [OF ida_free_all]]) simp_all
  then show ?thesis using passes_documented [OF assms(1)] assms(2) by fastforce
qed

section \<open>What the program prints\<close>

text \<open>
  The IDs 0 to 9, then, behind the frees of 3 and 5, these two and 10 to 12; the ten items, item 5 found
  before its removal and not behind it, and in the end an empty allocator.
\<close>

definition ida_lines :: "shown list" where
  "ida_lines = [Heading ''ida_alloc()''] @ map (\<lambda>i. IdaShown (Inr i)) [0..<10] @ [Heading ''ida_free()''] @
     map (\<lambda>i. IdaShown (Inr i)) [3, 5, 10, 11, 12] @ [Heading ''ida_destroy()'']"

definition idr_lines :: "shown list" where
  "idr_lines = [Heading ''idr_alloc()..................''] @ map (\<lambda>i. Allocated i (Inr i)) [0..<10] @
     [Heading ''idr_for_each_entry()................''] @ map (\<lambda>i. Listed i i (10 * i)) [0..<10] @
     [Heading ''idr_find()...................'', Found 5 5 50, Heading ''idr_remove()................'', NotFound 5,
      Heading ''idr_destroy()..........'', IsEmpty True]"

lemma run_shown_step:
  "run_shown op s ((before, c, ok, out) # rest) =
     (if ok (snd (op s c)) then kbind (run_shown op (fst (op s c)) rest) (\<lambda>(s', ls). Done (s', before @ out (snd (op s c)) @ ls)) else Oops KernelBug)"
  by (simp add: case_prod_unfold)

lemma ida_test_simple_prints: "ida_test_simple ida_spec {} = Done ({}, ida_lines)"
  by (simp add: ida_test_simple_def ida_lines_def ida_take_def run_shown_step idr_run del: run_shown.simps(2))

lemma run_shown_append:
  "run_shown op s ts = Done (s1, ls) \<Longrightarrow> run_shown op s1 ts' = Done (s2, ls') \<Longrightarrow> run_shown op s (ts @ ts') = Done (s2, ls @ ls')"
proof (induction ts arbitrary: s ls)
  case (Cons t ts)
  obtain b c ok out where "t = (b, c, ok, out)" by (cases t)
  with Cons show ?case by (auto simp: case_prod_unfold kbind_eq_Done split: if_splits)
qed simp

text \<open>The state behind the ten allocations of \<open>idr_test_simple\<close>.\<close>

abbreviation filled :: idr_state where
  "filled \<equiv> (fresh 0)\<lparr>id_map := store [(0, Item 0 0), (1, Item 1 10), (2, Item 2 20), (3, Item 3 30), (4, Item 4 40),
     (5, Item 5 50), (6, Item 6 60), (7, Item 7 70), (8, Item 8 80), (9, Item 9 90)]\<rparr>"

lemma idr_simple_fill:
  "run_shown idr_spec (fresh 0) (map (\<lambda>i. (if i = 0 then [Heading ''idr_alloc()..................''] else [],
     IdrAlloc (Item i (i * 10)) 0 0, any_result, show_id i)) [0..<10]) =
   Done (filled, Heading ''idr_alloc()..................'' # map (\<lambda>i. Allocated i (Inr i)) [0..<10])"
  by (simp add: fresh_def run_shown_step idr_run del: run_shown.simps(2))

lemma idr_simple_rest:
  "run_shown idr_spec filled
     [([Heading ''idr_for_each_entry()................''], IdrForEach, all_items, show_all),
      ([Heading ''idr_find()...................''], IdrFind 5, item_or_null, show_find 5),
      ([Heading ''idr_remove()................''], IdrRemove 5, any_result, \<lambda>_. []),
      ([], IdrFind 5, item_or_null, show_find 5),
      ([Heading ''idr_destroy()..........''], IdrForEach, item_idr_free, \<lambda>_. []),
      ([], IdrDestroy, any_result, \<lambda>_. []),
      ([], IdrIsEmpty, any_result, show_empty)] =
   Done (fresh 0, Heading ''idr_for_each_entry()................'' # map (\<lambda>i. Listed i i (10 * i)) [0..<10] @
     [Heading ''idr_find()...................'', Found 5 5 50, Heading ''idr_remove()................'', NotFound 5,
      Heading ''idr_destroy()..........'', IsEmpty True])"
  by (simp add: fresh_def run_shown_step idr_run del: run_shown.simps(2))

text \<open>The removed item is handed back, but not taken, and it is no longer among the entries that \<open>item_idr_free\<close> sees.\<close>

lemma idr_simple_loses_item:
  "idr_spec filled (IdrRemove 5) = (s, r) \<Longrightarrow> r = ResEntry (Inr (Item 5 50)) \<and> Item 5 50 \<notin> snd ` set (visited (id_map s))"
  by (auto simp: idr_run)

lemma idr_test_simple_prints: "idr_test_simple idr_spec (fresh 0) = Done (fresh 0, idr_lines)"
  using run_shown_append [OF idr_simple_fill idr_simple_rest] by (simp add: idr_test_simple_def idr_lines_def)

lemma simple_tests_documented:
  "documented ida_spec ida viewa \<Longrightarrow> ida_test_simple ida_spec (viewa a) = Done (x, ls) \<Longrightarrow>
     \<exists>a'. ida_test_simple ida a = Done (a', ls) \<and> viewa a' = x"
  "documented idr_spec idr view \<Longrightarrow> idr_test_simple idr_spec (view s) = Done (y, ls) \<Longrightarrow>
     \<exists>s'. idr_test_simple idr s = Done (s', ls) \<and> view s' = y"
  unfolding ida_test_simple_def idr_test_simple_def by (rule run_shown_documented; assumption)+

theorem idr_test_main_prints:
  assumes "documented ida_spec ida viewa" "viewa a = {}" and "documented idr_spec idr view" "view s = fresh 0"
  shows "idr_test_main ida a idr s = Done (ida_lines @ idr_lines, 0)"
proof -
  obtain a' where "ida_test_simple ida a = Done (a', ida_lines)"
    using simple_tests_documented(1) [OF assms(1)] ida_test_simple_prints assms(2) by metis
  moreover obtain s' where "idr_test_simple idr s = Done (s', idr_lines)"
    using simple_tests_documented(2) [OF assms(3)] idr_test_simple_prints assms(4) by metis
  ultimately show ?thesis by (simp add: idr_test_main_def)
qed

end
