(* ===== verification/Scull_Proc.thy ===== *)
theory Scull_Proc
  imports Scull_Life Scullp_System
begin

text \<open>
  What the debugging builds of scull and scullp add: their files under \<^verbatim>\<open>/proc\<close>, and the file of \<^verbatim>\<open>m_modules/proc/simple_proc.c\<close>. The tables of
  \<^verbatim>\<open>ldd/scull/main.c\<close>, \<^verbatim>\<open>pipe.c\<close> and \<^verbatim>\<open>ldd/scullp/main.c\<close>, a read of a file through its table, and where
  loading and unloading create and remove the files. Shown are that the debugging builds make the same other calls, that the two files of
  the bare devices show the same, that a closed file gives back what its opening took, and that unloading scull frees the devices
  while their file can still be read.
\<close>

section \<open>Tables\<close>

record seq_operations =
  so_start :: "int \<Rightarrow> int \<Rightarrow> int option"
  so_next :: "int \<Rightarrow> int \<Rightarrow> int \<times> int option"
  so_stop :: "scull_dev list \<Rightarrow> scull_dev list"
  so_show :: "bool \<Rightarrow> int \<Rightarrow> scull_dev \<Rightarrow> (unit ret \<times> seq_line list) exec"

definition scull_seq_stop :: "scull_dev list \<Rightarrow> scull_dev list" where
  "scull_seq_stop devs = devs"

definition scull_seq_ops :: seq_operations where
  "scull_seq_ops =
     \<lparr>so_start = scull_seq_start, so_next = scull_seq_next, so_stop = scull_seq_stop, so_show = scull_seq_show\<rparr>"

text \<open>
  The functions that print a whole file, and what an opened file reads from: one of them (\<open>single_open\<close>) or an iterator
  (\<open>seq_open\<close>). The other methods in the tables are functions of the kernel.
\<close>

datatype proc_show = ShowScullMem | ShowScullPipe | ShowScullpMem | ShowSimple
datatype ('f, 'o) seq_source = SingleOpen 'f | SeqOpen 'o
datatype kernel_method = SeqRead | SeqLseek | SingleRelease | SeqRelease

record ('f, 'o) proc_operations =
  po_open :: "('f, 'o) seq_source"
  po_read :: kernel_method
  po_llseek :: kernel_method
  po_release :: kernel_method

type_synonym scull_source = "(proc_show, seq_operations) seq_source"
type_synonym scull_proc_operations = "(proc_show, seq_operations) proc_operations"

definition scullmem_proc_open :: scull_source where "scullmem_proc_open = SingleOpen ShowScullMem"
definition scullseq_proc_open :: scull_source where "scullseq_proc_open = SeqOpen scull_seq_ops"
definition scullpipe_proc_open :: scull_source where "scullpipe_proc_open = SingleOpen ShowScullPipe"
definition scullp_proc_open :: scull_source where "scullp_proc_open = SingleOpen ShowScullpMem"

definition scullmem_proc_ops :: scull_proc_operations where
  "scullmem_proc_ops = \<lparr>po_open = scullmem_proc_open, po_read = SeqRead, po_llseek = SeqLseek, po_release = SingleRelease\<rparr>"

definition scullseq_proc_ops :: scull_proc_operations where
  "scullseq_proc_ops = \<lparr>po_open = scullseq_proc_open, po_read = SeqRead, po_llseek = SeqLseek, po_release = SeqRelease\<rparr>"

definition scullpipe_proc_ops :: scull_proc_operations where
  "scullpipe_proc_ops = \<lparr>po_open = scullpipe_proc_open, po_read = SeqRead, po_llseek = SeqLseek, po_release = SingleRelease\<rparr>"

definition scullp_proc_ops :: scull_proc_operations where
  "scullp_proc_ops = \<lparr>po_open = scullp_proc_open, po_read = SeqRead, po_llseek = SeqLseek, po_release = SingleRelease\<rparr>"

text \<open>The module \<^verbatim>\<open>m_modules/proc/simple_proc.c\<close> has a table of the same form.\<close>

definition simple_proc_open :: scull_source where "simple_proc_open = SingleOpen ShowSimple"

definition simple_proc_fops :: scull_proc_operations where
  "simple_proc_fops = \<lparr>po_open = simple_proc_open, po_read = SeqRead, po_llseek = SeqLseek, po_release = SingleRelease\<rparr>"

definition simple_proc_show :: "unit ret \<times> string list" where
  "simple_proc_show = (Inr (), [''Hello proc''])"

section \<open>Creating and removing the files\<close>

text \<open>The calls of a debugging build: those of the other build, and those on the directory \<^verbatim>\<open>/proc\<close>.\<close>

datatype dcall = Kernel kcall | ProcCreate string scull_proc_operations | ProcRemove string

definition scull_create_proc :: "dcall list" where
  "scull_create_proc = [ProcCreate ''scullmem'' scullmem_proc_ops, ProcCreate ''scullseq'' scullseq_proc_ops]"

definition scull_remove_proc :: "dcall list" where
  "scull_remove_proc = [ProcRemove ''scullmem'', ProcRemove ''scullseq'']"

definition scull_p_init_debug :: "init_env \<Rightarrow> int \<Rightarrow> scull_module \<Rightarrow> scull_module \<times> int \<times> dcall list" where
  "scull_p_init_debug e firstdev m =
     (case scull_p_init e firstdev m of
        (m', n, t) \<Rightarrow>
          (m', n, map Kernel t @
             (if region_result e firstdev (m_p_nr_devs m) = None \<and> pipe_array e \<noteq> None
              then [ProcCreate ''scullpipe'' scullpipe_proc_ops] else [])))"

definition scull_p_cleanup_debug :: "scull_module \<Rightarrow> scull_module \<times> dcall list" where
  "scull_p_cleanup_debug m = (case scull_p_cleanup m of (m, t) \<Rightarrow> (m, ProcRemove ''scullpipe'' # map Kernel t))"

definition scull_cleanup_debug :: "scull_module \<Rightarrow> (scull_module \<times> dcall list) exec" where
  "scull_cleanup_debug m =
     kbind (case m_devices m of
              None \<Rightarrow> Done (m, [])
            | Some (a, ds) \<Rightarrow>
                kbind (clean_main (m_params m) 0 ds) (\<lambda>(ds, t). Done (m\<lparr>m_devices := Some (a, ds)\<rparr>, t @ [Kfree a])))
       (\<lambda>(m, t0).
        case scull_p_cleanup_debug m of
          (m, t1) \<Rightarrow>
            kbind (scull_access_cleanup m) (\<lambda>(m, t2).
              Done (m, map Kernel t0 @ scull_remove_proc @
                Kernel (UnregisterRegion (MKDEV (m_major m) (m_minor m)) (m_nr_devs m)) # t1 @ map Kernel t2)))"

definition scull_init_debug :: "init_env \<Rightarrow> scull_module \<Rightarrow> (scull_module \<times> unit ret \<times> dcall list) exec" where
  "scull_init_debug e m =
     (case get_region e m of
        (m, Inl err) \<Rightarrow> Done (m, Inl err, [])
      | (m, Inr _) \<Rightarrow>
          let t0 = Kernel (RegisterRegion (MKDEV (m_major m) (m_minor m)) (m_nr_devs m)) in
          (case main_array e of
             None \<Rightarrow>
               kbind (scull_cleanup_debug (m\<lparr>m_devices := None\<rparr>)) (\<lambda>(m, t). Done (m, Inl ENOMEM, t0 # t))
           | Some a \<Rightarrow>
               let d = zero_dev\<lparr>sd_quantum := scull_quantum (m_params m), sd_qset := scull_qset_p (m_params m)\<rparr>;
                   m = m\<lparr>m_devices := Some (a, replicate (nat (m_nr_devs m)) d)\<rparr>;
                   t1 = map Kernel (concat (map (scull_setup_cdev e m) [0..<nat (m_nr_devs m)]));
                   dev = MKDEV (m_major m) (m_minor m + m_nr_devs m) in
               (case scull_p_init_debug e dev m of
                  (m, n, t2) \<Rightarrow>
                    (case scull_access_init e (dev + n) m of
                       (m, _, t3) \<Rightarrow> Done (m, Inr (), t0 # t1 @ t2 @ map Kernel t3 @ scull_create_proc)))))"

definition scullp_init_debug :: "init_env \<Rightarrow> scullp_module \<Rightarrow> scullp_module \<times> unit ret \<times> dcall list" where
  "scullp_init_debug e m =
     (case scullp_init e m of
        (m, Inl x, t) \<Rightarrow> (m, Inl x, map Kernel t)
      | (m, Inr _, t) \<Rightarrow> (m, Inr (), map Kernel t @ [ProcCreate ''scullpmem'' scullp_proc_ops]))"

definition scullp_cleanup_debug :: "scullp_module \<Rightarrow> dcall list exec" where
  "scullp_cleanup_debug m = kbind (scullp_cleanup m) (\<lambda>t. Done (ProcRemove ''scullpmem'' # map Kernel t))"

definition simple_init :: "int \<times> dcall list" where
  "simple_init = (0, [ProcCreate ''simple'' simple_proc_fops])"

definition simple_exit :: "dcall list" where
  "simple_exit = [ProcRemove ''simple'']"

text \<open>What a sequence of calls does to the directory; \<open>ok\<close> tells whether the kernel can create a file.\<close>

type_synonym proc_dir = "string \<rightharpoonup> scull_proc_operations"

fun proc_call :: "(string \<Rightarrow> bool) \<Rightarrow> dcall \<Rightarrow> proc_dir \<Rightarrow> proc_dir" where
  "proc_call ok (Kernel c) dir = dir"
| "proc_call ok (ProcCreate name ops) dir = (if ok name then dir(name \<mapsto> ops) else dir)"
| "proc_call ok (ProcRemove name) dir = dir(name := None)"

definition proc_calls :: "(string \<Rightarrow> bool) \<Rightarrow> dcall list \<Rightarrow> proc_dir \<Rightarrow> proc_dir" where
  "proc_calls ok t dir = fold (proc_call ok) t dir"

fun other_call :: "dcall \<Rightarrow> kcall list" where
  "other_call (Kernel c) = [c]"
| "other_call _ = []"

definition other_calls :: "dcall list \<Rightarrow> kcall list" where
  "other_calls t = concat (map other_call t)"

section \<open>Reading a file\<close>

text \<open>
  What the files show is the state of the devices. The lines have a type for each driver; \<open>intr\<close> tells at which device
  the wait for the mutex is interrupted.
\<close>

record proc_state =
  pf_devs :: "scull_dev list"
  pf_params :: scull_params
  pf_pipes :: "scull_pipe list"
  pf_pdevs :: "scullp_dev list"

record proc_env =
  pe_width :: "seq_line \<Rightarrow> int"
  pe_p_width :: "p_line \<Rightarrow> int"
  pe_size :: int
  pe_intr :: "int \<Rightarrow> bool"

datatype proc_line = ScullLine seq_line | PipeLine p_line | TextLine string

fun show_file :: "proc_env \<Rightarrow> proc_state \<Rightarrow> proc_show \<Rightarrow> (unit ret \<times> proc_line list) exec" where
  "show_file e s ShowScullMem =
     kbind (scull_read_procmem (pe_width e) (pe_size e) (pe_intr e) (pf_devs s) 0) (\<lambda>(r, ls). Done (r, map ScullLine ls))"
| "show_file e s ShowScullPipe =
     (case scull_read_p_mem (pe_p_width e) (pe_intr e) (pf_params s) (pf_pipes s) 0 of (r, ls) \<Rightarrow> Done (r, map PipeLine ls))"
| "show_file e s ShowSimple = (case simple_proc_show of (r, ls) \<Rightarrow> Done (r, map TextLine ls))"
| "show_file e s ShowScullpMem =
     kbind (scullp_read_procmem (pe_width e) (pe_size e) (pe_intr e) (pf_pdevs s) 0) (\<lambda>(r, ls). Done (r, map ScullLine ls))"

text \<open>
  How \<open>seq_read\<close> drives an iterator, with at most \<open>n\<close> elements shown: an element whose \<open>show\<close> fails ends the read.
\<close>

fun seq_iterate ::
  "seq_operations \<Rightarrow> nat \<Rightarrow> (int \<Rightarrow> bool) \<Rightarrow> scull_dev list \<Rightarrow> int option \<Rightarrow> int \<Rightarrow> (unit ret \<times> seq_line list) exec option" where
  "seq_iterate so n intr devs None pos = Some (Done (Inr (), []))"
| "seq_iterate so 0 intr devs (Some v) pos = None"
| "seq_iterate so (Suc n) intr devs (Some v) pos =
     (case kbind (arr_get devs v) (so_show so (intr v) v) of
        Oops x \<Rightarrow> Some (Oops x)
      | Done (Inl x, ls) \<Rightarrow> Some (Done (Inl x, ls))
      | Done (Inr _, ls) \<Rightarrow>
          (case so_next so (int (length devs)) pos of
             (pos, v) \<Rightarrow> map_option (\<lambda>m. kbind m (\<lambda>(r, rest). Done (r, ls @ rest))) (seq_iterate so n intr devs v pos)))"

text \<open>A read of a whole file; the outer \<open>None\<close> is a file that is not there, the inner one a read that has not ended.\<close>

definition proc_read_file :: "proc_env \<Rightarrow> proc_dir \<Rightarrow> proc_state \<Rightarrow> string \<Rightarrow> (unit ret \<times> proc_line list) exec option option" where
  "proc_read_file e dir s name =
     (case dir name of
        None \<Rightarrow> None
      | Some ops \<Rightarrow>
          Some (case po_open ops of
                  SingleOpen f \<Rightarrow> Some (show_file e s f)
                | SeqOpen so \<Rightarrow>
                    map_option (\<lambda>m. kbind m (\<lambda>(r, ls). Done (r, map ScullLine ls)))
                      (seq_iterate so (length (pf_devs s)) (pe_intr e) (pf_devs s) (so_start so (int (length (pf_devs s))) 0) 0)))"

text \<open>
  The memory behind an open file, in blocks: \<open>seq_open\<close> takes one, \<open>single_open\<close> a second one for the iterator it makes up, which
  only \<open>single_release\<close> gives back.
\<close>

fun open_blocks :: "('f, 'o) seq_source \<Rightarrow> nat" where
  "open_blocks (SingleOpen f) = 2"
| "open_blocks (SeqOpen so) = 1"

fun release_blocks :: "kernel_method \<Rightarrow> nat" where
  "release_blocks SingleRelease = 2"
| "release_blocks SeqRelease = 1"
| "release_blocks _ = 0"

section \<open>The debugging builds against the others\<close>

lemma other_calls_simps [simp]:
  "other_calls [] = []" "other_calls (c # t) = other_call c @ other_calls t" "other_calls (t @ t') = other_calls t @ other_calls t'"
  "other_calls (map Kernel ks) = ks"
  by (simp_all add: other_calls_def) (induction ks; simp)

lemma proc_calls_simps [simp]:
  "proc_calls ok [] dir = dir" "proc_calls ok (c # t) dir = proc_calls ok t (proc_call ok c dir)"
  "proc_calls ok (t @ t') dir = proc_calls ok t' (proc_calls ok t dir)" "proc_calls ok (map Kernel ks) dir = dir"
  by (simp_all add: proc_calls_def) (induction ks; simp)

text \<open>A computation of the debugging build, without its calls on \<^verbatim>\<open>/proc\<close>.\<close>

lemma scull_cleanup_debug_others:
  "kbind (scull_cleanup_debug m) (\<lambda>(m, t). Done (m, other_calls t)) = scull_cleanup_module m"
  by (simp add: scull_cleanup_debug_def scull_cleanup_module_def scull_p_cleanup_debug_def scull_remove_proc_def kbind_assoc
    case_prod_unfold)

lemma scull_init_debug_others:
  "kbind (scull_init_debug e m) (\<lambda>(m, r, t). Done (m, r, other_calls t)) = scull_init_module e m"
proof -
  have "kbind (scull_cleanup_debug m') (\<lambda>(m, t). Done (m, f, x # other_calls t)) =
      kbind (scull_cleanup_module m') (\<lambda>(m, t). Done (m, f, x # t))" for m' f x
    unfolding scull_cleanup_debug_others [symmetric] by (simp add: kbind_assoc case_prod_unfold)
  then show ?thesis
    by (auto simp: scull_init_debug_def scull_init_module_def scull_p_init_debug_def scull_create_proc_def Let_def kbind_assoc
      case_prod_unfold split: option.splits sum.splits prod.splits)
qed

section \<open>The files over the life of the module\<close>

definition scull_files :: "string set" where
  "scull_files = {''scullmem'', ''scullseq'', ''scullpipe''}"

text \<open>The calls of an unloading: what is freed before the files of the bare devices are removed, and the rest.\<close>

lemma scull_cleanup_debug_trace:
  assumes "scull_cleanup_debug m = Done (m', t)"
  obtains ks c ks' where "t = map Kernel ks @ scull_remove_proc @ Kernel c # ProcRemove ''scullpipe'' # map Kernel ks'"
    and "\<And>a ds. m_devices m = Some (a, ds) \<Longrightarrow> Kfree a \<in> set ks"
proof -
  obtain m1 t0 where t0: "(case m_devices m of
        None \<Rightarrow> Done (m, [])
      | Some (a, ds) \<Rightarrow>
          kbind (clean_main (m_params m) 0 ds) (\<lambda>(ds, t). Done (m\<lparr>m_devices := Some (a, ds)\<rparr>, t @ [Kfree a]))) = Done (m1, t0)"
    and t: "\<exists>c t2. t = map Kernel t0 @ scull_remove_proc @ Kernel c # snd (scull_p_cleanup_debug m1) @ map Kernel t2"
    using assms unfolding scull_cleanup_debug_def by (auto simp: kbind_eq_Done case_prod_unfold)
  from t obtain c t2 where "t = map Kernel t0 @ scull_remove_proc @ Kernel c # ProcRemove ''scullpipe'' # map Kernel (snd (scull_p_cleanup m1) @ t2)"
    by (auto simp: scull_p_cleanup_debug_def case_prod_unfold)
  moreover have "Kfree a \<in> set t0" if "m_devices m = Some (a, ds)" for a ds
    using t0 that by (auto simp: kbind_eq_Done case_prod_unfold)
  ultimately show ?thesis using that by blast
qed

text \<open>Unloading takes away the three files, and no other.\<close>

lemma scull_cleanup_debug_dir:
  assumes "scull_cleanup_debug m = Done (m', t)"
  shows "proc_calls ok t dir = (\<lambda>name. if name \<in> scull_files then None else dir name)"
  using assms by (elim scull_cleanup_debug_trace) (auto simp: scull_remove_proc_def scull_files_def fun_eq_iff)

text \<open>
  Loading creates the files of the bare devices, and that of the pipes if there are pipes; a loading that fails leaves
  no file.
\<close>

lemma scull_init_debug_dir:
  assumes "scull_init_debug e m = Done (m', r, t)"
  shows "case r of
      Inl x \<Rightarrow> \<forall>name \<in> scull_files. dir name = None \<longrightarrow> proc_calls ok t dir name = None
    | Inr _ \<Rightarrow> (\<forall>name. ok name \<longrightarrow>
        (proc_calls ok t Map.empty name = Some scullmem_proc_ops \<longleftrightarrow> name = ''scullmem'') \<and>
        (proc_calls ok t Map.empty name = Some scullseq_proc_ops \<longleftrightarrow> name = ''scullseq''))"
proof (cases r)
  case (Inl x)
  then show ?thesis using assms scull_cleanup_debug_dir
    by (auto simp: scull_init_debug_def Let_def exec_simps split: option.splits sum.splits prod.splits)
next
  case (Inr u)
  have ne: "scullmem_proc_ops \<noteq> scullseq_proc_ops" "scullpipe_proc_ops \<noteq> scullmem_proc_ops" "scullpipe_proc_ops \<noteq> scullseq_proc_ops"
    by (simp_all add: scullmem_proc_ops_def scullseq_proc_ops_def scullpipe_proc_ops_def scullmem_proc_open_def scullpipe_proc_open_def)
  from Inr show ?thesis using assms ne
    by (auto simp: scull_init_debug_def scull_p_init_debug_def scull_create_proc_def Let_def exec_simps
      split: option.splits sum.splits prod.splits if_splits)
qed

lemma scull_debug_life_dir:
  assumes "scull_init_debug e m = Done (m1, r, t)" "scull_cleanup_debug m2 = Done (m3, t')"
    and "\<And>name. name \<in> scull_files \<Longrightarrow> dir name = None"
  shows "proc_calls ok (t @ t') dir = dir"
proof -
  have "proc_calls ok t dir name = dir name" if "name \<notin> scull_files" for name
    using assms(1) that scull_cleanup_debug_dir
    by (auto simp: scull_init_debug_def scull_p_init_debug_def scull_create_proc_def scull_files_def Let_def exec_simps
      split: option.splits sum.splits prod.splits if_splits)
  then show ?thesis using scull_cleanup_debug_dir [OF assms(2)] assms(3) by (auto simp: fun_eq_iff)
qed

lemma scullp_debug_life_dir:
  assumes "scullp_init_debug e m = (m1, r, t)" "scullp_cleanup_debug m2 = Done t'" "dir ''scullpmem'' = None"
  shows "proc_calls ok (t @ t') dir = dir"
  using assms by (auto simp: scullp_init_debug_def scullp_cleanup_debug_def exec_simps fun_eq_iff split: prod.splits sum.splits)

text \<open>
  \<open>scull_cleanup_module\<close> frees the array of the devices before it removes the files that show it: in between a
  reader of \<^verbatim>\<open>/proc/scullmem\<close> walks through freed memory.
\<close>

lemma scull_debug_frees_before_removal:
  assumes "scull_cleanup_debug m = Done (m', t)" "m_devices m = Some (a, ds)"
  shows "\<exists>t1 t2. t = t1 @ t2 \<and> Kernel (Kfree a) \<in> set t1 \<and> (\<forall>ok dir. proc_calls ok t1 dir = dir)"
proof -
  from assms(1) obtain ks c ks' where t: "t = map Kernel ks @ scull_remove_proc @ Kernel c # ProcRemove ''scullpipe'' # map Kernel ks'"
    and "Kfree a \<in> set ks" by (rule scull_cleanup_debug_trace) (use assms(2) in blast)
  then show ?thesis by (intro exI [of _ "map Kernel ks"] exI) (auto simp: t)
qed

text \<open>scullp removes its file first.\<close>

lemma scullp_debug_removes_first:
  "scullp_cleanup_debug m = Done t \<Longrightarrow> \<exists>t'. t = ProcRemove ''scullpmem'' # map Kernel t' \<and> scullp_cleanup m = Done t'"
  by (auto simp: scullp_cleanup_debug_def exec_simps)

section \<open>What the files show\<close>

lemma seq_iterate_loop:
  "seq_iterate scull_seq_ops n (\<lambda>_. False) devs v pos =
     map_option (\<lambda>m. kbind m (\<lambda>ls. Done (Inr (), ls))) (seq_loop n (int (length devs)) devs v pos)"
proof (induction n arbitrary: v pos)
  case 0
  then show ?case by (cases v) simp_all
next
  case (Suc n)
  show ?case
  proof (cases v)
    case (Some i)
    let ?m = "kbind (arr_get devs i) (scull_seq_show False i)"
    have "r = Inr ()" if "?m = Done (r, ls)" for r ls using that by (auto simp: exec_simps scull_seq_show_def)
    then show ?thesis using Some Suc
      by (cases ?m) (auto simp: scull_seq_ops_def option.map_comp o_def kbind_assoc case_prod_unfold
        split: prod.splits)
  qed simp
qed

text \<open>
  The two files of the bare devices show the same, as long as \<^verbatim>\<open>/proc/scullmem\<close> does not run into the end of its buffer
  and no wait is interrupted.
\<close>

theorem scull_proc_files_agree:
  assumes "dir ''scullmem'' = Some scullmem_proc_ops" "dir ''scullseq'' = Some scullseq_proc_ops"
    and "\<forall>l. 0 \<le> pe_width e l" "pe_intr e = (\<lambda>_. False)"
    and "scull_read_procmem (pe_width e) (pe_size e) (\<lambda>_. False) (pf_devs s) 0 = Done (Inr (), ls)"
    and "width_of (pe_width e) ls \<le> s32 (pe_size e - 80)"
  shows "proc_read_file e dir s ''scullmem'' = Some (Some (Done (Inr (), map ScullLine ls))) \<and>
    proc_read_file e dir s ''scullseq'' = proc_read_file e dir s ''scullmem''"
proof -
  have "seq_loop (length (pf_devs s)) (int (length (pf_devs s))) (pf_devs s) (scull_seq_start (int (length (pf_devs s))) 0) 0 =
      Some (Done ls)"
    using mem_devices_seq_loop [OF assms(3), of _ _ 0 "pf_devs s" 0 ls "length (pf_devs s)"] assms(5,6)
    by (simp add: scull_read_procmem_def)
  then show ?thesis using assms(1,2,4,5)
    by (simp add: proc_read_file_def scullmem_proc_ops_def scullseq_proc_ops_def scullmem_proc_open_def scullseq_proc_open_def
      seq_iterate_loop) (simp add: scull_seq_ops_def)
qed

text \<open>Closing a file gives back what opening it took.\<close>

lemma proc_files_balanced:
  "ops \<in> {scullmem_proc_ops, scullseq_proc_ops, scullpipe_proc_ops, scullp_proc_ops, simple_proc_fops} \<Longrightarrow>
     release_blocks (po_release ops) = open_blocks (po_open ops)"
  by (auto simp: scullmem_proc_ops_def scullseq_proc_ops_def scullpipe_proc_ops_def scullp_proc_ops_def
    scullmem_proc_open_def scullseq_proc_open_def scullpipe_proc_open_def scullp_proc_open_def
    simple_proc_fops_def simple_proc_open_def)

lemma simple_proc_life:
  "dir ''simple'' = None \<Longrightarrow> proc_calls ok (snd simple_init @ simple_exit) dir = dir"
  "ok ''simple'' \<Longrightarrow> proc_read_file e (proc_calls ok (snd simple_init) dir) s ''simple'' =
     Some (Some (Done (Inr (), [TextLine ''Hello proc''])))"
  by (auto simp: simple_init_def simple_exit_def proc_read_file_def simple_proc_fops_def simple_proc_open_def simple_proc_show_def)

end
