(* ===== verification/Modules.thy ===== *)
theory Modules
  imports Scull_Proc Syscalls Proc_Dev
begin

text \<open>
  The parameters that modules take when they are loaded, and the small modules: \<^verbatim>\<open>m_modules/basic\<close>, the stubs of
  \<^verbatim>\<open>m_modules/char_dev/cdev.c\<close> and \<^verbatim>\<open>ioctl.c\<close>, the tables of \<^verbatim>\<open>m_modules/proc/ex_proc.c\<close> and of the two builds of \<^verbatim>\<open>list_proc.c\<close>, the loading of the debugfs modules,
  and \<^verbatim>\<open>m_modules/ds/list.c\<close>, for which the kernel's list is a parameter.
\<close>

section \<open>Parameters of scull and scullp\<close>

definition SCULL_MAJOR :: int where "SCULL_MAJOR = 0"
definition SCULL_NR_DEVS :: int where "SCULL_NR_DEVS = 4"
definition SCULL_P_NR_DEVS :: int where "SCULL_P_NR_DEVS = 4"

text \<open>The values that are given on the command line; \<open>None\<close> leaves a variable as it is initialised.\<close>

record scull_options =
  opt_major :: "int option"
  opt_minor :: "int option"
  opt_nr_devs :: "int option"
  opt_quantum :: "int option"
  opt_qset :: "int option"
  opt_p_nr_devs :: "int option"
  opt_p_buffer :: "int option"

definition given :: "int option \<Rightarrow> int \<Rightarrow> int" where
  "given v i = (case v of None \<Rightarrow> i | Some x \<Rightarrow> x)"

definition scull_globals :: "scull_options \<Rightarrow> scull_module" where
  "scull_globals opt =
     \<lparr>m_params = \<lparr>scull_quantum = given (opt_quantum opt) SCULL_QUANTUM, scull_qset_p = given (opt_qset opt) SCULL_QSET,
        scull_p_buffer = given (opt_p_buffer opt) SCULL_P_BUFFER\<rparr>,
      m_major = given (opt_major opt) SCULL_MAJOR, m_minor = given (opt_minor opt) 0,
      m_nr_devs = given (opt_nr_devs opt) SCULL_NR_DEVS, m_devices = None,
      m_p_nr_devs = given (opt_p_nr_devs opt) SCULL_P_NR_DEVS, m_p_devno = 0, m_p_devices = None,
      m_a_firstdev = 0, m_a_devices = replicate 4 zero_dev, m_c_list = []\<rparr>"

definition SCULLP_MAJOR :: int where "SCULLP_MAJOR = 0"
definition SCULLP_DEVS :: int where "SCULLP_DEVS = 4"

record scullp_options =
  popt_major :: "int option"
  popt_devs :: "int option"
  popt_qset :: "int option"
  popt_order :: "int option"

definition scullp_globals :: "scullp_options \<Rightarrow> scullp_module" where
  "scullp_globals opt =
     \<lparr>pm_params = \<lparr>scullp_qset = given (popt_qset opt) SCULLP_QSET, scullp_order = given (popt_order opt) SCULLP_ORDER\<rparr>,
      pm_major = given (popt_major opt) SCULLP_MAJOR, pm_nr_devs = given (popt_devs opt) SCULLP_DEVS, pm_devices = None\<rparr>"

section \<open>The modules of \<^verbatim>\<open>m_modules/basic\<close>\<close>

text \<open>What is printed; \<open>None\<close> is a null pointer, which is shown as such.\<close>

datatype log = Message string | Number string int | Text string "string option" | Numbers "int list"

definition init_hello :: "int \<times> log list" where "init_hello = (0, [Message ''Hello, Module.''])"
definition exit_hello :: "log list" where "exit_hello = [Message ''Bye, Module.'']"

text \<open>\<^verbatim>\<open>parm1.c\<close>, \<^verbatim>\<open>parm2.c\<close> and \<^verbatim>\<open>parm3.c\<close>, with the parameters as they are when the module is loaded.\<close>

definition init_param1 :: "int option \<Rightarrow> int \<times> log list" where
  "init_param1 a = (0, [Number ''parameter a = '' (given a 0)])"

definition init_param2 :: "int option \<Rightarrow> string option \<Rightarrow> int \<times> log list" where
  "init_param2 a str = (0, [Number ''parameter a = '' (given a 0), Text ''parameter str = '' str])"

definition param3_b :: "int list" where "param3_b = [1, 2, 3, 4, 5]"

definition init_param3 :: "int list \<Rightarrow> (int \<times> log list) exec" where
  "init_param3 b =
     kbind (arr_get b 0) (\<lambda>b0. kbind (arr_get b 1) (\<lambda>b1. kbind (arr_get b 2) (\<lambda>b2.
     kbind (arr_get b 3) (\<lambda>b3. kbind (arr_get b 4) (\<lambda>b4. Done (0, [Numbers [b0, b1, b2, b3, b4]]))))))"

text \<open>\<^verbatim>\<open>callee.c\<close> and \<^verbatim>\<open>caller.c\<close>: a call of an exported function prints before the caller does.\<close>

definition add_logged :: "int \<Rightarrow> int \<Rightarrow> int \<times> log list" where
  "add_logged a b = (callee_add a b, [Message ''add called...''])"

definition sub_logged :: "int \<Rightarrow> int \<Rightarrow> int \<times> log list" where
  "sub_logged a b = (callee_sub a b, [Message ''sub called...''])"

definition init_caller :: "int \<times> log list" where
  "init_caller =
     (let (x, l1) = add_logged 3 2; (y, l2) = sub_logged 3 2 in
      (0, [Message ''call add(), sub()''] @ l1 @ [Number ''add: '' x] @ l2 @ [Number ''sub: '' y]))"

section \<open>Stubs of character devices\<close>

text \<open>
  The methods of \<^verbatim>\<open>cdev.c\<close>, and \<open>open\<close>, \<open>release\<close>, \<open>read\<close> and \<open>write\<close> of \<^verbatim>\<open>ioctl.c\<close>: they transfer nothing. The memory of the
  caller is passed through as it is.
\<close>

definition virtual_device_open :: "int ret" where "virtual_device_open = Inr 0"
definition virtual_device_release :: "int ret" where "virtual_device_release = Inr 0"

definition virtual_device_read :: "byte list \<Rightarrow> int \<Rightarrow> byte list \<times> int ret" where
  "virtual_device_read buf count = (buf, Inr count)"

definition virtual_device_write :: "byte list \<Rightarrow> int \<Rightarrow> int ret" where
  "virtual_device_write buf count = Inr count"

definition ioctl_dev_open :: "int ret" where "ioctl_dev_open = Inr 0"
definition ioctl_dev_release :: "int ret" where "ioctl_dev_release = Inr 0"

definition ioctl_dev_read :: "byte list \<Rightarrow> int \<Rightarrow> byte list \<times> int ret" where
  "ioctl_dev_read buf count = (buf, Inr count)"

definition ioctl_dev_write :: "byte list \<Rightarrow> int \<Rightarrow> int ret" where
  "ioctl_dev_write buf count = Inr count"

record stub_operations =
  st_open :: "int ret"
  st_release :: "int ret"
  st_read :: "byte list \<Rightarrow> int \<Rightarrow> byte list \<times> int ret"
  st_write :: "byte list \<Rightarrow> int \<Rightarrow> int ret"

definition vd_fops :: stub_operations where
  "vd_fops = \<lparr>st_open = virtual_device_open, st_release = virtual_device_release, st_read = virtual_device_read, st_write = virtual_device_write\<rparr>"

definition ioctl_dev_fops :: stub_operations where
  "ioctl_dev_fops = \<lparr>st_open = ioctl_dev_open, st_release = ioctl_dev_release, st_read = ioctl_dev_read, st_write = ioctl_dev_write\<rparr>"

text \<open>A program that reads to the end of a file through a buffer: \<open>None\<close> is a program that after \<open>n\<close> reads has not come to an end.\<close>

fun read_to_end :: "nat \<Rightarrow> stub_operations \<Rightarrow> byte list \<Rightarrow> byte list ret option" where
  "read_to_end 0 ops buf = None"
| "read_to_end (Suc n) ops buf =
     (case st_read ops buf (int (length buf)) of
        (buf, Inl e) \<Rightarrow> Some (Inl e)
      | (buf, Inr r) \<Rightarrow>
          if r \<le> 0 then Some (Inr [])
          else map_option (\<lambda>rest. case rest of Inl e \<Rightarrow> Inl e | Inr bs \<Rightarrow> Inr (take (nat r) buf @ bs)) (read_to_end n ops buf))"

section \<open>The tables of \<^verbatim>\<open>ex_proc.c\<close> and \<^verbatim>\<open>list_proc.c\<close>\<close>

text \<open>Tables with a method for writing.\<close>

record ('f, 'o, 'w) writable_operations = "('f, 'o) proc_operations" +
  po_write :: 'w

definition ex_proc_open :: "(ex_state \<Rightarrow> byte list exec, unit) seq_source" where
  "ex_proc_open = SingleOpen ex_proc_show"

definition ex_proc_fops ::
  "(ex_state \<Rightarrow> byte list exec, unit, nat \<Rightarrow> bool \<Rightarrow> byte list \<Rightarrow> ex_state \<Rightarrow> cred \<Rightarrow> byte list \<Rightarrow> (ex_state \<times> cred \<times> int ret) exec) writable_operations" where
  "ex_proc_fops = \<lparr>po_open = ex_proc_open, po_read = SeqRead, po_llseek = SeqLseek, po_release = SingleRelease, po_write = ex_proc_write\<rparr>"

datatype proc_event = Created string | Removed string

definition exproc_init :: "int \<times> proc_event list" where "exproc_init = (0, [Created ''exploit''])"
definition exproc_exit :: "proc_event list" where "exproc_exit = [Removed ''exploit'']"

text \<open>A read of the file through the table.\<close>

definition ex_read_file :: "ex_state \<Rightarrow> byte list exec" where
  "ex_read_file s = (case po_open ex_proc_fops of SingleOpen f \<Rightarrow> f s | SeqOpen _ \<Rightarrow> Done [])"

text \<open>\<^verbatim>\<open>list_proc.c\<close> has two builds. With \<open>USE_SINGLE_OPEN\<close> the whole list is printed by one function, without the lock.\<close>

definition lp_simple_show :: "lp_state \<Rightarrow> int ret \<times> (int \<times> int \<times> int) list" where
  "lp_simple_show s = (Inr 0, map (\<lambda>i. (mi_a i, mi_b i, s32 (mi_a i + mi_b i))) (lp_list s))"

datatype lp_show_fun = LpSimpleShow

type_synonym lp_write_fun =
  "nat \<Rightarrow> addr option \<Rightarrow> byte list \<Rightarrow> (byte list \<Rightarrow> int option \<times> int option) \<Rightarrow> int \<Rightarrow> int \<Rightarrow> lp_state \<Rightarrow> byte list \<Rightarrow> (lp_state \<times> int ret) exec"

datatype lp_seq_ops = LpSeqOps

definition lp_proc_open :: "bool \<Rightarrow> (lp_show_fun, lp_seq_ops) seq_source" where
  "lp_proc_open use_single_open = (if use_single_open then SingleOpen LpSimpleShow else SeqOpen LpSeqOps)"

definition lp_proc_ops :: "bool \<Rightarrow> (lp_show_fun, lp_seq_ops, lp_write_fun) writable_operations" where
  "lp_proc_ops use_single_open =
     \<lparr>po_open = lp_proc_open use_single_open, po_read = SeqRead, po_llseek = SeqLseek, po_release = SeqRelease,
      po_write = lp_proc_write\<rparr>"

definition lp_read_file :: "bool \<Rightarrow> lp_state \<Rightarrow> lp_state \<times> (int \<times> int \<times> int) list" where
  "lp_read_file use_single_open s =
     (case po_open (lp_proc_ops use_single_open) of
        SingleOpen f \<Rightarrow> (s, snd (lp_simple_show s))
      | SeqOpen so \<Rightarrow> lp_read s)"

section \<open>Loading the debugfs modules\<close>

text \<open>
  \<^verbatim>\<open>km_debugfs.c\<close> and \<^verbatim>\<open>rpi_debugfs.c\<close>: a directory, in it a file, and a platform driver. The results for the first two
  are not looked at; \<open>register\<close> is what the kernel answers for the driver.
\<close>

datatype debugfs_call = CreateDir string | CreateFile string string | RegisterDriver string

definition debugfs_init :: "string \<Rightarrow> (string \<Rightarrow> int ret) \<Rightarrow> int ret \<times> debugfs_call list" where
  "debugfs_init name register = (register name, [CreateDir name, CreateFile name ''val'', RegisterDriver name])"

definition km_kernel_debugfs_init :: "(string \<Rightarrow> int ret) \<Rightarrow> int ret \<times> debugfs_call list" where
  "km_kernel_debugfs_init = debugfs_init ''km_debug''"

definition rpi_kernel_debugfs_init :: "(string \<Rightarrow> int ret) \<Rightarrow> int ret \<times> debugfs_call list" where
  "rpi_kernel_debugfs_init = debugfs_init ''rpi_debug''"

definition debug_state_init :: int where "debug_state_init = 0x1000"

definition rpi_kernel_debug_stat_get :: "int \<Rightarrow> int ret \<times> int" where "rpi_kernel_debug_stat_get st = (Inr 0, st)"
definition rpi_kernel_debug_stat_set :: "int \<Rightarrow> int ret \<times> int" where "rpi_kernel_debug_stat_set v = (Inr 0, u32 v)"

section \<open>\<^verbatim>\<open>m_modules/ds/list.c\<close>\<close>

text \<open>The kernel's list of the items of this module; what the module knows of an item is its number.\<close>

datatype item = item1 | item2 | item3

record 'l kernel_list =
  kl_init :: "'l \<Rightarrow> 'l"
  kl_add :: "item \<Rightarrow> 'l \<Rightarrow> 'l"
  kl_add_tail :: "item \<Rightarrow> 'l \<Rightarrow> 'l"
  kl_del :: "item \<Rightarrow> 'l \<Rightarrow> 'l"
  kl_entries :: "'l \<Rightarrow> item list"

fun item_number :: "item \<Rightarrow> int" where
  "item_number item1 = 10"
| "item_number item2 = 20"
| "item_number item3 = 30"

text \<open>The numbers that the two phases print.\<close>

definition list_init :: "'l kernel_list \<Rightarrow> 'l \<Rightarrow> 'l \<times> int list \<times> int list" where
  "list_init ops l =
     (let l = kl_init ops l; l = kl_add ops item1 l; l = kl_add ops item2 l; l = kl_add_tail ops item3 l;
          first = map item_number (kl_entries ops l);
          l = kl_del ops item1 l
      in (l, first, map item_number (kl_entries ops l)))"

text \<open>What is documented of the list: entries are added behind the head or before it, and an entry that is there is taken out.\<close>

definition list_documented :: "'l kernel_list \<Rightarrow> bool" where
  "list_documented ops \<longleftrightarrow>
     (\<forall>l. kl_entries ops (kl_init ops l) = []) \<and>
     (\<forall>x l. x \<notin> set (kl_entries ops l) \<longrightarrow>
        kl_entries ops (kl_add ops x l) = x # kl_entries ops l \<and> kl_entries ops (kl_add_tail ops x l) = kl_entries ops l @ [x]) \<and>
     (\<forall>x l. x \<in> set (kl_entries ops l) \<longrightarrow> kl_entries ops (kl_del ops x l) = remove1 x (kl_entries ops l))"

section \<open>Properties\<close>

text \<open>
  With parameters that make sense the variables of scull are as its loading needs them: all resources granted, the driver starts in a state
  that meets its invariant, and every device is empty. The parameters that are preset make sense.
\<close>

lemma scull_loads_with_options:
  assumes "0 \<le> given (opt_nr_devs opt) SCULL_NR_DEVS" "0 \<le> given (opt_p_nr_devs opt) SCULL_P_NR_DEVS"
    and "geometry_ok (m_params (scull_globals opt))" "granted e (scull_globals opt)"
    and "scull_init_module e (scull_globals opt) = Done (m, r, t)"
  shows "drv_inv True (loaded m) \<and> drv_abs (\<lambda>_. Map.empty, \<lambda>_. []) m"
proof -
  have "fresh_module (scull_globals opt)" using assms(1,2) by (simp add: fresh_module_def scull_globals_def)
  from loaded_inv [OF this assms(4,5), of True] assms(3) show ?thesis by simp
qed

definition no_options :: scull_options where
  "no_options = \<lparr>opt_major = None, opt_minor = None, opt_nr_devs = None, opt_quantum = None, opt_qset = None,
     opt_p_nr_devs = None, opt_p_buffer = None\<rparr>"

lemma scull_defaults_ok:
  "geometry_ok (m_params (scull_globals no_options))" "m_nr_devs (scull_globals no_options) = 4"
  "m_params (scull_globals no_options) = scull_params_init"
  by (simp_all add: scull_globals_def no_options_def given_def geometry_ok_def scull_params_init_def SCULL_QUANTUM_def
    SCULL_QSET_def SCULL_P_BUFFER_def SCULL_NR_DEVS_def)

lemma scullp_loads_with_options:
  assumes "given (popt_order opt) SCULLP_ORDER = 0" "0 < given (popt_qset opt) SCULLP_QSET"
    and "PAGE_SIZE * given (popt_qset opt) SCULLP_QSET < 2 ^ 31" "scullp_init e (scullp_globals opt) = (m, Inr u, t)"
  shows "scullp_inv (scullp_loaded m) \<and> represents (\<lambda>_. Map.empty) (scullp_loaded m)"
  using scullp_loaded_inv [OF assms(4)] assms(1-3) by (simp add: scullp_geometry_def scullp_globals_def)

text \<open>The array of \<^verbatim>\<open>parm3.c\<close> is read inside of its bounds, and no further than it is printed.\<close>

lemma init_param3_shows: "length b = 5 \<Longrightarrow> init_param3 b = Done (0, [Numbers b])"
  by (auto simp: init_param3_def arr_get_def length_Suc_conv numeral_eq_Suc)

lemma init_param3_default: "init_param3 param3_b = Done (0, [Numbers [1, 2, 3, 4, 5]])"
  using init_param3_shows [of param3_b] by (simp add: param3_b_def)

lemma init_caller_shows:
  "init_caller = (0, [Message ''call add(), sub()'', Message ''add called...'', Number ''add: '' 5,
     Message ''sub called...'', Number ''sub: '' 1])"
  by (simp add: init_caller_def add_logged_def sub_logged_def callee_add_def callee_sub_def s32_id)

text \<open>
  The stubs report every byte as transferred: a program that reads to the end never comes to it, and what it takes for
  data is what its own buffer held before.
\<close>

lemma stub_read_never_ends:
  assumes "ops \<in> {vd_fops, ioctl_dev_fops}" "buf \<noteq> []"
  shows "read_to_end n ops buf = None"
proof -
  have "st_read ops b c = (b, Inr c)" for b c
    using assms(1) by (auto simp: vd_fops_def ioctl_dev_fops_def virtual_device_read_def ioctl_dev_read_def)
  then show ?thesis using assms(2) by (induction n) auto
qed

text \<open>
  The two builds of \<^verbatim>\<open>list_proc.c\<close> show the same list, but only one of them gives back what the opening of the file took: with
  \<open>single_open\<close> the block of its iterator is lost at every \<open>seq_release\<close>.
\<close>

lemma lp_builds_show_same: "snd (lp_read_file True s) = snd (lp_read_file False s)"
  by (simp add: lp_read_file_def lp_proc_ops_def lp_proc_open_def lp_simple_show_def lp_read_shows_all lp_line_def fun_eq_iff)

lemma lp_single_open_leaks:
  "release_blocks (po_release (lp_proc_ops False)) = open_blocks (po_open (lp_proc_ops False))"
  "release_blocks (po_release (lp_proc_ops True)) < open_blocks (po_open (lp_proc_ops True))"
  by (simp_all add: lp_proc_ops_def lp_proc_open_def)

lemma ex_proc_table:
  "release_blocks (po_release ex_proc_fops) = open_blocks (po_open ex_proc_fops)" "ex_read_file s = ex_proc_show s"
  by (simp_all add: ex_proc_fops_def ex_proc_open_def ex_read_file_def)

text \<open>What is read from the file \<open>val\<close> is the value set, cut to 32 bits: the two modules agree.\<close>

lemma rpi_debug_as_km:
  "rpi_kernel_debug_stat_get (snd (rpi_kernel_debug_stat_set v)) = (Inr 0, debug_stat_get (debug_stat_set v))"
  by (simp add: rpi_kernel_debug_stat_get_def rpi_kernel_debug_stat_set_def debug_stat_get_def debug_stat_set_def)

text \<open>The lists are the ones that the comments in \<^verbatim>\<open>list.c\<close> announce.\<close>

lemma list_init_shows:
  assumes "list_documented ops"
  shows "snd (list_init ops l) = ([20, 10, 30], [20, 30])"
proof -
  have "kl_entries ops (kl_add_tail ops item3 (kl_add ops item2 (kl_add ops item1 (kl_init ops l)))) = [item2, item1, item3]"
    using assms by (simp add: list_documented_def)
  then show ?thesis using assms by (simp add: list_documented_def list_init_def Let_def)
qed

lemma list_documented_lists:
  "list_documented \<lparr>kl_init = \<lambda>l. [], kl_add = (#), kl_add_tail = \<lambda>x l. l @ [x], kl_del = remove1, kl_entries = \<lambda>l. l\<rparr>"
  by (simp add: list_documented_def)

end
