(* ===== verification/Spec2Isabelle.thy ===== *)
theory Spec2Isabelle
  imports Scull_Life Scullp_System Blk_Module Ip_Input Ds_List Sfs Char_Dev Proc_Dev Net_Filter Mm_Info Programs Demos Idr_Test Modules
begin

text \<open>
  \<^bold>\<open>A verification of the kernel modules of this repository.\<close>

  The repository holds character device drivers after the book Linux Device Drivers (\<^verbatim>\<open>src/ldd\<close>), a collection of
  modules for the parts of the kernel (\<^verbatim>\<open>src/m_modules\<close>: block devices, character devices, lists, file systems, memory,
  \<^verbatim>\<open>/proc\<close>, packet filters) and a few files of a patched kernel (\<^verbatim>\<open>src/linux\<close>: the receive path of IPv4, two system calls).
  Each driver is a set of functions that the kernel calls when a process opens, reads, writes or maps a device, when a
  packet or a request arrives, and when the module is loaded or unloaded; between the calls its state lives in structures
  of its own.

  \<^bold>\<open>How the code is modelled.\<close> Every function is a function in HOL of the same name (with a prefix where two
  files use one name) from the state to the state, the returned value and what the caller can see. A C structure is a record,
  an enumeration a datatype, a pointer to an owned object an optional pair of its address and its contents.
  Integers are \<open>int\<close> with the conversions \<open>s32\<close>, \<open>u32\<close>, \<open>s64\<close> and \<open>u64\<close> at the places where the code stores
  into a type of that width; bytes are words of 8 bits. A computation is \<open>Done\<close> of its result or \<open>Oops\<close> of a fault: a
  division by zero, a null pointer, an access outside of an object, a \<open>BUG\<close>. An error code is not a fault but a value, the
  left summand of the returned value. What the code calls in the kernel is a parameter:
  the allocator and its failures, signals that arrive in a wait, the number of bytes that a copy between user
  and kernel space leaves out, the answers of registration functions, checksums, routing, the crypto interface.
  Printed messages are left out except where printing is what the code is for.

  \<^bold>\<open>The theories.\<close>

  \<^item> \<open>Kernel_Base\<close>: the prelude. Widths, faults, owned memory, copies to and from user space, the collections
    \<open>width_simps\<close> and \<open>exec_simps\<close>.

  \<^item> Contracts, each a locale with its clients' lemmas: \<open>Byte_Store\<close> (a seekable device and the loops around \<open>read\<close> and
    \<open>write\<close>), \<open>Byte_Fifo\<close> (a bounded queue of bytes, a producer and a consumer), \<open>Block_Store\<close> (a disk as an array of
    bytes under a sequence of requests). Further locales stand beside their models: \<open>owned_device\<close> in \<open>Scull_Access\<close>,
    \<open>cell_array\<close> (an array of devices of which one is changed) in \<open>Scull_System\<close>, \<open>linked_list\<close> in \<open>Ds_List\<close>,
    \<open>clean_module\<close> in \<open>Char_Dev\<close>. All are interpreted on the drivers' own functions.

  \<^item> \<open>Scull_Data\<close> (\<^verbatim>\<open>ldd/scull/main.c\<close>: \<open>scull_trim\<close>, \<open>scull_follow\<close>, \<open>scull_read\<close>, \<open>scull_write\<close>), \<open>Scull_Store\<close> (the
    device as a byte store: what a read and a write do on every branch, safety, round trip, what trimming frees),
    \<open>Scull_Ctl\<close> (\<open>open\<close>, \<open>llseek\<close>, \<open>ioctl\<close>, the \<^verbatim>\<open>/proc\<close> dumps; a sequence of
    operations within the limits is a run of an abstract device), \<open>Scull_Pipe\<close> (\<^verbatim>\<open>ldd/scull/pipe.c\<close>: the circular buffer is a queue, blocking
    hands the mutex over, \<open>poll\<close> is exact), \<open>Scull_Access\<close> (\<^verbatim>\<open>ldd/scull/access.c\<close>: exclusion at the granularity of atomic operations,
    ownership, the private devices), \<open>Scull_Module\<close> (loading and unloading all of scull).

  \<^item> \<open>Scull_System\<close> and \<open>Scull_Life\<close>: the whole of scull from loading to unloading. The tables of file operations, the table
    of the access-controlled devices, open files with an untyped \<open>private_data\<close>, and the methods as they reach
    their structures through it; a call on a file is dispatched through the table that its device was registered with. Shown are, for
    all runs, that \<open>private_data\<close> has the type that the method casts it to and that the counts of openers are exact; for runs within the limits,
    that they are runs of a specification with a map of bytes per device and a queue per pipe, that no method faults, and that
    unloading frees everything.

  \<^item> \<open>Scullp\<close> (\<^verbatim>\<open>ldd/scullp\<close>, \<^verbatim>\<open>ldd/scull-shared/scull-async.c\<close>): the page-based device, shown to do what scull does
    with quanta of one page; page faults; deferred operations. \<open>Scullp_System\<close>: its tables of operations and all its devices with their
    open files and mappings. System calls, page faults and accesses of the machine through the page tables interleave; a
    run within the limits is one of a map of bytes per device, no page is freed under a mapping, unloading frees everything.

  \<^item> \<open>Blk_Dev\<close> and \<open>Blk_Module\<close> (\<^verbatim>\<open>m_modules/blk_dev\<close>): four disks in memory refine one array of bytes;
    requests past the end; the resources of loading and unloading.

  \<^item> \<open>Skb\<close>, \<open>Ip_Input\<close> (\<^verbatim>\<open>linux/net/ipv4/ip_input.c\<close>): which packets are accepted, that a batch is received like its
    packets one by one, that delivery ends, what the added search for a keyword finds. \<open>Net_Filter\<close> (\<^verbatim>\<open>m_modules/net\<close>): the
    verdicts of the packet filters and the dump of a packet.

  \<^item> \<open>Ds_List\<close> (\<^verbatim>\<open>m_modules/ds/list.h\<close>, \<^verbatim>\<open>linked.c\<close>): a linked list on a heap of pointers. \<open>Sfs\<close> (\<^verbatim>\<open>m_modules/fs/sfs.c\<close>): files
    of counters with their conversion to text, from the name of a file through the tables of the module to its counter. \<open>Mmap_Dev\<close> (\<^verbatim>\<open>m_modules/mm/mmap_dev.c\<close>), \<open>Char_Dev\<close> (\<^verbatim>\<open>m_modules/char_dev\<close> and the
    loading of \<^verbatim>\<open>mmap_dev.c\<close>), \<open>Proc_Dev\<close> (\<^verbatim>\<open>m_modules/proc/ex_proc.c\<close>, \<^verbatim>\<open>list_proc.c\<close>), \<open>Mm_Info\<close>
    (\<^verbatim>\<open>m_modules/mm/show_mem.c\<close>, \<^verbatim>\<open>lru.c\<close>), \<open>Syscalls\<close> (\<^verbatim>\<open>linux/kernel/mycall.c\<close>, \<^verbatim>\<open>m_modules/basic/find_table.c\<close>,
    \<^verbatim>\<open>callee.c\<close>, \<^verbatim>\<open>m_modules/fs/km_debugfs.c\<close>).

  \<^item> \<open>Programs\<close> (\<^verbatim>\<open>m_modules/mm/mmap_app.c\<close>, \<^verbatim>\<open>m_modules/char_dev/chardev_app.c\<close>, \<^verbatim>\<open>ioctl_app.c\<close>, \<^verbatim>\<open>md5_app.c\<close>,
    \<^verbatim>\<open>linux/test_syscall.c\<close>): the test programs, run against the models of the drivers, and what they print. \<open>Demos\<close>
    (\<^verbatim>\<open>m_modules/ds/xarray.c\<close>, \<^verbatim>\<open>m_modules/mm/cache.c\<close>, \<^verbatim>\<open>slab_ex.c\<close>, \<^verbatim>\<open>m_modules/proc/timer.c\<close>, \<^verbatim>\<open>m_modules/time/ktime.c\<close>,
    \<^verbatim>\<open>rdtsc_app.c\<close>, \<^verbatim>\<open>m_modules/uio/ex_uio.c\<close>): the demonstrations of services of the kernel, which are parameters. \<open>Idr_Test\<close>
    (\<^verbatim>\<open>linux/tools/testing/idr-test.c\<close>): the tests of the allocators of IDs as scripts of calls and assertions. They pass on every
    allocator that refines the documented behaviour; what the program prints follows from it.

  \<^item> \<open>Scull_Proc\<close>: the files under \<^verbatim>\<open>/proc\<close> of the debugging builds of scull and scullp (and of \<^verbatim>\<open>m_modules/proc/simple_proc.c\<close>), from their tables
    to what they show and when they are created and removed. \<open>Modules\<close>: the parameters of scull and scullp and what their loading makes
    of them, \<^verbatim>\<open>m_modules/basic\<close>, the stubs of \<^verbatim>\<open>m_modules/char_dev/cdev.c\<close> and \<^verbatim>\<open>ioctl.c\<close>, the tables of \<^verbatim>\<open>m_modules/proc\<close>, the debugfs modules,
    \<^verbatim>\<open>m_modules/ds/list.c\<close>.

  \<^bold>\<open>What is shown.\<close> For each device: an invariant and that every operation keeps it; the effect of every
  operation on every branch; a refinement of an abstract device (an array, a queue, a disk, a sequence) by arbitrary sequences of
  operations; round trips; that nothing faults where the code is right, and a run that faults where it is not. Loading and unloading are
  accounted for by the calls made.

  \<^bold>\<open>Limits.\<close> scull and scullp accept settings with which they fail later: \<open>ioctl\<close> stores any quantum, quantum set or
  order, even one that it failed to copy, and the size of the pipe buffers can grow under a pipe that has a buffer. The step relations
  (\<open>scull_step\<close>, \<open>pipe_step\<close>, \<open>drv_step\<close>, \<open>scullp_step\<close>) do not leave such calls out: a step is every call that returns, and its label says
  whether the call was within the limits for which the code is right. A theorem that needs them has the hypothesis \<open>in_limits\<close> on the
  labels of the run; what happens beyond is in \<open>scull_ioctl_fault_oops\<close>, \<open>scull_p_open_grows\<close>, \<open>scullp_order_overflow\<close> and \<open>scullp_follow_null\<close>.
  The limits are: positions of reads and writes that are not negative, below \<open>2 ^ 63\<close> and in a list item with a number below \<open>2 ^ 31\<close>; the parameters in range at an open that empties
  or creates a device; a size of the pipe buffers in range, and not above that of an existing buffer, at an open of a pipe; for
  scullp also memory at hand at reads and writes, and fewer than \<open>2 ^ 31\<close> mappings. The invariant of \<open>Scull_System\<close> takes as its
  parameter whether all calls so far were within the limits. The specifications of the devices say what is read where something was
  written; the content of a byte that never was is left open, as the drivers hand out what the allocator left there.

  \<^bold>\<open>Loops and bounds.\<close> Loops over lists are structural recursion, loops over counters have a termination measure. The client loops of
  \<open>Byte_Store\<close> and \<open>Byte_Fifo\<close> are bounded by a number of calls, and the theorems say how many suffice (one
  for each byte). Waiting is a list of the awakenings that happen; an exhausted list is a process still asleep. The two loops that can run for
  ever, walking a damaged list and delivering to a handler that always asks for itself, are partial
  functions into \<open>option\<close>, and termination is proved under the conditions under which it holds.

  \<^bold>\<open>Not modelled.\<close> Interleaving inside an operation, except where a theorem is about it (the atomic counter of the single-open device,
  the geometry that \<open>scull_write\<close> reads before it has the mutex, the waits): in the runs of the drivers a call is one step. The wrap-around of the
  counters of openers at \<open>2 ^ 31\<close>. Private mappings, and unmapping a part of a mapping. State that filter hooks, routing and protocol handlers
  keep between packets, and that a cloned packet loses its socket. The text that the kernel formats for \<open>seq_printf\<close> in scull (its width
  is a parameter). The accounting by route class in \<^verbatim>\<open>ip_input.c\<close>. Modules that consist of single calls of the kernel
  and messages only, the test program of the block device, which works through the page cache, the tests in \<^verbatim>\<open>idr-test.c\<close> that run threads
  against a clock or count on allocations that fail in user space, and the prototypes in \<^verbatim>\<open>syscalls.h\<close>: there is nothing in
  them but code of the kernel that is not in the repository.
\<close>

section \<open>Components together\<close>

text \<open>
  C32. The two places where packets with the word \<^verbatim>\<open>HTTP\<close> are dropped: the search that was added to \<open>ip_rcv_core\<close>, and behind
  it the filter of \<^verbatim>\<open>http_netfilter.c\<close>. What the filter still finds in a packet that the receive path let pass is only an occurrence
  behind a byte \<^verbatim>\<open>H\<close> or \<^verbatim>\<open>T\<close>, the ones that the search can overlook; every other occurrence has been dropped before.
\<close>

theorem http_filter_behind_search:
  assumes "linear_documented env" and "skb_frags skb = []" and "skb_off skb = 0" and "ip_rcv_core env skb = Done (Some skb', t)"
    and "tcp_packet skb' payload" and "\<And>n. km n \<noteq> None" and "http_hook km (Some skb') = Done NF_DROP"
  shows "(\<exists>pre post. skb_head skb' = pre @ keyword @ post) \<and>
    (\<forall>pre post. skb_head skb' = pre @ keyword @ post \<longrightarrow> pre \<noteq> [] \<and> last pre \<in> {0x48, 0x54})"
proof -
  note acc = ip_rcv_core_accepted [OF assms(1-4)]
  obtain n where n: "skb_head skb' = take n (skb_head skb)" using acc(2) by blast
  have "\<exists>pre post. payload = pre @ keyword @ post" by (rule http_hook_drops [OF assms(5,6,7)])
  moreover obtain hd where "skb_head skb' = hd @ payload" using assms(5) by (auto simp: tcp_packet_def)
  ultimately have "\<exists>pre post. skb_head skb' = pre @ keyword @ post" by (metis append.assoc)
  moreover have "pre \<noteq> [] \<and> last pre \<in> {0x48, 0x54}" if "skb_head skb' = pre @ keyword @ post" for pre post
  proof -
    have "skb_head skb = pre @ keyword @ (post @ drop n (skb_head skb))" using that n by (metis append.assoc append_take_drop_id)
    then show ?thesis using acc(1) scan_complete [of pre "post @ drop n (skb_head skb)"] by auto
  qed
  ultimately show ?thesis by blast
qed

text \<open>A packet with the text \<^verbatim>\<open>HHTTP\<close>, which the search overlooks and the filter drops.\<close>

definition hhttp_ex :: sk_buff where
  "hhttp_ex = skb_ex\<lparr>skb_head := [0x45, 0, 0, 46, 0, 0, 0, 0, 64, 6, 0, 0, 10, 0, 0, 1, 10, 0, 0, 2] @
     [0, 80, 0, 80, 0, 0, 0, 0, 0, 0, 0, 0, 0x50, 0, 0, 0, 0, 0, 0, 0] @ 0x48 # keyword @ [0], cb_iif := 2\<rparr>"

lemma hhttp_ex_accepted:
  "\<exists>t. ip_rcv_core ip_env_ex hhttp_ex = Done (Some hhttp_ex, t)"
proof -
  have len: "length (skb_head hhttp_ex) = 46" by (simp add: hhttp_ex_def keyword_def)
  have hdr: "ip_ihl (parse_iphdr (skb_head hhttp_ex)) = 5" "ip_version (parse_iphdr (skb_head hhttp_ex)) = 4"
    "ip_tot_len (parse_iphdr (skb_head hhttp_ex)) = 46"
    by (simp_all add: hhttp_ex_def parse_iphdr_def be16_def keyword_def)
  have no: "\<not> scan 0 (skb_head hhttp_ex)" by (simp add: hhttp_ex_def walk_def keyword_def)
  have f: "skb_frags hhttp_ex = []" "skb_off hhttp_ex = 0" "skb_pkt_type hhttp_ex \<noteq> PACKET_OTHERHOST" "e_share_check ip_env_ex hhttp_ex = Some hhttp_ex"
    by (simp_all add: hhttp_ex_def skb_ex_def ip_env_ex_def)
  have c: "e_fast_csum ip_env_ex b = 0" "e_trim_rcsum ip_env_ex hhttp_ex 46 \<noteq> None" for b by (simp_all add: ip_env_ex_def)
  have "take 46 (skb_head hhttp_ex) = skb_head hhttp_ex" using len by simp
  moreover have "hhttp_ex\<lparr>skb_transport := 20, cb_iif := skb_iif hhttp_ex, cb_optlen := 0, skb_sk := False\<rparr> = hhttp_ex"
    by (simp add: hhttp_ex_def skb_ex_def)
  ultimately show ?thesis
    using ip_rcv_header_linear [OF ip_env_ex_linear f(1,2), of "[UpdPoStats MIB_IN (skb_len hhttp_ex)]"] len hdr no c
    by (auto simp: ip_rcv_core_linear [OF ip_env_ex_linear f] IPHDR_def)
qed

theorem http_filter_behind_search_witness:
  "\<exists>t. ip_rcv_core ip_env_ex hhttp_ex = Done (Some hhttp_ex, t) \<and> http_hook (\<lambda>n. Some 5) (Some hhttp_ex) = Done NF_DROP \<and>
    (\<forall>pre post. skb_head hhttp_ex = pre @ keyword @ post \<longrightarrow> pre \<noteq> [] \<and> last pre \<in> {0x48, 0x54})"
proof -
  let ?p = "0x48 # keyword @ [0]" and ?km = "\<lambda>n::int. Some (5::nat)"
  obtain t where t: "ip_rcv_core ip_env_ex hhttp_ex = Done (Some hhttp_ex, t)" using hhttp_ex_accepted by blast
  have lin: "skb_frags hhttp_ex = []" "skb_off hhttp_ex = 0" by (simp_all add: hhttp_ex_def)
  have tcp: "tcp_packet hhttp_ex ?p"
    unfolding tcp_packet_def
    by (intro conjI exI [of _ "[0x45, 0, 0, 46, 0, 0, 0, 0, 64, 6, 0, 0, 10, 0, 0, 1, 10, 0, 0, 2]"]
        exI [of _ "[0, 80, 0, 80, 0, 0, 0, 0, 0, 0, 0, 0, 0x50, 0, 0, 0, 0, 0, 0, 0]"])
      (simp_all add: hhttp_ex_def skb_ex_def keyword_def IPHDR_def parse_iphdr_def IPPROTO_TCP_def)
  have km: "?km n \<noteq> None" for n by simp
  have drop: "http_hook ?km (Some hhttp_ex) = Done NF_DROP"
    unfolding http_hook_linear [OF tcp km] by (simp add: c_str_def keyword_def)
  from http_filter_behind_search [OF ip_env_ex_linear lin t tcp km drop] t drop show ?thesis by blast
qed

end
